(* ===== verification/Prelude.thy ===== *)
theory Prelude
  imports Complex_Main
begin

text \<open>
  Shared vocabulary of the development: Go's 64-bit integers and instants, the parts of the
  \<^verbatim>\<open>strings\<close> package the sources use, and three interface locales that several components
  share: a table scanned in order where the first match wins, a machine that folds events over a
  state and keeps an invariant, and an encoder with its decoder.
\<close>

named_theorems go_defs \<open>definitions of Go primitives, to unfold\<close>

section \<open>Integers, durations and instants\<close>

text \<open>
  Go's \<^verbatim>\<open>int\<close> and \<^verbatim>\<open>int64\<close> are 64-bit two's complement: a result is
  wrapped into range. \<open>wrap64\<close> is applied where an operand comes from outside the program and
  can push a sum out of range; counters that move by one per event are plain \<open>int\<close>.
\<close>

definition MaxInt64 :: int where
  "MaxInt64 = 9223372036854775807"

definition MinInt64 :: int where
  "MinInt64 = - 9223372036854775808"

definition wrap64 :: "int \<Rightarrow> int" where
  "wrap64 x = (x + 9223372036854775808) mod 18446744073709551616 - 9223372036854775808"

definition in64 :: "int \<Rightarrow> bool" where
  "in64 x \<longleftrightarrow> MinInt64 \<le> x \<and> x \<le> MaxInt64"

lemma wrap64_id: "in64 x \<Longrightarrow> wrap64 x = x"
  by (simp add: in64_def wrap64_def MinInt64_def MaxInt64_def)

lemma wrap64_range: "in64 (wrap64 x)"
  using pos_mod_bound [of 18446744073709551616 "x + 9223372036854775808"]
    pos_mod_sign [of 18446744073709551616 "x + 9223372036854775808"]
  by (simp add: in64_def wrap64_def MinInt64_def MaxInt64_def)

lemma wrap64_add_left [simp]: "wrap64 (wrap64 a + b) = wrap64 (a + b)"
proof -
  have "((a + 9223372036854775808) mod 18446744073709551616 + b) mod 18446744073709551616
      = (a + 9223372036854775808 + b) mod 18446744073709551616"
    by (rule mod_add_left_eq)
  then show ?thesis by (simp add: wrap64_def algebra_simps)
qed

lemma wrap64_add_right [simp]: "wrap64 (a + wrap64 b) = wrap64 (a + b)"
  using wrap64_add_left [of b a] by (simp add: add.commute)

lemma in64_nonneg_le: "0 \<le> x \<Longrightarrow> x \<le> MaxInt64 \<Longrightarrow> in64 x"
  by (simp add: in64_def MinInt64_def MaxInt64_def)

text \<open>
  A \<^verbatim>\<open>time.Time\<close> is its distance in nanoseconds from Go's zero instant, so
  \<^verbatim>\<open>IsZero\<close> is equality with 0; a \<^verbatim>\<open>time.Duration\<close> is a 64-bit number of
  nanoseconds, and \<^verbatim>\<open>Time.Sub\<close> saturates at its ends.
\<close>

type_synonym instant = int
type_synonym duration = int

definition IsZero :: "instant \<Rightarrow> bool" where
  "IsZero t \<longleftrightarrow> t = 0"

definition TimeSub :: "instant \<Rightarrow> instant \<Rightarrow> duration" where
  "TimeSub a b = max MinInt64 (min MaxInt64 (a - b))"

definition Millisecond :: int where
  "Millisecond = 1000000"

definition Hour :: int where
  "Hour = 3600000000000"

section \<open>Strings\<close>

text \<open>
  A Go string is its bytes, a \<open>string\<close> here. The case folding and the white space of
  \<^verbatim>\<open>strings.ToLower\<close> and \<^verbatim>\<open>strings.TrimSpace\<close> are modelled on ASCII, which is what
  every code, key and marker of the sources is written in.
\<close>

definition is_space :: "char \<Rightarrow> bool" where
  "is_space c \<longleftrightarrow> c \<in> {CHR 0x09, CHR 0x0A, CHR 0x0B, CHR 0x0C, CHR 0x0D, CHR 0x20}"

definition TrimSpace :: "string \<Rightarrow> string" where
  "TrimSpace s = rev (dropWhile is_space (rev (dropWhile is_space s)))"

definition lower_char :: "char \<Rightarrow> char" where
  "lower_char c = (let n = of_char c :: nat in if 65 \<le> n \<and> n \<le> 90 then char_of (n + 32) else c)"

definition ToLower :: "string \<Rightarrow> string" where
  "ToLower s = map lower_char s"

fun HasPrefix :: "string \<Rightarrow> string \<Rightarrow> bool" where
  "HasPrefix s [] = True"
| "HasPrefix [] (p # ps) = False"
| "HasPrefix (c # s) (p # ps) = (c = p \<and> HasPrefix s ps)"

definition HasSuffix :: "string \<Rightarrow> string \<Rightarrow> bool" where
  "HasSuffix s suf = HasPrefix (rev s) (rev suf)"

definition TrimPrefix :: "string \<Rightarrow> string \<Rightarrow> string" where
  "TrimPrefix s p = (if HasPrefix s p then drop (length p) s else s)"

fun Contains :: "string \<Rightarrow> string \<Rightarrow> bool" where
  "Contains [] n = (n = [])"
| "Contains (c # s) n = (HasPrefix (c # s) n \<or> Contains s n)"

text \<open>\<^verbatim>\<open>strings.Cut\<close>: the text before and after the first occurrence of the separator.\<close>

fun Cut :: "string \<Rightarrow> string \<Rightarrow> (string \<times> string) option" where
  "Cut [] n = (if n = [] then Some ([], []) else None)"
| "Cut (c # s) n =
     (if HasPrefix (c # s) n then Some ([], drop (length n) (c # s))
      else map_option (\<lambda>(a, b). (c # a, b)) (Cut s n))"

fun Join :: "string list \<Rightarrow> string \<Rightarrow> string" where
  "Join [] sep = []"
| "Join [x] sep = x"
| "Join (x # y # ys) sep = x @ sep @ Join (y # ys) sep"

text \<open>\<^verbatim>\<open>strings.Split\<close> at a single byte.\<close>

fun Split :: "string \<Rightarrow> char \<Rightarrow> string list" where
  "Split [] sep = [[]]"
| "Split (c # s) sep =
     (if c = sep then [] # Split s sep
      else (case Split s sep of [] \<Rightarrow> [[c]] | w # ws \<Rightarrow> (c # w) # ws))"

lemma HasPrefix_iff: "HasPrefix s p \<longleftrightarrow> (\<exists>t. s = p @ t)"
  by (induction s p rule: HasPrefix.induct) auto

lemma HasPrefix_append [simp]: "HasPrefix (p @ t) p"
  by (auto simp: HasPrefix_iff)

lemma Contains_iff: "Contains s n \<longleftrightarrow> (\<exists>a b. s = a @ n @ b)"
proof (induction s)
  case Nil
  show ?case by simp
next
  case (Cons c s)
  have "(\<exists>a b. c # s = a @ n @ b) \<longleftrightarrow> (\<exists>b. c # s = n @ b) \<or> (\<exists>a b. s = a @ n @ b)"
    by (metis (no_types, opaque_lifting) append_Cons append_Nil list.inject neq_Nil_conv)
  then show ?case using Cons.IH by (simp add: HasPrefix_iff)
qed

lemma Contains_append: "Contains s n \<Longrightarrow> Contains (a @ s @ b) n"
  unfolding Contains_iff by (metis append.assoc)

lemma ToLower_append [simp]: "ToLower (a @ b) = ToLower a @ ToLower b"
  by (simp add: ToLower_def)

lemma ToLower_Nil [simp]: "ToLower [] = []"
  by (simp add: ToLower_def)

lemma TrimSpace_Nil [simp]: "TrimSpace [] = []"
  by (simp add: TrimSpace_def)

lemma Split_nonempty [simp]: "Split s sep \<noteq> []"
  by (induction s) (auto split: list.splits)

lemma Split_no_sep: "w \<in> set (Split s sep) \<Longrightarrow> sep \<notin> set w"
proof (induction s arbitrary: w)
  case Nil
  then show ?case by simp
next
  case (Cons c s)
  then show ?case by (cases "Split s sep") (auto split: if_splits)
qed

lemma Join_Split: "Join (Split s sep) [sep] = s"
proof (induction s)
  case Nil
  show ?case by simp
next
  case (Cons c s)
  obtain w ws where W: "Split s sep = w # ws"
    by (cases "Split s sep") auto
  show ?case
  proof (cases "c = sep")
    case True
    then show ?thesis using Cons.IH W by simp
  next
    case False
    then show ?thesis using Cons.IH W by (cases ws) auto
  qed
qed

lemma append_sep_cancel:
  "sep \<notin> set a \<Longrightarrow> sep \<notin> set a' \<Longrightarrow> a @ sep # b = a' @ sep # b' \<Longrightarrow> a = a' \<and> b = b'"
proof (induction a arbitrary: a')
  case Nil
  then show ?case by (cases a') auto
next
  case (Cons c a)
  then show ?case by (cases a') auto
qed

lemma Split_free: "sep \<notin> set w \<Longrightarrow> Split w sep = [w]"
  by (induction w) auto

lemma Split_Cons_free: "sep \<notin> set w \<Longrightarrow> Split (w @ sep # s) sep = w # Split s sep"
  by (induction w) auto

lemma Split_Join:
  "ws \<noteq> [] \<Longrightarrow> \<forall>w \<in> set ws. sep \<notin> set w \<Longrightarrow> Split (Join ws [sep]) sep = ws"
  by (induction ws "[sep]" rule: Join.induct) (auto simp: Split_free Split_Cons_free)

section \<open>Tables scanned in order\<close>

text \<open>
  A classifier of the sources is a table and a loop that answers with the first entry that
  matches. \<open>first_hit\<close> is that loop; the locale states what every such classifier promises.
\<close>

fun first_hit :: "('r \<Rightarrow> bool) \<Rightarrow> 'r list \<Rightarrow> 'r option" where
  "first_hit m [] = None"
| "first_hit m (r # rs) = (if m r then Some r else first_hit m rs)"

lemma first_hit_None: "first_hit m rs = None \<longleftrightarrow> (\<forall>r \<in> set rs. \<not> m r)"
  by (induction rs) auto

lemma first_hit_Some:
  "first_hit m rs = Some r \<longleftrightarrow> (\<exists>a b. rs = a @ r # b \<and> m r \<and> (\<forall>x \<in> set a. \<not> m x))"
proof (induction rs)
  case Nil
  show ?case by simp
next
  case (Cons x xs)
  show ?case
  proof (cases "m x")
    case True
    then show ?thesis by (auto simp: Cons_eq_append_conv)
  next
    case False
    then show ?thesis using Cons.IH
      by (auto simp: Cons_eq_append_conv) (metis set_ConsD)+
  qed
qed

lemma first_hit_prefix:
  "\<forall>x \<in> set a. \<not> m x \<Longrightarrow> first_hit m (a @ b) = first_hit m b"
  by (induction a) auto

lemma first_hit_before:
  "m r \<Longrightarrow> first_hit m (a @ r # b) = Some x \<Longrightarrow> x \<in> set a \<or> x = r"
  by (induction a) (auto split: if_splits)

locale first_match_table =
  fixes table :: "'r list"
    and hits :: "'r \<Rightarrow> 's \<Rightarrow> bool"
    and classify :: "'s \<Rightarrow> 'r option"
  assumes classify_scan: "classify s = first_hit (\<lambda>r. hits r s) table"
begin

lemma classified_hits: "classify s = Some r \<Longrightarrow> r \<in> set table \<and> hits r s"
  by (auto simp: classify_scan first_hit_Some)

lemma unclassified_iff: "classify s = None \<longleftrightarrow> (\<forall>r \<in> set table. \<not> hits r s)"
  by (simp add: classify_scan first_hit_None)

lemma classified_first:
  "table = a @ r # b \<Longrightarrow> hits r s \<Longrightarrow> \<forall>x \<in> set a. \<not> hits x s \<Longrightarrow> classify s = Some r"
  by (auto simp: classify_scan first_hit_Some)

lemma classified_no_later:
  "table = a @ r # b \<Longrightarrow> hits r s \<Longrightarrow> classify s = Some x \<Longrightarrow> x \<in> set a \<or> x = r"
  using first_hit_before [of "\<lambda>r. hits r s" r a b x] by (simp add: classify_scan)

end

section \<open>Machines that keep an invariant\<close>

text \<open>
  A component with state is a function that applies one event to it. The locale gives the fold
  over a sequence of events and lifts an invariant of one event to every reachable state.
\<close>

locale event_machine =
  fixes app :: "'s \<Rightarrow> 'e \<Rightarrow> 's"
    and inv :: "'s \<Rightarrow> bool"
  assumes app_inv: "inv s \<Longrightarrow> inv (app s e)"
begin

lemma foldl_inv: "inv s \<Longrightarrow> inv (foldl app s es)"
  by (induction es arbitrary: s) (auto intro: app_inv)

end

text \<open>
  A component refines an abstract machine when one event keeps the two states related; the
  relation then holds after any run whose events all meet the guard \<open>ok\<close>.
\<close>

fun run_ok :: "('s \<Rightarrow> 'e \<Rightarrow> 's) \<Rightarrow> ('s \<Rightarrow> 'e \<Rightarrow> bool) \<Rightarrow> 's \<Rightarrow> 'e list \<Rightarrow> bool" where
  "run_ok app ok s [] = True"
| "run_ok app ok s (e # es) = (ok s e \<and> run_ok app ok (app s e) es)"

lemma run_ok_True: "run_ok app (\<lambda>s e. True) s es"
  by (induction es arbitrary: s) simp_all

locale simulation =
  fixes capp :: "'c \<Rightarrow> 'e \<Rightarrow> 'c"
    and aapp :: "'a \<Rightarrow> 'e \<Rightarrow> 'a"
    and rel :: "'c \<Rightarrow> 'a \<Rightarrow> bool"
    and ok :: "'c \<Rightarrow> 'e \<Rightarrow> bool"
  assumes sim_step: "rel c a \<Longrightarrow> ok c e \<Longrightarrow> rel (capp c e) (aapp a e)"
begin

lemma sim_run: "rel c a \<Longrightarrow> run_ok capp ok c es \<Longrightarrow> rel (foldl capp c es) (foldl aapp a es)"
  by (induction es arbitrary: c a) (auto intro: sim_step)

end

section \<open>Stored forms\<close>

text \<open>
  A value with a stored form is written by an encoder and read back by a decoder; \<open>norm\<close> is
  what the pair keeps of a value, the identity where nothing is lost.
\<close>

locale stored_form =
  fixes enc :: "'a \<Rightarrow> 'j"
    and dec :: "'j \<Rightarrow> 'a"
    and norm :: "'a \<Rightarrow> 'a"
    and ok :: "'a \<Rightarrow> bool"
  assumes dec_enc: "ok x \<Longrightarrow> dec (enc x) = norm x"
    and norm_idem: "ok x \<Longrightarrow> norm (norm x) = norm x"
    and norm_ok: "ok x \<Longrightarrow> ok (norm x)"
begin

lemma reencode_stable: "ok x \<Longrightarrow> dec (enc (dec (enc x))) = dec (enc x)"
  by (simp add: dec_enc norm_idem norm_ok)

lemma enc_inj: "ok x \<Longrightarrow> ok y \<Longrightarrow> enc x = enc y \<Longrightarrow> norm x = norm y"
  by (metis dec_enc)

end

end
