(* ===== verification/Budget.thy ===== *)
theory Budget
  imports Prelude
begin

text \<open>
  The ceilings of a work run (\<^verbatim>\<open>component/work/budget.go\<close>): how an answered model request is
  folded into a run's spend, which ceiling a run has reached, the wall-clock deadline, and the
  ceilings an estimated workload imposes. Dollar amounts are rationals (a \<^verbatim>\<open>float64\<close> read
  exactly, without rounding); token counts are Go integers and wrap.
\<close>

section \<open>Spend\<close>

definition ServeJournal :: string where "ServeJournal = ''journal''"
definition ServeLive :: string where "ServeLive = ''live''"
definition ServedLocal :: string where "ServedLocal = ''local''"
definition ServedSubscription :: string where "ServedSubscription = ''subscription''"
definition ServedCache :: string where "ServedCache = ''cache''"

lemmas served_defs [go_defs] =
  ServeJournal_def ServeLive_def ServedLocal_def ServedSubscription_def ServedCache_def

record CallSpend =
  call_Served :: string
  call_InputTokens :: int
  call_OutputTokens :: int
  call_Cost :: rat

record Spent =
  sp_Tokens :: int
  sp_TokensSubscription :: int
  sp_TokensLocal :: int
  sp_Cost :: rat
  sp_ModelCalls :: int
  sp_Retries :: int
  sp_Events :: int
  sp_WallClockMs :: int

definition AddCall :: "Spent \<Rightarrow> CallSpend \<Rightarrow> Spent" where
  "AddCall s c =
     (let s = s\<lparr>sp_ModelCalls := wrap64 (sp_ModelCalls s + 1)\<rparr>;
          tokens = wrap64 (call_InputTokens c + call_OutputTokens c)
      in if call_Served c = ServedLocal
           then s\<lparr>sp_TokensLocal := wrap64 (sp_TokensLocal s + tokens)\<rparr>
         else if call_Served c = ServedSubscription
           then s\<lparr>sp_TokensSubscription := wrap64 (sp_TokensSubscription s + tokens)\<rparr>
         else if call_Served c = ServeJournal \<or> call_Served c = ServedCache
           then s
         else s\<lparr>sp_Tokens := wrap64 (sp_Tokens s + tokens), sp_Cost := sp_Cost s + call_Cost c\<rparr>)"

text \<open>Which bucket an answer's tokens land in, read off the switch of \<^verbatim>\<open>AddCall\<close>.\<close>

definition metered :: "CallSpend \<Rightarrow> bool" where
  "metered c \<longleftrightarrow>
     call_Served c \<notin> {ServedLocal, ServedSubscription, ServeJournal, ServedCache}"

definition call_tokens :: "CallSpend \<Rightarrow> int" where
  "call_tokens c = call_InputTokens c + call_OutputTokens c"

definition spent_in64 :: "Spent \<Rightarrow> bool" where
  "spent_in64 s \<longleftrightarrow> in64 (sp_Tokens s) \<and> in64 (sp_TokensSubscription s) \<and>
     in64 (sp_TokensLocal s) \<and> in64 (sp_ModelCalls s)"

lemma AddCall_ModelCalls [simp]: "sp_ModelCalls (AddCall s c) = wrap64 (sp_ModelCalls s + 1)"
  by (simp add: AddCall_def Let_def)

lemma AddCall_Tokens:
  "in64 (sp_Tokens s) \<Longrightarrow>
   sp_Tokens (AddCall s c) = wrap64 (sp_Tokens s + (if metered c then call_tokens c else 0))"
  by (simp add: AddCall_def Let_def metered_def call_tokens_def wrap64_id add.assoc)

lemma AddCall_Cost:
  "sp_Cost (AddCall s c) = sp_Cost s + (if metered c then call_Cost c else 0)"
  by (simp add: AddCall_def Let_def metered_def)

lemma AddCall_frame [simp]:
  "sp_Retries (AddCall s c) = sp_Retries s" "sp_Events (AddCall s c) = sp_Events s"
  "sp_WallClockMs (AddCall s c) = sp_WallClockMs s"
  by (simp_all add: AddCall_def Let_def)

lemma AddCall_in64: "spent_in64 s \<Longrightarrow> spent_in64 (AddCall s c)"
  by (simp add: spent_in64_def AddCall_def Let_def wrap64_range)

text \<open>A run's spend is the machine that folds its answered requests.\<close>

interpretation spend: event_machine AddCall spent_in64
  by unfold_locales (rule AddCall_in64)

lemma foldl_ModelCalls:
  "in64 (sp_ModelCalls s) \<Longrightarrow>
   sp_ModelCalls (foldl AddCall s cs) = wrap64 (sp_ModelCalls s + int (length cs))"
  by (induction cs arbitrary: s) (simp_all add: wrap64_id wrap64_range algebra_simps)

lemma foldl_Tokens:
  "spent_in64 s \<Longrightarrow>
   sp_Tokens (foldl AddCall s cs)
     = wrap64 (sp_Tokens s + (\<Sum>c \<leftarrow> filter metered cs. call_tokens c))"
proof (induction cs arbitrary: s)
  case Nil
  then show ?case by (simp add: wrap64_id spent_in64_def)
next
  case (Cons c cs)
  then have "in64 (sp_Tokens s)" by (simp add: spent_in64_def)
  then show ?case
    using Cons.IH [OF AddCall_in64 [OF Cons.prems, of c]]
    by (simp add: AddCall_Tokens algebra_simps)
qed

lemma foldl_Cost:
  "sp_Cost (foldl AddCall s cs) = sp_Cost s + (\<Sum>c \<leftarrow> filter metered cs. call_Cost c)"
  by (induction cs arbitrary: s) (simp_all add: AddCall_Cost)

section \<open>Ceilings\<close>

definition CeilingTokens :: string where "CeilingTokens = ''tokens''"
definition CeilingCost :: string where "CeilingCost = ''cost''"
definition CeilingWallClock :: string where "CeilingWallClock = ''wallClock''"
definition CeilingModelCalls :: string where "CeilingModelCalls = ''modelCalls''"
definition CeilingRetries :: string where "CeilingRetries = ''retries''"
definition CeilingEvents :: string where "CeilingEvents = ''events''"
definition CeilingUnevaluated :: string where "CeilingUnevaluated = ''unevaluated''"

lemmas ceiling_defs [go_defs] =
  CeilingTokens_def CeilingCost_def CeilingWallClock_def CeilingModelCalls_def
  CeilingRetries_def CeilingEvents_def CeilingUnevaluated_def

record Ceilings =
  cl_TokenBudget :: int
  cl_CostCeiling :: rat
  cl_WallClockMs :: int
  cl_MaxRetries :: int
  cl_MaxModelCalls :: int
  cl_MaxEvents :: int

text \<open>The figures and sentences a breach shows: one constructor per format, with its arguments.\<close>

datatype figure =
    TokenFigure int
  | SpentPlusEstimated int int
  | DollarFigure rat
  | CallFigure int
  | RetryFigure int
  | EventFigure int
  | MsFigure int
  | UnknownFigure

datatype breach_reason = ReachedCeiling string | CouldNotRead string

record CeilingBreach =
  br_Ceiling :: string
  br_Limit :: figure
  br_Actual :: figure
  br_Reason :: breach_reason

definition UnevaluatedBreach :: "string \<Rightarrow> CeilingBreach" where
  "UnevaluatedBreach reason =
     \<lparr>br_Ceiling = CeilingUnevaluated, br_Limit = UnknownFigure, br_Actual = UnknownFigure,
      br_Reason = CouldNotRead reason\<rparr>"

definition breach :: "string \<Rightarrow> figure \<Rightarrow> figure \<Rightarrow> CeilingBreach option" where
  "breach name cap act =
     Some \<lparr>br_Ceiling = name, br_Limit = cap, br_Actual = act, br_Reason = ReachedCeiling name\<rparr>"

definition CheckCeilings :: "Ceilings \<Rightarrow> Spent \<Rightarrow> int \<Rightarrow> CeilingBreach option" where
  "CheckCeilings c s estimatedTokens =
     (if cl_TokenBudget c > 0 \<and> wrap64 (sp_Tokens s + estimatedTokens) > cl_TokenBudget c
        then breach CeilingTokens (TokenFigure (cl_TokenBudget c))
               (SpentPlusEstimated (sp_Tokens s) estimatedTokens)
      else if cl_CostCeiling c > 0 \<and> sp_Cost s \<ge> cl_CostCeiling c
        then breach CeilingCost (DollarFigure (cl_CostCeiling c)) (DollarFigure (sp_Cost s))
      else if cl_MaxModelCalls c > 0 \<and> sp_ModelCalls s \<ge> cl_MaxModelCalls c
        then breach CeilingModelCalls (CallFigure (cl_MaxModelCalls c))
               (CallFigure (sp_ModelCalls s))
      else if cl_MaxRetries c > 0 \<and> sp_Retries s \<ge> cl_MaxRetries c
        then breach CeilingRetries (RetryFigure (cl_MaxRetries c)) (RetryFigure (sp_Retries s))
      else if cl_MaxEvents c > 0 \<and> sp_Events s \<ge> cl_MaxEvents c
        then breach CeilingEvents (EventFigure (cl_MaxEvents c)) (EventFigure (sp_Events s))
      else if cl_WallClockMs c > 0 \<and> sp_WallClockMs s \<ge> cl_WallClockMs c
        then breach CeilingWallClock (MsFigure (cl_WallClockMs c)) (MsFigure (sp_WallClockMs s))
      else None)"

definition dollar_breach :: "CeilingBreach option \<Rightarrow> bool" where
  "dollar_breach b \<longleftrightarrow> (\<exists>x. b = Some x \<and> br_Ceiling x \<in> {CeilingTokens, CeilingCost})"

definition DefaultMaxRetries :: int where "DefaultMaxRetries = 3"

definition RetryBudget :: "Ceilings \<Rightarrow> int" where
  "RetryBudget c = (if cl_MaxRetries c > 0 then cl_MaxRetries c else DefaultMaxRetries)"

definition RunDeadline :: "instant \<Rightarrow> int \<Rightarrow> string + instant" where
  "RunDeadline start wallClockMs =
     (if wallClockMs \<le> 0 then Inr 0
      else if IsZero start
        then Inl ''a wall-clock budget requires a valid run start time''
      else if wallClockMs > MaxInt64 div Millisecond
        then Inl ''wall-clock budget is too large''
      else Inr (start + wrap64 (wallClockMs * Millisecond)))"

text \<open>
  \<^verbatim>\<open>EffectiveWorkloadCeilings\<close>: the three limits of a workload class, and the limits a run of
  that class gets.
\<close>

definition workload_limits :: "string \<Rightarrow> (int \<times> int \<times> int) option" where
  "workload_limits workload =
     (if workload = ''lookup'' then Some (600000, 12, 1)
      else if workload = ''quick'' then Some (600000, 3, 1)
      else if workload = ''research'' then Some (2700000, 48, 2)
      else if workload = ''project'' then Some (7200000, 96, 2)
      else None)"

definition tighten :: "int \<Rightarrow> int \<Rightarrow> int" where
  "tighten declared cap = (if declared = 0 \<or> declared > cap then cap else declared)"

definition EffectiveWorkloadCeilings :: "Ceilings \<Rightarrow> string \<Rightarrow> Ceilings" where
  "EffectiveWorkloadCeilings c workload =
     (case workload_limits workload of
        None \<Rightarrow> c
      | Some (wall, calls, retries) \<Rightarrow>
          c\<lparr>cl_WallClockMs := tighten (cl_WallClockMs c) wall,
            cl_MaxModelCalls := tighten (cl_MaxModelCalls c) calls,
            cl_MaxRetries := tighten (cl_MaxRetries c) retries\<rparr>)"

section \<open>Lemmas\<close>

lemma CheckCeilings_None_iff:
  "CheckCeilings c s e = None \<longleftrightarrow>
     \<not> (cl_TokenBudget c > 0 \<and> wrap64 (sp_Tokens s + e) > cl_TokenBudget c) \<and>
     \<not> (cl_CostCeiling c > 0 \<and> sp_Cost s \<ge> cl_CostCeiling c) \<and>
     \<not> (cl_MaxModelCalls c > 0 \<and> sp_ModelCalls s \<ge> cl_MaxModelCalls c) \<and>
     \<not> (cl_MaxRetries c > 0 \<and> sp_Retries s \<ge> cl_MaxRetries c) \<and>
     \<not> (cl_MaxEvents c > 0 \<and> sp_Events s \<ge> cl_MaxEvents c) \<and>
     \<not> (cl_WallClockMs c > 0 \<and> sp_WallClockMs s \<ge> cl_WallClockMs c)"
  by (simp add: CheckCeilings_def breach_def)

lemma dollar_breach_iff:
  "dollar_breach (CheckCeilings c s e) \<longleftrightarrow>
     (cl_TokenBudget c > 0 \<and> wrap64 (sp_Tokens s + e) > cl_TokenBudget c) \<or>
     (cl_CostCeiling c > 0 \<and> sp_Cost s \<ge> cl_CostCeiling c)"
  by (auto simp: dollar_breach_def CheckCeilings_def breach_def ceiling_defs)

lemma tighten_le: "0 < declared \<Longrightarrow> tighten declared cap \<le> declared"
  by (auto simp: tighten_def)

lemma tighten_pos: "0 < declared \<Longrightarrow> 0 < cap \<Longrightarrow> 0 < tighten declared cap"
  by (auto simp: tighten_def)

lemma tighten_bounds: "0 \<le> declared \<Longrightarrow> 0 < cap \<Longrightarrow> 0 < tighten declared cap \<and> tighten declared cap \<le> cap"
  by (auto simp: tighten_def)

lemma workload_limits_pos:
  "workload_limits w = Some (wall, calls, retries) \<Longrightarrow> 0 < wall \<and> 0 < calls \<and> 0 < retries"
  by (auto simp: workload_limits_def split: if_splits)

lemma Effective_fields:
  "workload_limits w = Some (wall, calls, retries) \<Longrightarrow>
   EffectiveWorkloadCeilings c w =
     c\<lparr>cl_WallClockMs := tighten (cl_WallClockMs c) wall,
       cl_MaxModelCalls := tighten (cl_MaxModelCalls c) calls,
       cl_MaxRetries := tighten (cl_MaxRetries c) retries\<rparr>"
  by (simp add: EffectiveWorkloadCeilings_def)

section \<open>Properties\<close>

text \<open>
  C16. The dollar/loop split. However a run's requests were answered, its model-call counter rises
  by one for every answer, while the metered tokens and the cost it is charged are the sums over
  the metered answers alone: a replayed, cached, local or subscription answer adds to neither.
\<close>

theorem spend_split:
  assumes "spent_in64 s"
  shows "sp_ModelCalls (foldl AddCall s cs) = wrap64 (sp_ModelCalls s + int (length cs)) \<and>
    sp_Tokens (foldl AddCall s cs)
      = wrap64 (sp_Tokens s + (\<Sum>c \<leftarrow> filter metered cs. call_tokens c)) \<and>
    sp_Cost (foldl AddCall s cs) = sp_Cost s + (\<Sum>c \<leftarrow> filter metered cs. call_Cost c) \<and>
    spent_in64 (foldl AddCall s cs)"
  using assms foldl_Tokens [OF assms] spend.foldl_inv [OF assms]
  by (simp add: foldl_ModelCalls foldl_Cost spent_in64_def)

definition zero_spent :: Spent where
  "zero_spent = \<lparr>sp_Tokens = 0, sp_TokensSubscription = 0, sp_TokensLocal = 0, sp_Cost = 0,
     sp_ModelCalls = 0, sp_Retries = 0, sp_Events = 0, sp_WallClockMs = 0\<rparr>"

definition sample_calls :: "CallSpend list" where
  "sample_calls =
     [\<lparr>call_Served = ''live'', call_InputTokens = 7, call_OutputTokens = 5, call_Cost = 2\<rparr>,
      \<lparr>call_Served = ''cache'', call_InputTokens = 90, call_OutputTokens = 9, call_Cost = 4\<rparr>,
      \<lparr>call_Served = ''local'', call_InputTokens = 30, call_OutputTokens = 1, call_Cost = 0\<rparr>]"

theorem spend_split_witness:
  "spent_in64 zero_spent \<and> sp_ModelCalls (foldl AddCall zero_spent sample_calls) = 3 \<and>
   sp_Tokens (foldl AddCall zero_spent sample_calls) = 12 \<and>
   sp_Cost (foldl AddCall zero_spent sample_calls) = 2"
proof -
  have ok: "spent_in64 zero_spent"
    by (simp add: spent_in64_def zero_spent_def in64_def MinInt64_def MaxInt64_def)
  show ?thesis
    using ok spend_split [OF ok, of sample_calls]
    by (simp add: zero_spent_def sample_calls_def metered_def call_tokens_def served_defs
        wrap64_def)
qed

text \<open>
  C17. A loop cannot outrun its cap on free answers. Once as many requests as the model-call cap
  were answered, whoever answered them, the check before the next call reports a breach.
\<close>

theorem model_call_cap_stops_loop:
  assumes "0 < cl_MaxModelCalls c" and "0 \<le> sp_ModelCalls s"
    and "cl_MaxModelCalls c \<le> sp_ModelCalls s + int (length cs)"
    and "sp_ModelCalls s + int (length cs) \<le> MaxInt64"
  shows "CheckCeilings c (foldl AddCall s cs) estimated \<noteq> None"
proof -
  have "in64 (sp_ModelCalls s)" and sum: "in64 (sp_ModelCalls s + int (length cs))"
    using assms by (simp_all add: in64_nonneg_le)
  then have "sp_ModelCalls (foldl AddCall s cs) = sp_ModelCalls s + int (length cs)"
    using wrap64_id [OF sum] by (simp add: foldl_ModelCalls)
  then show ?thesis using assms(1,3) by (auto simp: CheckCeilings_None_iff)
qed

definition sample_ceilings :: Ceilings where
  "sample_ceilings = \<lparr>cl_TokenBudget = 0, cl_CostCeiling = 0, cl_WallClockMs = 0,
     cl_MaxRetries = 0, cl_MaxModelCalls = 3, cl_MaxEvents = 0\<rparr>"

theorem model_call_cap_stops_loop_witness:
  "CheckCeilings sample_ceilings (foldl AddCall zero_spent sample_calls) 0 \<noteq> None"
  by (rule model_call_cap_stops_loop)
    (simp_all add: sample_ceilings_def zero_spent_def sample_calls_def MaxInt64_def)

text \<open>
  Free answers never trip a dollar ceiling: whether the token budget or the cost ceiling
  stops a run is the same before and after any sequence of unmetered answers.
\<close>

theorem free_answers_keep_dollar_verdict:
  assumes "spent_in64 s" and "\<forall>c \<in> set cs. \<not> metered c"
  shows "dollar_breach (CheckCeilings cl (foldl AddCall s cs) e)
    \<longleftrightarrow> dollar_breach (CheckCeilings cl s e)"
proof -
  have none: "filter metered cs = []" using assms(2) by (simp add: filter_empty_conv)
  have "sp_Tokens (foldl AddCall s cs) = sp_Tokens s"
    using foldl_Tokens [OF assms(1), of cs] assms(1) none
    by (simp add: wrap64_id spent_in64_def)
  moreover have "sp_Cost (foldl AddCall s cs) = sp_Cost s"
    using foldl_Cost [of s cs] none by simp
  ultimately show ?thesis by (simp add: dollar_breach_iff)
qed

theorem free_answers_keep_dollar_verdict_witness:
  "\<not> dollar_breach (CheckCeilings (sample_ceilings\<lparr>cl_CostCeiling := 1\<rparr>)
      (foldl AddCall zero_spent (tl sample_calls)) 5)"
proof -
  have ok: "spent_in64 zero_spent"
    by (simp add: spent_in64_def zero_spent_def in64_def MinInt64_def MaxInt64_def)
  have free: "\<forall>c \<in> set (tl sample_calls). \<not> metered c"
    by (simp add: sample_calls_def metered_def served_defs)
  show ?thesis
    using free_answers_keep_dollar_verdict [OF ok free, of "sample_ceilings\<lparr>cl_CostCeiling := 1\<rparr>" 5]
    by (simp add: dollar_breach_iff sample_ceilings_def zero_spent_def)
qed

text \<open>
  An estimate only tightens. A run its declared ceilings would stop is still stopped under the
  ceilings its workload class imposes, and where no declared limit is negative the class always
  leaves a positive wall clock, call cap and retry cap no larger than the class's own.
\<close>

theorem workload_never_relaxes:
  "(CheckCeilings c s e \<noteq> None \<longrightarrow>
      CheckCeilings (EffectiveWorkloadCeilings c w) s e \<noteq> None) \<and>
   (\<forall>wall calls retries. workload_limits w = Some (wall, calls, retries) \<and>
      0 \<le> cl_WallClockMs c \<and> 0 \<le> cl_MaxModelCalls c \<and> 0 \<le> cl_MaxRetries c \<longrightarrow>
      cl_WallClockMs (EffectiveWorkloadCeilings c w) \<in> {0 <.. wall} \<and>
      cl_MaxModelCalls (EffectiveWorkloadCeilings c w) \<in> {0 <.. calls} \<and>
      cl_MaxRetries (EffectiveWorkloadCeilings c w) \<in> {0 <.. retries})"
proof (cases "workload_limits w")
  case None
  then show ?thesis by (simp add: EffectiveWorkloadCeilings_def)
next
  case (Some lims)
  obtain wall calls retries where L: "lims = (wall, calls, retries)"
    by (cases lims) auto
  note pos = workload_limits_pos [OF Some [unfolded L]]
  note eff = Effective_fields [OF Some [unfolded L], of c]
  have "CheckCeilings c s e \<noteq> None \<Longrightarrow> CheckCeilings (EffectiveWorkloadCeilings c w) s e \<noteq> None"
    using pos tighten_le tighten_pos unfolding eff CheckCeilings_None_iff
    by simp (meson order_trans)
  moreover have "0 \<le> cl_WallClockMs c \<Longrightarrow> 0 \<le> cl_MaxModelCalls c \<Longrightarrow> 0 \<le> cl_MaxRetries c \<Longrightarrow>
      cl_WallClockMs (EffectiveWorkloadCeilings c w) \<in> {0 <.. wall} \<and>
      cl_MaxModelCalls (EffectiveWorkloadCeilings c w) \<in> {0 <.. calls} \<and>
      cl_MaxRetries (EffectiveWorkloadCeilings c w) \<in> {0 <.. retries}"
    using pos tighten_bounds unfolding eff by simp
  ultimately show ?thesis using Some L by simp
qed

theorem workload_never_relaxes_witness:
  "CheckCeilings (EffectiveWorkloadCeilings sample_ceilings ''project'')
     (zero_spent\<lparr>sp_ModelCalls := 3\<rparr>) 0 \<noteq> None \<and>
   cl_MaxModelCalls (EffectiveWorkloadCeilings sample_ceilings ''project'') \<le> 96"
proof -
  have stop: "CheckCeilings sample_ceilings (zero_spent\<lparr>sp_ModelCalls := 3\<rparr>) 0 \<noteq> None"
    by (simp add: CheckCeilings_None_iff sample_ceilings_def zero_spent_def)
  have "0 \<le> cl_WallClockMs sample_ceilings \<and> 0 \<le> cl_MaxModelCalls sample_ceilings \<and>
      0 \<le> cl_MaxRetries sample_ceilings \<and>
      workload_limits ''project'' = Some (7200000, 96, 2)"
    by (simp add: sample_ceilings_def workload_limits_def)
  then show ?thesis
    using stop workload_never_relaxes
      [of sample_ceilings "zero_spent\<lparr>sp_ModelCalls := 3\<rparr>" 0 "''project''"]
    by (simp only: greaterThanAtMost_iff) blast
qed

text \<open>
  The deadline arithmetic does not overflow: a run with a positive wall-clock budget gets an
  instant exactly that many milliseconds after its start, or a refusal because it has no start or
  the budget does not fit a duration; and it is refused for no other reason.
\<close>

theorem RunDeadline_exact:
  assumes "0 < ms"
  shows "RunDeadline start ms = Inr d \<longleftrightarrow>
    start \<noteq> 0 \<and> in64 (ms * 1000000) \<and> d = start + ms * 1000000"
proof -
  have fits: "ms \<le> MaxInt64 div Millisecond \<longleftrightarrow> in64 (ms * 1000000)"
    using assms unfolding in64_def MinInt64_def MaxInt64_def Millisecond_def
    by simp linarith
  show ?thesis
  proof (cases "in64 (ms * 1000000)")
    case True
    then have "wrap64 (ms * Millisecond) = ms * 1000000"
      by (simp add: Millisecond_def wrap64_id)
    then show ?thesis using assms fits True
      by (auto simp: RunDeadline_def IsZero_def)
  next
    case False
    then show ?thesis using assms fits by (simp add: RunDeadline_def)
  qed
qed

theorem RunDeadline_exact_witness:
  "(0::int) < 1500 \<and> RunDeadline 42 1500 = Inr 1500000042 \<and>
   (\<forall>d. RunDeadline 42 9223372036855 \<noteq> Inr d)"
  using RunDeadline_exact [of 1500 42 1500000042] RunDeadline_exact [of 9223372036855 42]
  by (simp add: in64_def MinInt64_def MaxInt64_def)

end
