(* ===== verification/Ladder.thy ===== *)
theory Ladder
  imports Prelude
begin

text \<open>
  The certification ladder of a learned procedure (\<^verbatim>\<open>component/work/ladder.go\<close>) and the write
  its caller makes of a transition (\<^verbatim>\<open>advanceFrom\<close> of
  \<^verbatim>\<open>integrations/procedure/replay.go\<close>). A rung that is none of the six the enum declares is
  \<open>RungOther\<close>; a reason sentence is a constructor carrying the arguments of its format. SHA-256
  is a parameter \<open>sha\<close>, the hex digest of a byte string; no theorem assumes anything of it.
\<close>

section \<open>Rungs, policy, state and events\<close>

datatype Rung =
    RungNone | RungCandidate | RungShadow | RungCanary | RungTrusted | RungRetired
  | RungOther string

definition ParseRung :: "string \<Rightarrow> Rung \<times> bool" where
  "ParseRung s =
     (if s = '''' then (RungNone, True)
      else if s = ''candidate'' then (RungCandidate, True)
      else if s = ''shadow'' then (RungShadow, True)
      else if s = ''canary'' then (RungCanary, True)
      else if s = ''trusted'' then (RungTrusted, True)
      else if s = ''retired'' then (RungRetired, True)
      else (RungNone, False))"

fun onLadder :: "Rung \<Rightarrow> bool" where
  "onLadder RungCandidate = True"
| "onLadder RungShadow = True"
| "onLadder RungCanary = True"
| "onLadder RungTrusted = True"
| "onLadder RungRetired = True"
| "onLadder _ = False"

record LadderPolicy =
  lp_ShadowMatches :: int
  lp_DistinctBindings :: int
  lp_CanaryMatches :: int
  lp_FailuresToDemote :: int
  lp_InsufficientToDemote :: int
  lp_RetireAfterDays :: int

definition DefaultLadderPolicy :: LadderPolicy where
  "DefaultLadderPolicy =
     \<lparr>lp_ShadowMatches = 5, lp_DistinctBindings = 2, lp_CanaryMatches = 5,
      lp_FailuresToDemote = 2, lp_InsufficientToDemote = 1, lp_RetireAfterDays = 30\<rparr>"

definition Normalize :: "LadderPolicy \<Rightarrow> LadderPolicy" where
  "Normalize p =
     (let d = DefaultLadderPolicy;
          p = (if lp_ShadowMatches p \<le> 0
               then p\<lparr>lp_ShadowMatches := lp_ShadowMatches d\<rparr> else p);
          p = (if lp_DistinctBindings p \<le> 0
               then p\<lparr>lp_DistinctBindings := lp_DistinctBindings d\<rparr> else p);
          p = (if lp_CanaryMatches p \<le> 0
               then p\<lparr>lp_CanaryMatches := lp_CanaryMatches d\<rparr> else p);
          p = (if lp_FailuresToDemote p \<le> 0
               then p\<lparr>lp_FailuresToDemote := lp_FailuresToDemote d\<rparr> else p);
          p = (if lp_InsufficientToDemote p \<le> 0
               then p\<lparr>lp_InsufficientToDemote := lp_InsufficientToDemote d\<rparr> else p);
          p = (if lp_RetireAfterDays p \<le> 0
               then p\<lparr>lp_RetireAfterDays := lp_RetireAfterDays d\<rparr> else p)
      in p)"

definition minBindingsKept :: int where "minBindingsKept = 8"

record LadderState =
  ls_Rung :: Rung
  ls_ShadowMatches :: int
  ls_CanaryMatches :: int
  ls_DistinctBindings :: "string \<rightharpoonup> string list"
  ls_Failures :: int
  ls_Insufficient :: int
  ls_PromotionApprovalId :: string
  ls_LastReplayAt :: instant

datatype LadderEventKind =
    EventShadowCompared | EventPromotionDecided | EventReplayed | EventStartRefused | EventSweep
  | EventOther string

record LadderEvent =
  ev_Kind :: LadderEventKind
  ev_At :: instant
  ev_Match :: bool
  ev_Approved :: bool
  ev_Bindings :: "string \<rightharpoonup> string"
  ev_FreeParameters :: "string list"
  ev_Insufficient :: bool
  ev_LastUsedAt :: instant

datatype ladder_reason =
    NoReason
  | RetiredIsTerminal
  | NotARung Rung
  | NotALadderEvent string
  | OnlyShadowIsCompared
  | DifferedFromTheApp
  | MatchedProposalWaiting int
  | MatchedOf int int
  | StillNeedsBindings int "string list" int
  | ProposedNoParameter int
  | ProposedAcross int int
  | OnlyShadowIsPromoted Rung
  | NoPromotionOpen
  | PersonApproved
  | PersonDeclined
  | OnlyServingReplays
  | ReplayedCleanly
  | TrustedAfter int
  | CleanOf int int
  | InsufficientDemotion int
  | FailedInARowLastInsufficient int
  | FailedInARow int
  | DivergedAlthoughHeld int int int int
  | ReplayFailed int int
  | OnlyServingStarts
  | StartsRefusedDemotion int
  | StartRefused int int
  | SweepInsufficient int int
  | SweepFailures int int
  | UnusedFor int int
  | AlsoUnusedFor ladder_reason int int
  | SweepFoundNothing

record Transition =
  tr_From :: Rung
  tr_To :: Rung
  tr_State :: LadderState
  tr_Propose :: bool
  tr_Demoted :: bool
  tr_Retired :: bool
  tr_Reason :: ladder_reason

section \<open>The handlers\<close>

definition BindingDigest :: "(string \<Rightarrow> string) \<Rightarrow> string \<Rightarrow> string" where
  "BindingDigest sha value = ''sha256:'' @ sha value"

definition kept_bindings :: "(string \<rightharpoonup> string list) \<Rightarrow> string \<Rightarrow> string list" where
  "kept_bindings db i = (case db i of None \<Rightarrow> [] | Some ds \<Rightarrow> ds)"

definition demote :: "Transition \<Rightarrow> ladder_reason \<Rightarrow> Transition" where
  "demote t reason =
     t\<lparr>tr_To := RungShadow, tr_Demoted := True,
       tr_State := (tr_State t)\<lparr>ls_ShadowMatches := 0, ls_CanaryMatches := 0,
         ls_DistinctBindings := Map.empty, ls_Failures := 0, ls_Insufficient := 0,
         ls_PromotionApprovalId := ''''\<rparr>,
       tr_Reason := reason\<rparr>"

text \<open>The two loops of \<^verbatim>\<open>advanceShadowCompared\<close> over the free parameters.\<close>

definition recordBinding ::
  "(string \<Rightarrow> string) \<Rightarrow> (string \<rightharpoonup> string) \<Rightarrow> int \<Rightarrow> (string \<rightharpoonup> string list) \<Rightarrow> string
    \<Rightarrow> (string \<rightharpoonup> string list)" where
  "recordBinding sha bindings cap db i =
     (case bindings i of
        None \<Rightarrow> db
      | Some value \<Rightarrow>
          if i = '''' then db
          else (let digest = BindingDigest sha value; kept = kept_bindings db i
                in if digest \<in> set kept \<or> int (length kept) \<ge> cap then db
                   else db(i \<mapsto> kept @ [digest])))"

definition countBindings ::
  "(string \<rightharpoonup> string list) \<Rightarrow> int \<Rightarrow> string list \<times> int \<Rightarrow> string \<Rightarrow> string list \<times> int" where
  "countBindings db k acc i =
     (case acc of (short, fewest) \<Rightarrow>
        if i = '''' then (short, fewest)
        else (let n = int (length (kept_bindings db i))
              in (if n < k \<and> i \<notin> set short then short @ [i] else short,
                  if fewest < 0 \<or> n < fewest then n else fewest)))"

definition advanceShadowCompared ::
  "(string \<Rightarrow> string) \<Rightarrow> Transition \<Rightarrow> LadderEvent \<Rightarrow> LadderPolicy \<Rightarrow> Transition" where
  "advanceShadowCompared sha t e p =
     (if tr_From t \<noteq> RungShadow then t\<lparr>tr_Reason := OnlyShadowIsCompared\<rparr>
      else
        let st = (tr_State t)\<lparr>ls_LastReplayAt := ev_At e\<rparr>
        in if \<not> ev_Match e
           then t\<lparr>tr_State := st\<lparr>ls_ShadowMatches := 0, ls_DistinctBindings := Map.empty\<rparr>,
                  tr_Reason := DifferedFromTheApp\<rparr>
           else
             let cap = max (lp_DistinctBindings p) minBindingsKept;
                 st = st\<lparr>ls_ShadowMatches := ls_ShadowMatches st + 1,
                         ls_DistinctBindings :=
                           foldl (recordBinding sha (ev_Bindings e) cap)
                             (ls_DistinctBindings st) (ev_FreeParameters e)\<rparr>;
                 t = t\<lparr>tr_State := st\<rparr>;
                 (short, fewest) =
                   foldl (countBindings (ls_DistinctBindings st) (lp_DistinctBindings p))
                     ([], -1) (ev_FreeParameters e)
             in if ls_PromotionApprovalId st \<noteq> ''''
                  then t\<lparr>tr_Reason := MatchedProposalWaiting (ls_ShadowMatches st)\<rparr>
                else if ls_ShadowMatches st < lp_ShadowMatches p
                  then t\<lparr>tr_Reason := MatchedOf (ls_ShadowMatches st) (lp_ShadowMatches p)\<rparr>
                else if short \<noteq> []
                  then t\<lparr>tr_Reason := StillNeedsBindings (ls_ShadowMatches st) short
                           (lp_DistinctBindings p)\<rparr>
                else if fewest < 0
                  then t\<lparr>tr_Propose := True, tr_Reason := ProposedNoParameter (ls_ShadowMatches st)\<rparr>
                else t\<lparr>tr_Propose := True,
                       tr_Reason := ProposedAcross (ls_ShadowMatches st) fewest\<rparr>)"

definition advancePromotionDecided :: "Transition \<Rightarrow> LadderEvent \<Rightarrow> Transition" where
  "advancePromotionDecided t e =
     (if tr_From t \<noteq> RungShadow then t\<lparr>tr_Reason := OnlyShadowIsPromoted (tr_From t)\<rparr>
      else if ls_PromotionApprovalId (tr_State t) = '''' then t\<lparr>tr_Reason := NoPromotionOpen\<rparr>
      else
        let st = (tr_State t)\<lparr>ls_PromotionApprovalId := ''''\<rparr>
        in if ev_Approved e
           then t\<lparr>tr_To := RungCanary,
                  tr_State := st\<lparr>ls_CanaryMatches := 0, ls_Failures := 0, ls_Insufficient := 0\<rparr>,
                  tr_Reason := PersonApproved\<rparr>
           else t\<lparr>tr_State := st\<lparr>ls_ShadowMatches := 0, ls_DistinctBindings := Map.empty\<rparr>,
                  tr_Reason := PersonDeclined\<rparr>)"

definition advanceReplayed :: "Transition \<Rightarrow> LadderEvent \<Rightarrow> LadderPolicy \<Rightarrow> Transition" where
  "advanceReplayed t e p =
     (if tr_From t \<noteq> RungCanary \<and> tr_From t \<noteq> RungTrusted
      then t\<lparr>tr_Reason := OnlyServingReplays\<rparr>
      else
        let st = (tr_State t)\<lparr>ls_LastReplayAt := ev_At e\<rparr>
        in if ev_Match e then
             let st = st\<lparr>ls_Failures := 0, ls_Insufficient := 0\<rparr>
             in if tr_From t = RungTrusted
                then t\<lparr>tr_State := st, tr_Reason := ReplayedCleanly\<rparr>
                else
                  let n = ls_CanaryMatches st + 1
                  in if n \<ge> lp_CanaryMatches p
                     then t\<lparr>tr_To := RungTrusted, tr_State := st\<lparr>ls_CanaryMatches := 0\<rparr>,
                            tr_Reason := TrustedAfter n\<rparr>
                     else t\<lparr>tr_State := st\<lparr>ls_CanaryMatches := n\<rparr>,
                            tr_Reason := CleanOf n (lp_CanaryMatches p)\<rparr>
           else
             let st = st\<lparr>ls_CanaryMatches := 0, ls_Failures := ls_Failures st + 1\<rparr>;
                 st = (if ev_Insufficient e
                       then st\<lparr>ls_Insufficient := ls_Insufficient st + 1\<rparr> else st);
                 t = t\<lparr>tr_State := st\<rparr>
             in if ev_Insufficient e \<and> ls_Insufficient st \<ge> lp_InsufficientToDemote p
                  then demote t (InsufficientDemotion (ls_Insufficient st))
                else if ev_Insufficient e \<and> ls_Failures st \<ge> lp_FailuresToDemote p
                  then demote t (FailedInARowLastInsufficient (ls_Failures st))
                else if ls_Failures st \<ge> lp_FailuresToDemote p
                  then demote t (FailedInARow (ls_Failures st))
                else if ev_Insufficient e
                  then t\<lparr>tr_Reason := DivergedAlthoughHeld (ls_Insufficient st)
                           (lp_InsufficientToDemote p) (ls_Failures st) (lp_FailuresToDemote p)\<rparr>
                else t\<lparr>tr_Reason := ReplayFailed (ls_Failures st) (lp_FailuresToDemote p)\<rparr>)"

definition advanceStartRefused :: "Transition \<Rightarrow> LadderPolicy \<Rightarrow> Transition" where
  "advanceStartRefused t p =
     (if tr_From t \<noteq> RungCanary \<and> tr_From t \<noteq> RungTrusted
      then t\<lparr>tr_Reason := OnlyServingStarts\<rparr>
      else
        let st = tr_State t;
            st = st\<lparr>ls_CanaryMatches := 0, ls_Failures := ls_Failures st + 1\<rparr>;
            t = t\<lparr>tr_State := st\<rparr>
        in if ls_Failures st \<ge> lp_FailuresToDemote p
           then demote t (StartsRefusedDemotion (ls_Failures st))
           else t\<lparr>tr_Reason := StartRefused (ls_Failures st) (lp_FailuresToDemote p)\<rparr>)"

text \<open>
  The sweep compares the idle time with the window in hours as floating-point numbers; here the
  comparison is of the exact nanoseconds.
\<close>

definition sweepDemotes :: "Transition \<Rightarrow> LadderPolicy \<Rightarrow> Transition" where
  "sweepDemotes t p =
     (let st = tr_State t
      in if tr_From t = RungCanary \<or> tr_From t = RungTrusted
         then if ls_Insufficient st \<ge> lp_InsufficientToDemote p
                then demote t (SweepInsufficient (lp_InsufficientToDemote p) (ls_Insufficient st))
              else if ls_Failures st \<ge> lp_FailuresToDemote p
                then demote t (SweepFailures (lp_FailuresToDemote p) (ls_Failures st))
              else t
         else t)"

definition sweepRetires :: "Transition \<Rightarrow> LadderEvent \<Rightarrow> LadderPolicy \<Rightarrow> Transition" where
  "sweepRetires t e p =
     (if \<not> IsZero (ev_LastUsedAt e) then
        let idle = TimeSub (ev_At e) (ev_LastUsedAt e)
        in if idle > lp_RetireAfterDays p * 24 * Hour
           then let days = idle div (24 * Hour); window = lp_RetireAfterDays p
                in t\<lparr>tr_To := RungRetired, tr_Retired := True,
                     tr_State := (tr_State t)\<lparr>ls_PromotionApprovalId := ''''\<rparr>,
                     tr_Reason := (if tr_Demoted t then AlsoUnusedFor (tr_Reason t) days window
                                   else UnusedFor days window)\<rparr>
           else t
      else t)"

definition advanceSweep :: "Transition \<Rightarrow> LadderEvent \<Rightarrow> LadderPolicy \<Rightarrow> Transition" where
  "advanceSweep t e p =
     (let t = sweepRetires (sweepDemotes t p) e p
      in if \<not> tr_Demoted t \<and> \<not> tr_Retired t then t\<lparr>tr_Reason := SweepFoundNothing\<rparr> else t)"

definition startTransition :: "LadderState \<Rightarrow> Transition" where
  "startTransition s =
     \<lparr>tr_From = ls_Rung s, tr_To = ls_Rung s, tr_State = s, tr_Propose = False,
      tr_Demoted = False, tr_Retired = False, tr_Reason = NoReason\<rparr>"

definition Advance ::
  "(string \<Rightarrow> string) \<Rightarrow> LadderState \<Rightarrow> LadderEvent \<Rightarrow> LadderPolicy \<Rightarrow> Transition" where
  "Advance sha s e p0 =
     (let p = Normalize p0;
          t = startTransition s;
          t = (if ls_Rung s = RungRetired then t\<lparr>tr_Reason := RetiredIsTerminal\<rparr>
               else if \<not> onLadder (ls_Rung s) then t\<lparr>tr_Reason := NotARung (ls_Rung s)\<rparr>
               else (case ev_Kind e of
                       EventShadowCompared \<Rightarrow> advanceShadowCompared sha t e p
                     | EventPromotionDecided \<Rightarrow> advancePromotionDecided t e
                     | EventReplayed \<Rightarrow> advanceReplayed t e p
                     | EventStartRefused \<Rightarrow> advanceStartRefused t p
                     | EventSweep \<Rightarrow> advanceSweep t e p
                     | EventOther k \<Rightarrow> t\<lparr>tr_Reason := NotALadderEvent k\<rparr>))
      in t\<lparr>tr_State := (tr_State t)\<lparr>ls_Rung := tr_To t\<rparr>\<rparr>)"

text \<open>
  The caller writes what comes back, with the id of the approval it raised when the transition
  proposes a promotion; \<open>raised\<close> is \<open>None\<close> when raising it failed, and \<open>written\<close> is false when
  the write of the row failed, which leaves the row as it was. The source skips the write of a
  state that equals the stored one. The reliability it also records is \<open>Reinforce\<close> of the theory
  Feedback.
\<close>

definition advanceFrom ::
  "(string \<Rightarrow> string) \<Rightarrow> LadderPolicy \<Rightarrow> LadderState \<Rightarrow> LadderEvent \<Rightarrow> string option \<Rightarrow> bool \<Rightarrow> LadderState"
where
  "advanceFrom sha p before ev raised written =
     (let t = Advance sha before ev p;
          st = (if tr_Propose t
                then (case raised of None \<Rightarrow> tr_State t
                      | Some approvalId \<Rightarrow> (tr_State t)\<lparr>ls_PromotionApprovalId := approvalId\<rparr>)
                else tr_State t)
      in if written then st else before)"

section \<open>Lemmas\<close>

lemmas handler_defs =
  advanceShadowCompared_def advancePromotionDecided_def advanceReplayed_def
  advanceStartRefused_def advanceSweep_def sweepDemotes_def sweepRetires_def demote_def

lemma startTransition_simps [simp]:
  "tr_From (startTransition s) = ls_Rung s" "tr_To (startTransition s) = ls_Rung s"
  "tr_State (startTransition s) = s" "tr_Propose (startTransition s) = False"
  "tr_Demoted (startTransition s) = False" "tr_Retired (startTransition s) = False"
  by (simp_all add: startTransition_def)

lemma Normalize_pos:
  "0 < lp_ShadowMatches (Normalize p)" "0 < lp_DistinctBindings (Normalize p)"
  "0 < lp_CanaryMatches (Normalize p)" "0 < lp_FailuresToDemote (Normalize p)"
  "0 < lp_InsufficientToDemote (Normalize p)" "0 < lp_RetireAfterDays (Normalize p)"
  by (simp_all add: Normalize_def DefaultLadderPolicy_def Let_def)

lemma Normalize_idem [simp]: "Normalize (Normalize p) = Normalize p"
  using Normalize_pos [of p] by (subst Normalize_def) (simp add: Let_def)

text \<open>An event handled from a rung of the ladder that is not the terminal one.\<close>

lemma Advance_handled:
  assumes "onLadder (ls_Rung s)" "ls_Rung s \<noteq> RungRetired"
  shows "\<exists>t. Advance sha s e p = t\<lparr>tr_State := (tr_State t)\<lparr>ls_Rung := tr_To t\<rparr>\<rparr> \<and>
    t = (case ev_Kind e of
           EventShadowCompared \<Rightarrow> advanceShadowCompared sha (startTransition s) e (Normalize p)
         | EventPromotionDecided \<Rightarrow> advancePromotionDecided (startTransition s) e
         | EventReplayed \<Rightarrow> advanceReplayed (startTransition s) e (Normalize p)
         | EventStartRefused \<Rightarrow> advanceStartRefused (startTransition s) (Normalize p)
         | EventSweep \<Rightarrow> advanceSweep (startTransition s) e (Normalize p)
         | EventOther k \<Rightarrow> (startTransition s)\<lparr>tr_Reason := NotALadderEvent k\<rparr>)"
  using assms by (simp add: Advance_def Let_def)

lemma Advance_frozen:
  assumes "ls_Rung s = RungRetired \<or> \<not> onLadder (ls_Rung s)"
  shows "tr_State (Advance sha s e p) = s" "tr_To (Advance sha s e p) = ls_Rung s"
    "\<not> tr_Propose (Advance sha s e p)" "\<not> tr_Demoted (Advance sha s e p)"
    "\<not> tr_Retired (Advance sha s e p)"
  using assms by (auto simp: Advance_def Let_def)

lemma Advance_From [simp]: "tr_From (Advance sha s e p) = ls_Rung s"
  by (simp add: Advance_def Let_def handler_defs split: LadderEventKind.splits prod.splits)

lemma Advance_Rung [simp]: "ls_Rung (tr_State (Advance sha s e p)) = tr_To (Advance sha s e p)"
  by (simp add: Advance_def Let_def)

text \<open>Which event moves a procedure from which rung to which.\<close>

definition legal_move :: "LadderState \<Rightarrow> LadderEvent \<Rightarrow> LadderPolicy \<Rightarrow> Rung \<Rightarrow> bool" where
  "legal_move s e p to \<longleftrightarrow>
     (ls_Rung s = RungShadow \<and> to = RungCanary \<and> ev_Kind e = EventPromotionDecided \<and>
        ev_Approved e \<and> ls_PromotionApprovalId s \<noteq> '''') \<or>
     (ls_Rung s = RungCanary \<and> to = RungTrusted \<and> ev_Kind e = EventReplayed \<and> ev_Match e \<and>
        ls_CanaryMatches s + 1 \<ge> lp_CanaryMatches p) \<or>
     (ls_Rung s \<in> {RungCanary, RungTrusted} \<and> to = RungShadow \<and>
        (ev_Kind e = EventReplayed \<and> \<not> ev_Match e \<or> ev_Kind e \<in> {EventStartRefused, EventSweep})) \<or>
     (onLadder (ls_Rung s) \<and> to = RungRetired \<and> ev_Kind e = EventSweep \<and>
        ev_LastUsedAt e \<noteq> 0 \<and>
        TimeSub (ev_At e) (ev_LastUsedAt e) > lp_RetireAfterDays p * 24 * Hour)"

lemma Advance_To_cases:
  "tr_To (Advance sha s e p) = ls_Rung s \<or> legal_move s e (Normalize p) (tr_To (Advance sha s e p))"
proof (cases "onLadder (ls_Rung s) \<and> ls_Rung s \<noteq> RungRetired")
  case False
  then show ?thesis using Advance_frozen(2) by blast
next
  case True
  then obtain t where A: "tr_To (Advance sha s e p) = tr_To t"
    and T: "t = (case ev_Kind e of
           EventShadowCompared \<Rightarrow> advanceShadowCompared sha (startTransition s) e (Normalize p)
         | EventPromotionDecided \<Rightarrow> advancePromotionDecided (startTransition s) e
         | EventReplayed \<Rightarrow> advanceReplayed (startTransition s) e (Normalize p)
         | EventStartRefused \<Rightarrow> advanceStartRefused (startTransition s) (Normalize p)
         | EventSweep \<Rightarrow> advanceSweep (startTransition s) e (Normalize p)
         | EventOther k \<Rightarrow> (startTransition s)\<lparr>tr_Reason := NotALadderEvent k\<rparr>)"
    using Advance_handled [of s sha e p] by auto
  show ?thesis
    unfolding A using T True
    by (cases "ev_Kind e")
      (auto simp: handler_defs Let_def legal_move_def IsZero_def split: if_splits prod.splits)
qed

lemma Propose_kind:
  "tr_Propose (Advance sha s e p) \<Longrightarrow>
   ls_Rung s = RungShadow \<and> ev_Kind e = EventShadowCompared \<and> ev_Match e"
  by (cases "ev_Kind e")
    (auto simp: Advance_def Let_def handler_defs split: if_splits prod.splits)

lemma Propose_state:
  assumes "tr_Propose (Advance sha s e p)"
  shows "lp_ShadowMatches (Normalize p) \<le> ls_ShadowMatches s + 1"
    and "ls_PromotionApprovalId s = ''''"
    and "fst (foldl (countBindings (ls_DistinctBindings (tr_State (Advance sha s e p)))
           (lp_DistinctBindings (Normalize p))) ([], -1) (ev_FreeParameters e)) = []"
    and "ls_ShadowMatches (tr_State (Advance sha s e p)) = ls_ShadowMatches s + 1"
    and "tr_To (Advance sha s e p) = RungShadow"
  using assms Propose_kind [OF assms]
  by (auto simp: Advance_def Let_def advanceShadowCompared_def split: if_splits prod.splits)

lemma countBindings_nonempty:
  "short \<noteq> [] \<Longrightarrow> fst (foldl (countBindings db k) (short, f) is) \<noteq> []"
proof (induction "is" arbitrary: short f)
  case Nil
  then show ?case by simp
next
  case (Cons i "is")
  obtain short' f' where C: "countBindings db k (short, f) i = (short', f')"
    by (cases "countBindings db k (short, f) i")
  have "short' \<noteq> []"
    using C Cons.prems by (auto simp: countBindings_def Let_def split: if_splits)
  then show ?case using Cons.IH C by simp
qed

lemma countBindings_enough:
  "fst (foldl (countBindings db k) ([], f) is) = [] \<Longrightarrow> i \<in> set is \<Longrightarrow> i \<noteq> '''' \<Longrightarrow>
   k \<le> int (length (kept_bindings db i))"
proof (induction "is" arbitrary: f)
  case Nil
  then show ?case by simp
next
  case (Cons j "is")
  obtain short' f' where C: "countBindings db k ([], f) j = (short', f')"
    by (cases "countBindings db k ([], f) j")
  have short': "short' = []"
    using Cons.prems(1) C countBindings_nonempty [of short' db k f' "is"] by auto
  show ?case
  proof (cases "i = j")
    case True
    then show ?thesis using C short' Cons.prems(3)
      by (auto simp: countBindings_def Let_def split: if_splits)
  next
    case False
    then show ?thesis using Cons C short' by simp
  qed
qed

subsection \<open>The invariant of a stored ladder state\<close>

definition ladder_inv :: "LadderState \<Rightarrow> bool" where
  "ladder_inv s \<longleftrightarrow>
     0 \<le> ls_ShadowMatches s \<and> 0 \<le> ls_CanaryMatches s \<and>
     0 \<le> ls_Insufficient s \<and> ls_Insufficient s \<le> ls_Failures s \<and>
     (ls_PromotionApprovalId s \<noteq> '''' \<longrightarrow> ls_Rung s = RungShadow) \<and>
     (ls_CanaryMatches s > 0 \<longrightarrow> ls_Rung s \<in> {RungCanary, RungRetired}) \<and>
     (ls_Failures s > 0 \<longrightarrow> ls_Rung s \<in> {RungCanary, RungTrusted, RungRetired}) \<and>
     (\<forall>i ds. ls_DistinctBindings s i = Some ds \<longrightarrow> distinct ds)"

lemma recordBinding_distinct:
  "\<forall>j ds. db j = Some ds \<longrightarrow> distinct ds \<Longrightarrow>
   recordBinding sha b cap db i j = Some ds \<Longrightarrow> distinct ds"
  by (auto simp: recordBinding_def kept_bindings_def Let_def split: option.splits if_splits)

lemma foldl_recordBinding_distinct:
  "\<forall>j ds. db j = Some ds \<longrightarrow> distinct ds \<Longrightarrow>
   \<forall>j ds. foldl (recordBinding sha b cap) db is j = Some ds \<longrightarrow> distinct ds"
  by (induction "is" arbitrary: db) (auto dest: recordBinding_distinct)

lemma handler_inv:
  assumes "ladder_inv s" "onLadder (ls_Rung s)" "ls_Rung s \<noteq> RungRetired"
  shows "ladder_inv (tr_State (Advance sha s e p))"
proof (cases "ev_Kind e")
  case EventShadowCompared
  then show ?thesis
    using assms foldl_recordBinding_distinct [of "ls_DistinctBindings s"]
    by (auto simp: Advance_def Let_def advanceShadowCompared_def ladder_inv_def
        split: if_splits prod.splits)
next
  case EventPromotionDecided
  then show ?thesis using assms
    by (auto simp: Advance_def Let_def advancePromotionDecided_def ladder_inv_def)
next
  case EventReplayed
  then show ?thesis using assms
    by (auto simp: Advance_def Let_def advanceReplayed_def demote_def ladder_inv_def)
next
  case EventStartRefused
  then show ?thesis using assms
    by (auto simp: Advance_def Let_def advanceStartRefused_def demote_def ladder_inv_def)
next
  case EventSweep
  then show ?thesis using assms
    by (auto simp: Advance_def Let_def advanceSweep_def sweepDemotes_def sweepRetires_def
        demote_def ladder_inv_def)
next
  case (EventOther k)
  then show ?thesis using assms by (auto simp: Advance_def Let_def ladder_inv_def)
qed

lemma Advance_inv: "ladder_inv s \<Longrightarrow> ladder_inv (tr_State (Advance sha s e p))"
  using handler_inv Advance_frozen(1) by metis

lemma ladder_inv_raise:
  "ladder_inv s \<Longrightarrow> ls_Rung s = RungShadow \<Longrightarrow> ladder_inv (s\<lparr>ls_PromotionApprovalId := a\<rparr>)"
  by (simp add: ladder_inv_def)

lemma advanceFrom_cases:
  obtains (unwritten) "\<not> written" "advanceFrom sha p s e raised written = s"
  | (plain) "written" "advanceFrom sha p s e raised written = tr_State (Advance sha s e p)"
  | (raised) a where "written" "tr_Propose (Advance sha s e p)"
      "advanceFrom sha p s e raised written = (tr_State (Advance sha s e p))\<lparr>ls_PromotionApprovalId := a\<rparr>"
  by (cases raised; cases written; cases "tr_Propose (Advance sha s e p)")
    (auto simp: advanceFrom_def Let_def)

lemma advanceFrom_inv: "ladder_inv s \<Longrightarrow> ladder_inv (advanceFrom sha p s e raised written)"
  by (cases rule: advanceFrom_cases [of written sha p s e raised])
    (auto intro: ladder_inv_raise simp: Advance_inv Propose_state(5))

lemma advanceFrom_unwritten [simp]: "advanceFrom sha p s e raised False = s"
  by (simp add: advanceFrom_def Let_def)

lemma advanceFrom_written [simp]:
  "ls_Rung (advanceFrom sha p s e raised True) = tr_To (Advance sha s e p)"
  "ls_CanaryMatches (advanceFrom sha p s e raised True) = ls_CanaryMatches (tr_State (Advance sha s e p))"
  "ls_ShadowMatches (advanceFrom sha p s e raised True) = ls_ShadowMatches (tr_State (Advance sha s e p))"
  by (cases rule: advanceFrom_cases [of True sha p s e raised]; simp)+

subsection \<open>Histories\<close>

text \<open>
  A history is the sequence of events applied to one procedure, each under the policy row of its
  moment and with its write succeeding or not. \<open>clean_streak\<close> counts the clean replays written
  since the last failed or refused one, and \<open>shadow_streak\<close> the matching comparisons written since
  the last mismatch.
\<close>

type_synonym ladder_entry = "LadderPolicy \<times> LadderEvent \<times> string option \<times> bool"

fun ladder_app :: "(string \<Rightarrow> string) \<Rightarrow> LadderState \<Rightarrow> ladder_entry \<Rightarrow> LadderState" where
  "ladder_app sha s (p, e, raised, written) = advanceFrom sha p s e raised written"

fun clean_step :: "int \<Rightarrow> ladder_entry \<Rightarrow> int" where
  "clean_step n (p, e, raised, written) =
    (if \<not> written then n
     else if ev_Kind e = EventReplayed then (if ev_Match e then n + 1 else 0)
     else if ev_Kind e = EventStartRefused then 0 else n)"

definition clean_streak :: "ladder_entry list \<Rightarrow> int" where
  "clean_streak es = foldl clean_step 0 es"

fun shadow_streak :: "(string \<Rightarrow> string) \<Rightarrow> LadderState \<Rightarrow> int \<Rightarrow> ladder_entry list \<Rightarrow> int" where
  "shadow_streak sha s n [] = n"
| "shadow_streak sha s n ((p, e, raised, written) # es) =
     shadow_streak sha (ladder_app sha s (p, e, raised, written))
       (if written \<and> ls_Rung s = RungShadow \<and> ev_Kind e = EventShadowCompared
        then (if ev_Match e then n + 1 else 0) else n) es"

fun human_approval :: "ladder_entry \<Rightarrow> bool" where
  "human_approval (p, e, raised, written) = (written \<and> ev_Kind e = EventPromotionDecided \<and> ev_Approved e)"

interpretation ladder: event_machine "ladder_app sha" ladder_inv for sha
  by unfold_locales (metis prod_cases4 ladder_app.simps advanceFrom_inv)

lemma CanaryMatches_step:
  "0 \<le> n \<Longrightarrow> ls_Rung s = RungCanary \<longrightarrow> ls_CanaryMatches s \<le> n \<Longrightarrow>
   (tr_To (Advance sha s e p) = RungCanary \<longrightarrow>
      ls_CanaryMatches (tr_State (Advance sha s e p)) \<le> clean_step n (p, e, raised, True)) \<and>
   0 \<le> clean_step n (p, e, raised, True)"
  by (cases "ev_Kind e")
    (auto simp: Advance_def Let_def handler_defs split: prod.splits)

lemma ShadowMatches_step:
  "0 \<le> n \<Longrightarrow> ls_ShadowMatches s \<le> n \<Longrightarrow>
   ls_ShadowMatches (tr_State (Advance sha s e p)) \<le>
     (if ls_Rung s = RungShadow \<and> ev_Kind e = EventShadowCompared
      then (if ev_Match e then n + 1 else 0) else n)"
  by (cases "ev_Kind e")
    (auto simp: Advance_def Let_def handler_defs split: prod.splits)

lemma CanaryMatches_le_streak:
  assumes "ls_Rung s0 \<noteq> RungCanary"
  shows "(ls_Rung (foldl (ladder_app sha) s0 es) = RungCanary \<longrightarrow>
      ls_CanaryMatches (foldl (ladder_app sha) s0 es) \<le> clean_streak es) \<and> 0 \<le> clean_streak es"
proof (induction es rule: rev_induct)
  case Nil
  then show ?case using assms by (simp add: clean_streak_def)
next
  case (snoc x es)
  obtain p e raised written where x: "x = (p, e, raised, written)" by (cases x) auto
  then show ?case
    using snoc CanaryMatches_step [of "clean_streak es" "foldl (ladder_app sha) s0 es" sha e p raised]
    by (simp add: clean_streak_def)
qed

lemma ShadowMatches_le_streak:
  "0 \<le> n \<Longrightarrow> ls_ShadowMatches s0 \<le> n \<Longrightarrow>
   ls_ShadowMatches (foldl (ladder_app sha) s0 es) \<le> shadow_streak sha s0 n es"
proof (induction es arbitrary: s0 n)
  case Nil
  then show ?case by simp
next
  case (Cons x es)
  obtain p e raised written where x: "x = (p, e, raised, written)" by (cases x) auto
  let ?n = "if written \<and> ls_Rung s0 = RungShadow \<and> ev_Kind e = EventShadowCompared
      then (if ev_Match e then n + 1 else 0) else n"
  have "ls_ShadowMatches (ladder_app sha s0 x) \<le> ?n"
    using ShadowMatches_step [OF Cons.prems, of sha e p] Cons.prems(2) x by (cases written) simp_all
  moreover have "0 \<le> ?n" using Cons.prems(1) by simp
  ultimately have "ls_ShadowMatches (foldl (ladder_app sha) (ladder_app sha s0 x) es)
      \<le> shadow_streak sha (ladder_app sha s0 x) ?n es"
    by (rule Cons.IH [rotated])
  then show ?case by (simp add: x)
qed

lemma serving_needs_approval:
  assumes "ls_Rung s0 \<in> {RungCandidate, RungShadow}"
  shows "ls_Rung (foldl (ladder_app sha) s0 es) \<in> {RungCanary, RungTrusted} \<Longrightarrow>
    \<exists>x \<in> set es. human_approval x"
proof (induction es rule: rev_induct)
  case Nil
  then show ?case using assms by auto
next
  case (snoc x es)
  let ?s = "foldl (ladder_app sha) s0 es"
  obtain p e raised written where x: "x = (p, e, raised, written)" by (cases x) auto
  show ?case
  proof (cases "ls_Rung ?s \<in> {RungCanary, RungTrusted}")
    case True
    then show ?thesis using snoc.IH by auto
  next
    case False
    then have "human_approval x"
      using Advance_To_cases [of sha ?s e p] snoc.prems
      by (cases written) (auto simp: legal_move_def x)
    then show ?thesis by simp
  qed
qed

text \<open>The step of a history that completed a procedure's run of clean replays.\<close>

definition earns_trust :: "ladder_entry list \<Rightarrow> bool" where
  "earns_trust es \<longleftrightarrow> (\<exists>us p e raised vs. es = us @ (p, e, raised, True) # vs \<and>
     ev_Kind e = EventReplayed \<and> ev_Match e \<and>
     lp_CanaryMatches (Normalize p) \<le> clean_streak (us @ [(p, e, raised, True)]))"

lemma earns_trust_snoc: "earns_trust es \<Longrightarrow> earns_trust (es @ [x])"
  unfolding earns_trust_def by (metis append.assoc append_Cons)

lemma trusted_needs_streak:
  assumes "ls_Rung s0 \<notin> {RungCanary, RungTrusted}"
  shows "ls_Rung (foldl (ladder_app sha) s0 es) = RungTrusted \<Longrightarrow> earns_trust es"
proof (induction es rule: rev_induct)
  case Nil
  then show ?case using assms by simp
next
  case (snoc x es)
  let ?s = "foldl (ladder_app sha) s0 es"
  obtain p e raised written where x: "x = (p, e, raised, written)" by (cases x) auto
  show ?case
  proof (cases "ls_Rung ?s = RungTrusted")
    case True
    then show ?thesis using snoc.IH earns_trust_snoc by blast
  next
    case False
    then have W: written using snoc.prems x by (cases written) simp_all
    then have M: "ev_Kind e = EventReplayed" "ev_Match e" "ls_Rung ?s = RungCanary"
      "lp_CanaryMatches (Normalize p) \<le> ls_CanaryMatches ?s + 1"
      using Advance_To_cases [of sha ?s e p] snoc.prems False
      by (auto simp: legal_move_def x)
    have "clean_streak (es @ [(p, e, raised, True)]) = clean_streak es + 1"
      using M by (simp add: clean_streak_def)
    moreover have "ls_CanaryMatches ?s \<le> clean_streak es"
      using CanaryMatches_le_streak [of s0 sha es] assms M by simp
    ultimately show ?thesis using M W x unfolding earns_trust_def
      by (intro exI [of _ es] exI [of _ p] exI [of _ e] exI [of _ raised] exI [of _ "[]"]) simp
  qed
qed

section \<open>Properties\<close>

text \<open>
  The ladder moves a procedure only along its own edges: up from shadow to canary on a
  person's approval of the open proposal, up from canary to trusted on a clean replay that
  completes the run of clean ones, down to shadow on a failed or refused replay or a sweep, and
  aside to retired by a sweep that found it unused for longer than the window. A retired
  procedure, or one on no rung, is left exactly as it was.
\<close>

theorem ladder_moves_legal:
  "(tr_To (Advance sha s e p) \<noteq> ls_Rung s \<longrightarrow>
      legal_move s e (Normalize p) (tr_To (Advance sha s e p))) \<and>
   (ls_Rung s = RungRetired \<or> \<not> onLadder (ls_Rung s) \<longrightarrow> tr_State (Advance sha s e p) = s)"
  using Advance_To_cases [of sha s e p] Advance_frozen(1) [of s sha e p] by blast

definition fresh_state :: LadderState where
  "fresh_state = \<lparr>ls_Rung = RungShadow, ls_ShadowMatches = 0, ls_CanaryMatches = 0,
     ls_DistinctBindings = Map.empty, ls_Failures = 0, ls_Insufficient = 0,
     ls_PromotionApprovalId = '''', ls_LastReplayAt = 0\<rparr>"

definition plain_event :: "LadderEventKind \<Rightarrow> LadderEvent" where
  "plain_event k = \<lparr>ev_Kind = k, ev_At = 1, ev_Match = True, ev_Approved = True,
     ev_Bindings = Map.empty, ev_FreeParameters = [], ev_Insufficient = False, ev_LastUsedAt = 0\<rparr>"

definition quick_policy :: LadderPolicy where
  "quick_policy = \<lparr>lp_ShadowMatches = 1, lp_DistinctBindings = 1, lp_CanaryMatches = 1,
     lp_FailuresToDemote = 2, lp_InsufficientToDemote = 1, lp_RetireAfterDays = 30\<rparr>"

lemmas sample_ladder_defs = fresh_state_def plain_event_def quick_policy_def

theorem ladder_moves_legal_witness:
  "tr_To (Advance rev (fresh_state\<lparr>ls_PromotionApprovalId := ''a''\<rparr>)
      (plain_event EventPromotionDecided) quick_policy) = RungCanary \<and>
   legal_move (fresh_state\<lparr>ls_PromotionApprovalId := ''a''\<rparr>) (plain_event EventPromotionDecided)
      (Normalize quick_policy) RungCanary"
proof -
  have "tr_To (Advance rev (fresh_state\<lparr>ls_PromotionApprovalId := ''a''\<rparr>)
      (plain_event EventPromotionDecided) quick_policy) = RungCanary"
    by (simp add: Advance_def Let_def advancePromotionDecided_def sample_ladder_defs)
  then show ?thesis
    using ladder_moves_legal [of rev "fresh_state\<lparr>ls_PromotionApprovalId := ''a''\<rparr>"
        "plain_event EventPromotionDecided" quick_policy]
    by (simp add: fresh_state_def)
qed

text \<open>
  C10. Trust is earned. From a candidate or a procedure in shadow, no sequence of events leads to
  a rung that serves without a person's approval among them; and none leads to trusted without a
  clean replay that completed at least as many clean replays in a row as the policy of that
  moment asks for.
\<close>

theorem trust_is_earned:
  assumes "ls_Rung s0 \<in> {RungCandidate, RungShadow}"
    and "ls_Rung (foldl (ladder_app sha) s0 es) \<in> {RungCanary, RungTrusted}"
  shows "(\<exists>x \<in> set es. human_approval x) \<and>
    (ls_Rung (foldl (ladder_app sha) s0 es) = RungTrusted \<longrightarrow> earns_trust es)"
  using serving_needs_approval [OF assms] trusted_needs_streak [of s0 sha es] assms(1)
  by auto

definition sample_history :: "ladder_entry list" where
  "sample_history =
     [(quick_policy, plain_event EventShadowCompared, Some ''a'', True),
      (quick_policy, plain_event EventPromotionDecided, None, True),
      (quick_policy, plain_event EventReplayed, None, True)]"

lemma sample_history_trusted: "ls_Rung (foldl (ladder_app rev) fresh_state sample_history) = RungTrusted"
  by (simp add: sample_history_def advanceFrom_def Advance_def Let_def
      handler_defs sample_ladder_defs Normalize_def)

theorem trust_is_earned_witness:
  "(\<exists>x \<in> set sample_history. human_approval x) \<and> earns_trust sample_history"
  using trust_is_earned [of fresh_state rev sample_history] sample_history_trusted
  by (simp add: fresh_state_def)

text \<open>
  C24. A promotion is proposed on evidence. When a transition asks for the one human approval, the
  procedure is in shadow with no proposal open, the comparisons made in shadow since the last one
  that differed are at least the policy's number, and every named free parameter has at least
  the policy's number of kept bindings, all different.
\<close>

theorem proposal_has_evidence:
  assumes "ladder_inv s0" and "ls_ShadowMatches s0 = 0" and "s = foldl (ladder_app sha) s0 es"
    and "tr_Propose (Advance sha s e p)"
  shows "ls_Rung s = RungShadow \<and> ls_PromotionApprovalId s = '''' \<and>
    lp_ShadowMatches (Normalize p) \<le> shadow_streak sha s0 0 (es @ [(p, e, raised, True)]) \<and>
    (\<forall>i \<in> set (ev_FreeParameters e). i \<noteq> '''' \<longrightarrow>
      (let ds = kept_bindings (ls_DistinctBindings (tr_State (Advance sha s e p))) i
       in distinct ds \<and> lp_DistinctBindings (Normalize p) \<le> int (length ds)))"
proof -
  have inv: "ladder_inv (tr_State (Advance sha s e p))"
    using ladder.foldl_inv [OF assms(1)] assms(3) by (simp add: Advance_inv)
  have "lp_ShadowMatches (Normalize p) \<le> shadow_streak sha s0 0 (es @ [(p, e, raised, True)])"
    using ShadowMatches_le_streak [of 0 s0 sha "es @ [(p, e, raised, True)]"] assms
      Propose_state(1,4) [OF assms(4)]
    by simp
  then show ?thesis
    using Propose_kind [OF assms(4)] Propose_state(2) [OF assms(4)] inv
      countBindings_enough [OF Propose_state(3) [OF assms(4)]]
    by (auto simp: Let_def ladder_inv_def kept_bindings_def split: option.splits)
qed

theorem proposal_has_evidence_witness:
  "tr_Propose (Advance rev fresh_state (plain_event EventShadowCompared) quick_policy) \<and>
   1 \<le> shadow_streak rev fresh_state 0 [(quick_policy, plain_event EventShadowCompared, None, True)]"
proof -
  have inv: "ladder_inv fresh_state" by (simp add: ladder_inv_def fresh_state_def)
  have P: "tr_Propose (Advance rev fresh_state (plain_event EventShadowCompared) quick_policy)"
    by (simp add: Advance_def Let_def handler_defs sample_ladder_defs Normalize_def)
  have one: "lp_ShadowMatches (Normalize quick_policy) = 1"
    by (simp add: Normalize_def quick_policy_def)
  have zero: "ls_ShadowMatches fresh_state = 0" by (simp add: fresh_state_def)
  have start: "fresh_state = foldl (ladder_app rev) fresh_state []" by simp
  have "lp_ShadowMatches (Normalize quick_policy)
      \<le> shadow_streak rev fresh_state 0 ([] @ [(quick_policy, plain_event EventShadowCompared, None, True)])"
    using proposal_has_evidence [OF inv zero start P, of None] by blast
  then show ?thesis using P one by (simp only: append_Nil simp_thms)
qed



text \<open>
  The stronger signal never demotes later. Whenever an ordinary failed replay would demote a
  procedure, the same replay failing although every precondition held demotes it too; and a
  demotion that does not also retire it leaves it in shadow with all its evidence wiped.
\<close>

theorem insufficient_demotes_no_later:
  "(\<not> ev_Match e \<and> ev_Kind e = EventReplayed \<and>
      tr_Demoted (Advance sha s (e\<lparr>ev_Insufficient := False\<rparr>) p) \<longrightarrow>
      tr_Demoted (Advance sha s (e\<lparr>ev_Insufficient := True\<rparr>) p)) \<and>
   (tr_Demoted (Advance sha s e p) \<and> \<not> tr_Retired (Advance sha s e p) \<longrightarrow>
      (let st = tr_State (Advance sha s e p)
       in ls_Rung st = RungShadow \<and> ls_ShadowMatches st = 0 \<and> ls_CanaryMatches st = 0 \<and>
          ls_Failures st = 0 \<and> ls_Insufficient st = 0 \<and> ls_DistinctBindings st = Map.empty \<and>
          ls_PromotionApprovalId st = ''''))"
  by (cases "ev_Kind e")
    (auto simp: Advance_def Let_def handler_defs split: if_splits prod.splits)

theorem insufficient_demotes_no_later_witness:
  "tr_Demoted (Advance rev (fresh_state\<lparr>ls_Rung := RungTrusted, ls_Failures := 1\<rparr>)
     ((plain_event EventReplayed)\<lparr>ev_Match := False, ev_Insufficient := True\<rparr>) quick_policy)"
proof -
  let ?s = "fresh_state\<lparr>ls_Rung := RungTrusted, ls_Failures := 1\<rparr>"
  let ?e = "(plain_event EventReplayed)\<lparr>ev_Match := False\<rparr>"
  have "tr_Demoted (Advance rev ?s (?e\<lparr>ev_Insufficient := False\<rparr>) quick_policy)"
    by (simp add: Advance_def Let_def handler_defs sample_ladder_defs Normalize_def)
  then show ?thesis
    using insufficient_demotes_no_later [of ?e rev ?s quick_policy]
    by (simp add: plain_event_def)
qed

end
