(* ===== verification/Serving.thy ===== *)
theory Serving
  imports Ladder
begin

text \<open>
  Which source answers a request (component/work/replay.go) and the gate a lifted procedure passes
  before it climbs the ladder (component/work/verdict.go). Sentences shown to a person are
  constructors that carry the values printed in them.
\<close>

section \<open>The serving decision\<close>

text \<open>The modes and the replay policy are the strings of the source; any other spelling serves live.\<close>

datatype ServeSource = ServeJournal | ServeLive | ServeConstruct

datatype serve_reason =
    NoServeReason
  | NoJournaledCall
  | CandidateNotCompared
  | ProcedureRetired
  | RungUnknown Rung

record ReplayContext =
  rc_Mode :: string
  rc_ReplayPolicy :: string
  rc_JournalHit :: bool
  rc_SameGoal :: bool
  rc_BeforeForkPoint :: bool
  rc_ConstructRung :: Rung

record ServeVerdict =
  sv_Source :: ServeSource
  sv_Diverged :: bool
  sv_Reason :: serve_reason
  sv_Shadow :: bool
  sv_Standby :: bool

definition serveFrom :: "ServeSource \<Rightarrow> ServeVerdict" where
  "serveFrom src = \<lparr>sv_Source = src, sv_Diverged = False, sv_Reason = NoServeReason,
     sv_Shadow = False, sv_Standby = False\<rparr>"

fun serveByRung :: "Rung \<Rightarrow> ServeVerdict" where
  "serveByRung RungTrusted = serveFrom ServeConstruct"
| "serveByRung RungCanary = (serveFrom ServeConstruct)\<lparr>sv_Standby := True\<rparr>"
| "serveByRung RungShadow = (serveFrom ServeLive)\<lparr>sv_Shadow := True\<rparr>"
| "serveByRung RungCandidate = (serveFrom ServeLive)\<lparr>sv_Reason := CandidateNotCompared\<rparr>"
| "serveByRung RungRetired = (serveFrom ServeLive)\<lparr>sv_Reason := ProcedureRetired\<rparr>"
| "serveByRung r = (serveFrom ServeLive)\<lparr>sv_Reason := RungUnknown r\<rparr>"

definition DecideServe :: "ReplayContext \<Rightarrow> ServeVerdict" where
  "DecideServe rc =
     (let hit = rc_JournalHit rc \<and> rc_SameGoal rc
      in if rc_Mode rc = ''replay'' then
           (if hit then serveFrom ServeJournal
            else if rc_ReplayPolicy rc = ''permissive'' then serveFrom ServeLive
            else (serveFrom ServeLive)\<lparr>sv_Diverged := True, sv_Reason := NoJournaledCall\<rparr>)
         else if rc_Mode rc = ''fork'' then
           (if hit \<and> rc_BeforeForkPoint rc then serveFrom ServeJournal else serveFrom ServeLive)
         else if rc_Mode rc = '''' \<or> rc_Mode rc = ''live'' then
           (if rc_ConstructRung rc \<noteq> RungNone then serveByRung (rc_ConstructRung rc)
            else serveFrom ServeLive)
         else serveFrom ServeLive)"

section \<open>Verdicts and the candidate gate\<close>

text \<open>A \<open>Verdict\<close> is its string; \<open>ParseVerdict\<close> reads any spelling of it.\<close>

type_synonym Verdict = string

definition VerdictUnseen :: Verdict where "VerdictUnseen = ''''"
definition VerdictLike :: Verdict where "VerdictLike = ''like''"
definition VerdictDislike :: Verdict where "VerdictDislike = ''dislike''"
definition VerdictNeutral :: Verdict where "VerdictNeutral = ''neutral''"

lemmas verdict_defs = VerdictUnseen_def VerdictLike_def VerdictDislike_def VerdictNeutral_def

definition ParseVerdict :: "string \<Rightarrow> Verdict" where
  "ParseVerdict s =
     (let w = ToLower (TrimSpace s)
      in if w = ''like'' \<or> w = ''liked'' then VerdictLike
         else if w = ''dislike'' \<or> w = ''disliked'' then VerdictDislike
         else if w = ''neutral'' then VerdictNeutral
         else VerdictUnseen)"

text \<open>The verdicts on every version of one step, oldest first.\<close>

type_synonym StepVersions = "Verdict list"

fun heldByDislike_from :: "bool \<Rightarrow> StepVersions \<Rightarrow> bool" where
  "heldByDislike_from held [] = held"
| "heldByDislike_from held (v # vs) =
     heldByDislike_from
       (if ParseVerdict v = VerdictDislike then True
        else if ParseVerdict v = VerdictLike \<or> ParseVerdict v = VerdictNeutral then False
        else held) vs"

definition heldByDislike :: "StepVersions \<Rightarrow> bool" where
  "heldByDislike vs = heldByDislike_from False vs"

record CandidateEvidence =
  ce_Uses :: int
  ce_UnexplainedHoles :: int
  ce_Instances :: "StepVersions list list"

datatype used_phrase = NeverUsed | UsedOnce | UsedTimes int

datatype gate_reason =
    TooFewUses used_phrase
  | HolesUnexplained int
  | StepDisliked int int
  | GatePassed int

definition usedPhrase :: "int \<Rightarrow> used_phrase" where
  "usedPhrase n = (if n = 0 then NeverUsed else if n = 1 then UsedOnce else UsedTimes n)"

text \<open>The inner and the outer loop over the instances; positions count from one, as printed.\<close>

fun firstHeldStep :: "int \<Rightarrow> StepVersions list \<Rightarrow> int option" where
  "firstHeldStep j [] = None"
| "firstHeldStep j (step # steps) = (if heldByDislike step then Some (j + 1) else firstHeldStep (j + 1) steps)"

fun firstHeld :: "int \<Rightarrow> StepVersions list list \<Rightarrow> (int \<times> int) option" where
  "firstHeld i [] = None"
| "firstHeld i (steps # rest) =
     (case firstHeldStep 0 steps of Some j \<Rightarrow> Some (i + 1, j) | None \<Rightarrow> firstHeld (i + 1) rest)"

definition CandidateGate :: "CandidateEvidence \<Rightarrow> bool \<times> gate_reason" where
  "CandidateGate e =
     (if ce_Uses e < 2 then (False, TooFewUses (usedPhrase (ce_Uses e)))
      else if ce_UnexplainedHoles e > 0 then (False, HolesUnexplained (ce_UnexplainedHoles e))
      else (case firstHeld 0 (ce_Instances e) of
              Some (i, j) \<Rightarrow> (False, StepDisliked i j)
            | None \<Rightarrow> (True, GatePassed (ce_Uses e))))"

definition EntryRung :: "CandidateEvidence \<Rightarrow> Rung \<times> gate_reason" where
  "EntryRung e = (let (ready, reason) = CandidateGate e
     in if ready then (RungShadow, reason) else (RungCandidate, reason))"

section \<open>Lemmas\<close>

lemma serveFrom_simps [simp]:
  "sv_Source (serveFrom s) = s" "sv_Diverged (serveFrom s) = False"
  "sv_Reason (serveFrom s) = NoServeReason" "sv_Shadow (serveFrom s) = False"
  "sv_Standby (serveFrom s) = False"
  by (simp_all add: serveFrom_def)

lemma serveByRung_Source [simp]:
  "sv_Source (serveByRung r) = (if r \<in> {RungCanary, RungTrusted} then ServeConstruct else ServeLive)"
  "sv_Diverged (serveByRung r) = False"
  "sv_Shadow (serveByRung r) = (r = RungShadow)"
  "sv_Standby (serveByRung r) = (r = RungCanary)"
  by (cases r; simp)+

text \<open>The last verdict a person gave; unseen versions have no vote.\<close>

definition newest_verdict :: "StepVersions \<Rightarrow> Verdict option" where
  "newest_verdict vs =
     (case filter (\<lambda>v. v \<noteq> VerdictUnseen) (map ParseVerdict vs) of [] \<Rightarrow> None | ws \<Rightarrow> Some (last ws))"

lemma ParseVerdict_range:
  "ParseVerdict v \<in> {VerdictUnseen, VerdictLike, VerdictDislike, VerdictNeutral}"
  by (simp add: ParseVerdict_def Let_def)

lemma heldByDislike_from_newest:
  "heldByDislike_from held vs =
     (case newest_verdict vs of None \<Rightarrow> held | Some v \<Rightarrow> v = VerdictDislike)"
proof (induction held vs rule: heldByDislike_from.induct)
  case (1 held)
  then show ?case by (simp add: newest_verdict_def)
next
  case (2 held v vs)
  then show ?case
    using ParseVerdict_range [of v]
    by (auto simp: newest_verdict_def verdict_defs split: list.splits)
qed

lemma heldByDislike_newest: "heldByDislike vs \<longleftrightarrow> newest_verdict vs = Some VerdictDislike"
  by (simp add: heldByDislike_def heldByDislike_from_newest split: option.splits)

lemma firstHeldStep_None: "firstHeldStep j steps = None \<longleftrightarrow> (\<forall>s \<in> set steps. \<not> heldByDislike s)"
  by (induction j steps rule: firstHeldStep.induct) auto

lemma firstHeld_None:
  "firstHeld i inst = None \<longleftrightarrow> (\<forall>steps \<in> set inst. \<forall>s \<in> set steps. \<not> heldByDislike s)"
proof (induction i inst rule: firstHeld.induct)
  case (2 i steps rest)
  then show ?case using firstHeldStep_None [of 0 steps] by (auto split: option.splits)
qed simp

lemma firstHeldStep_Some:
  "firstHeldStep j0 steps = Some j \<longleftrightarrow>
     (\<exists>n < length steps. j = j0 + int n + 1 \<and> heldByDislike (steps ! n) \<and>
        (\<forall>m < n. \<not> heldByDislike (steps ! m)))"
proof (induction j0 steps rule: firstHeldStep.induct)
  case (1 j)
  show ?case by simp
next
  case (2 j step steps)
  show ?case
  proof (cases "heldByDislike step")
    case True
    then show ?thesis by (auto simp: less_Suc_eq_0_disj Ex_less_Suc2)
  next
    case False
    then have "firstHeldStep j (step # steps) = firstHeldStep (j + 1) steps" by simp
    then show ?thesis using 2 False
      by (simp add: Ex_less_Suc2 All_less_Suc2 algebra_simps)
  qed
qed

lemma firstHeld_Some:
  "firstHeld i0 inst = Some (i, j) \<longleftrightarrow>
     (\<exists>n < length inst. i = i0 + int n + 1 \<and> firstHeldStep 0 (inst ! n) = Some j \<and>
        (\<forall>m < n. firstHeldStep 0 (inst ! m) = None))"
proof (induction i0 inst rule: firstHeld.induct)
  case (1 i)
  show ?case by simp
next
  case (2 i0 steps rest)
  show ?case
  proof (cases "firstHeldStep 0 steps")
    case None
    then have "firstHeld i0 (steps # rest) = firstHeld (i0 + 1) rest" by simp
    then show ?thesis using 2 None
      by (simp add: Ex_less_Suc2 All_less_Suc2 algebra_simps)
  next
    case (Some a)
    then show ?thesis by (auto simp: less_Suc_eq_0_disj Ex_less_Suc2)
  qed
qed

section \<open>Properties\<close>

text \<open>
  C15. The serving decision, in full. A recorded response answers only a replay, or the shared
  prefix of a fork, and only when the recorded call belongs to the same goal; a learned
  procedure answers only a live run and only from canary or trusted, with the app standing by
  exactly on canary; a divergence is raised exactly by a strict replay with no recorded call;
  everything else goes to a provider.
\<close>

theorem DecideServe_sources:
  "(sv_Source (DecideServe rc) = ServeJournal \<longleftrightarrow>
      rc_JournalHit rc \<and> rc_SameGoal rc \<and>
      (rc_Mode rc = ''replay'' \<or> rc_Mode rc = ''fork'' \<and> rc_BeforeForkPoint rc)) \<and>
   (sv_Source (DecideServe rc) = ServeConstruct \<longleftrightarrow>
      rc_Mode rc \<in> {'''', ''live''} \<and> rc_ConstructRung rc \<in> {RungCanary, RungTrusted}) \<and>
   (sv_Diverged (DecideServe rc) \<longleftrightarrow>
      rc_Mode rc = ''replay'' \<and> \<not> (rc_JournalHit rc \<and> rc_SameGoal rc) \<and>
      rc_ReplayPolicy rc \<noteq> ''permissive'') \<and>
   (sv_Standby (DecideServe rc) \<longleftrightarrow>
      rc_Mode rc \<in> {'''', ''live''} \<and> rc_ConstructRung rc = RungCanary) \<and>
   (sv_Shadow (DecideServe rc) \<longleftrightarrow>
      rc_Mode rc \<in> {'''', ''live''} \<and> rc_ConstructRung rc = RungShadow)"
  by (auto simp: DecideServe_def Let_def)

text \<open>
  The candidate gate passes exactly when the template has at least two uses, no hole is
  unexplained and no step's newest verdict is a dislike, where versions nobody looked at have no
  vote; and when a dislike holds it, the reason names the first held step of the first instance
  that has one, counted from one.
\<close>

theorem CandidateGate_exact:
  "(fst (CandidateGate e) \<longleftrightarrow>
      2 \<le> ce_Uses e \<and> ce_UnexplainedHoles e \<le> 0 \<and>
      (\<forall>steps \<in> set (ce_Instances e). \<forall>vs \<in> set steps. newest_verdict vs \<noteq> Some VerdictDislike)) \<and>
   (snd (CandidateGate e) = StepDisliked i j \<longrightarrow>
      (\<exists>n m. i = int n + 1 \<and> j = int m + 1 \<and>
         n < length (ce_Instances e) \<and> m < length (ce_Instances e ! n) \<and>
         newest_verdict (ce_Instances e ! n ! m) = Some VerdictDislike \<and>
         (\<forall>m' < m. newest_verdict (ce_Instances e ! n ! m') \<noteq> Some VerdictDislike) \<and>
         (\<forall>n' < n. \<forall>vs \<in> set (ce_Instances e ! n'). newest_verdict vs \<noteq> Some VerdictDislike)))"
proof
  show "fst (CandidateGate e) \<longleftrightarrow>
      2 \<le> ce_Uses e \<and> ce_UnexplainedHoles e \<le> 0 \<and>
      (\<forall>steps \<in> set (ce_Instances e). \<forall>vs \<in> set steps. newest_verdict vs \<noteq> Some VerdictDislike)"
    using firstHeld_None [of 0 "ce_Instances e"]
    by (auto simp: CandidateGate_def heldByDislike_newest split: option.splits)
  show "snd (CandidateGate e) = StepDisliked i j \<longrightarrow>
      (\<exists>n m. i = int n + 1 \<and> j = int m + 1 \<and>
         n < length (ce_Instances e) \<and> m < length (ce_Instances e ! n) \<and>
         newest_verdict (ce_Instances e ! n ! m) = Some VerdictDislike \<and>
         (\<forall>m' < m. newest_verdict (ce_Instances e ! n ! m') \<noteq> Some VerdictDislike) \<and>
         (\<forall>n' < n. \<forall>vs \<in> set (ce_Instances e ! n'). newest_verdict vs \<noteq> Some VerdictDislike))"
  proof
    assume "snd (CandidateGate e) = StepDisliked i j"
    then have "firstHeld 0 (ce_Instances e) = Some (i, j)"
      by (auto simp: CandidateGate_def split: if_splits option.splits)
    then obtain n where n: "n < length (ce_Instances e)" "i = int n + 1"
        "firstHeldStep 0 (ce_Instances e ! n) = Some j"
        "\<forall>m < n. firstHeldStep 0 (ce_Instances e ! m) = None"
      by (auto simp: firstHeld_Some)
    then show "\<exists>n m. i = int n + 1 \<and> j = int m + 1 \<and>
         n < length (ce_Instances e) \<and> m < length (ce_Instances e ! n) \<and>
         newest_verdict (ce_Instances e ! n ! m) = Some VerdictDislike \<and>
         (\<forall>m' < m. newest_verdict (ce_Instances e ! n ! m') \<noteq> Some VerdictDislike) \<and>
         (\<forall>n' < n. \<forall>vs \<in> set (ce_Instances e ! n'). newest_verdict vs \<noteq> Some VerdictDislike)"
      unfolding firstHeldStep_Some firstHeldStep_None heldByDislike_newest by auto
  qed
qed

definition disliked_evidence :: CandidateEvidence where
  "disliked_evidence = \<lparr>ce_Uses = 2, ce_UnexplainedHoles = 0,
     ce_Instances = [[[''like'', ''Disliked'', '''']]]\<rparr>"

lemma disliked_evidence_held: "snd (CandidateGate disliked_evidence) = StepDisliked 1 1"
  by code_simp

theorem CandidateGate_exact_witness:
  "\<not> fst (CandidateGate disliked_evidence) \<and>
   (\<exists>n m. 1 = int n + 1 \<and> 1 = int m + 1 \<and>
      newest_verdict (ce_Instances disliked_evidence ! n ! m) = Some VerdictDislike)"
proof -
  have "\<exists>n m. 1 = int n + 1 \<and> 1 = int m + 1 \<and>
      n < length (ce_Instances disliked_evidence) \<and> m < length (ce_Instances disliked_evidence ! n) \<and>
      newest_verdict (ce_Instances disliked_evidence ! n ! m) = Some VerdictDislike"
    using CandidateGate_exact [of disliked_evidence 1 1] disliked_evidence_held by blast
  moreover have "\<not> fst (CandidateGate disliked_evidence)"
    using disliked_evidence_held
    by (auto simp: CandidateGate_def split: if_splits option.splits)
  ultimately show ?thesis by blast
qed

end
