(* ===== verification/Values.thy ===== *)
theory Values
  imports Prelude
begin

text \<open>
  The dynamic values a stored row carries (Go's \<^verbatim>\<open>any\<close> holding decoded JSON), with the type
  assertions the sources read them by, and the rendering of integers by \<^verbatim>\<open>%d\<close>. A Go map is an
  association list; an absent key reads as nil. A \<^verbatim>\<open>float64\<close> is NaN, an infinity or a rational:
  its rounding is in \<open>Floats\<close>.
\<close>

section \<open>Floats and dynamic values\<close>

datatype float64 = NaN | PosInf | NegInf | Fin rat

datatype any =
    JNull
  | JBool bool
  | JInt int
  | JInt64 int
  | JInt32 int
  | JNumber string
  | JFloat float64
  | JStr string
  | JArr "any list"
  | JObj "(string \<times> any) list"

definition getf :: "(string \<times> any) list \<Rightarrow> string \<Rightarrow> any" where
  "getf m k = (case map_of m k of None \<Rightarrow> JNull | Some v \<Rightarrow> v)"

text \<open>Type assertions \<^verbatim>\<open>x, _ := v.(T)\<close>: the zero value of T when v holds something else.\<close>

fun asObj :: "any \<Rightarrow> (string \<times> any) list" where
  "asObj (JObj m) = m"
| "asObj _ = []"

fun asStr :: "any \<Rightarrow> string" where
  "asStr (JStr s) = s"
| "asStr _ = ''''"

fun asBool :: "any \<Rightarrow> bool" where
  "asBool (JBool b) = b"
| "asBool _ = False"

definition MaxInt32 :: int where "MaxInt32 = 2147483647"

definition MinInt32 :: int where "MinInt32 = - 2147483648"

fun intOf :: "any \<Rightarrow> int" where
  "intOf (JInt n) = n"
| "intOf (JInt64 n) = (if n > MaxInt32 \<or> n < MinInt32 then 0 else n)"
| "intOf (JFloat (Fin q)) =
     (if q \<noteq> of_int \<lfloor>q\<rfloor> \<or> q > of_int MaxInt32 \<or> q < of_int MinInt32 then 0 else \<lfloor>q\<rfloor>)"
| "intOf _ = 0"

text \<open>
  What writing a value as JSON and reading it back does to it: every integer comes back as a float.
  No row written by the sources modelled here holds a \<^verbatim>\<open>json.Number\<close>, which is left as it is.
\<close>

fun jsonRead :: "any \<Rightarrow> any" where
  "jsonRead (JInt n) = JFloat (Fin (of_int n))"
| "jsonRead (JInt64 n) = JFloat (Fin (of_int n))"
| "jsonRead (JInt32 n) = JFloat (Fin (of_int n))"
| "jsonRead (JArr vs) = JArr (map jsonRead vs)"
| "jsonRead (JObj m) = JObj (map (\<lambda>(k, v). (k, jsonRead v)) m)"
| "jsonRead v = v"

lemma getf_simps [simp]:
  "getf [] k = JNull"
  "getf ((k', v) # m) k = (if k = k' then v else getf m k)"
  by (simp_all add: getf_def)

lemma getf_append: "getf (a @ b) k = (if k \<in> fst ` set a then getf a k else getf b k)"
  by (induction a) (auto simp: rev_image_eqI)

lemma intOf_Fin_of_int [simp]:
  "intOf (JFloat (Fin (of_int n))) = (if n > MaxInt32 \<or> n < MinInt32 then 0 else n)"
  by (simp add: of_int_less_iff)

section \<open>Integers as text\<close>

fun digits :: "nat \<Rightarrow> string" where
  "digits n = (if n < 10 then [char_of (48 + n)] else digits (n div 10) @ [char_of (48 + n mod 10)])"

declare digits.simps [simp del]

definition itoa :: "int \<Rightarrow> string" where
  "itoa n = (if n < 0 then ''-'' @ digits (nat (- n)) else digits (nat n))"

definition is_digit :: "char \<Rightarrow> bool" where
  "is_digit c \<longleftrightarrow> 48 \<le> (of_char c :: nat) \<and> (of_char c :: nat) \<le> 57"

fun digits_val :: "nat \<Rightarrow> string \<Rightarrow> nat" where
  "digits_val acc [] = acc"
| "digits_val acc (c # cs) = digits_val (10 * acc + (of_char c - 48)) cs"

lemma digits_val_append: "digits_val acc (a @ b) = digits_val (digits_val acc a) b"
  by (induction acc a rule: digits_val.induct) auto

lemma digits_val_digits: "digits_val 0 (digits n) = n"
proof (induction n rule: digits.induct)
  case (1 n)
  then show ?case
    by (subst digits.simps) (simp add: digits_val_append mult.commute)
qed

lemma digits_all: "\<forall>c \<in> set (digits n). is_digit c"
proof (induction n rule: digits.induct)
  case (1 n)
  then show ?case
    by (subst digits.simps) (auto simp: is_digit_def)
qed

lemma digits_nonempty [simp]: "digits n \<noteq> []"
  by (subst digits.simps) simp

lemma digits_inj: "digits m = digits n \<Longrightarrow> m = n"
  by (metis digits_val_digits)

text \<open>\<^verbatim>\<open>strconv.Atoi\<close>: an optional sign, then digits, in 64 bits.\<close>

definition Atoi :: "string \<Rightarrow> int option" where
  "Atoi s =
     (let (neg, ds) = (case s of
            c # t \<Rightarrow> if c = CHR ''-'' then (True, t) else if c = CHR ''+'' then (False, t) else (False, s)
          | [] \<Rightarrow> (False, s));
          n = (if neg then - int (digits_val 0 ds) else int (digits_val 0 ds))
      in if ds = [] \<or> \<not> list_all is_digit ds \<or> \<not> in64 n then None else Some n)"

text \<open>\<^verbatim>\<open>int32(n)\<close>, and the conversions of core/num that saturate.\<close>

definition wrap32 :: "int \<Rightarrow> int" where
  "wrap32 x = (x + 2147483648) mod 4294967296 - 2147483648"

lemma wrap32_id: "MinInt32 \<le> x \<Longrightarrow> x \<le> MaxInt32 \<Longrightarrow> wrap32 x = x"
  by (simp add: wrap32_def MinInt32_def MaxInt32_def)

definition ClampInt64 :: "int \<Rightarrow> int" where
  "ClampInt64 v = (if v > MaxInt64 then MaxInt64 else if v < MinInt64 then MinInt64 else v)"

definition truncate_rat :: "rat \<Rightarrow> int" where
  "truncate_rat q = (if q < 0 then \<lceil>q\<rceil> else \<lfloor>q\<rfloor>)"

text \<open>The bound \<^verbatim>\<open>math.MaxInt\<close> of the comparison is a float64 there, which is \<open>2 ^ 63\<close>.\<close>

fun ClampFloat64 :: "float64 \<Rightarrow> int" where
  "ClampFloat64 NaN = 0"
| "ClampFloat64 PosInf = MaxInt64"
| "ClampFloat64 NegInf = MinInt64"
| "ClampFloat64 (Fin q) =
     (if q \<ge> of_int (MaxInt64 + 1) then MaxInt64
      else if q \<le> of_int MinInt64 then MinInt64
      else ClampInt64 (truncate_rat q))"

lemma ClampInt64_id [simp]: "in64 n \<Longrightarrow> ClampInt64 n = n"
  by (simp add: ClampInt64_def in64_def)

lemma ClampFloat64_of_int [simp]: "ClampFloat64 (Fin (of_int n)) = ClampInt64 n"
proof -
  have "truncate_rat (of_int n) = n" by (simp add: truncate_rat_def)
  moreover have "of_int n \<ge> (of_int (MaxInt64 + 1) :: rat) \<longleftrightarrow> n \<ge> MaxInt64 + 1"
    "(of_int n :: rat) \<le> of_int MinInt64 \<longleftrightarrow> n \<le> MinInt64"
    by (simp_all only: of_int_le_iff)
  ultimately show ?thesis by (auto simp: ClampInt64_def MaxInt64_def MinInt64_def)
qed

end
