(* ===== verification/Feedback.thy ===== *)
theory Feedback
  imports Serving Values
begin

text \<open>
  A person's verdict and what it feeds: the three axes and the guidance rendered from earlier
  dislikes (component/work/feedback.go), the feedback policy (policy.go), the reuse label of a
  construct (reuse.go) and the reliability average (reliability.go).
\<close>

section \<open>Axes and verdict validation\<close>

record Axes =
  ax_Product :: bool
  ax_Process :: bool
  ax_Performance :: bool

datatype feedback_error = ErrFeedbackAxisRequired | ErrFeedbackVerdictInvalid | ErrFeedbackReasonTooLong

definition maxFeedbackReasonBytes :: nat where "maxFeedbackReasonBytes = 2000"

definition AnyAxis :: "Axes \<Rightarrow> bool" where
  "AnyAxis a \<longleftrightarrow> ax_Product a \<or> ax_Process a \<or> ax_Performance a"

definition Names :: "Axes \<Rightarrow> string list" where
  "Names a = (if ax_Product a then [''product''] else []) @
             (if ax_Process a then [''process''] else []) @
             (if ax_Performance a then [''performance''] else [])"

definition AxesObject :: "Axes \<Rightarrow> (string \<times> any) list" where
  "AxesObject a = [(''product'', JBool (ax_Product a)), (''process'', JBool (ax_Process a)),
     (''performance'', JBool (ax_Performance a))]"

definition ParseAxes :: "any \<Rightarrow> Axes" where
  "ParseAxes v =
     (let m = asObj v; b = (\<lambda>k. asBool (getf m k))
      in \<lparr>ax_Product = b ''product'', ax_Process = b ''process'', ax_Performance = b ''performance''\<rparr>)"

definition setAxis :: "Axes \<Rightarrow> string \<Rightarrow> Axes" where
  "setAxis a n =
     (let w = ToLower (TrimSpace n)
      in if w = ''product'' then a\<lparr>ax_Product := True\<rparr>
         else if w = ''process'' then a\<lparr>ax_Process := True\<rparr>
         else if w = ''performance'' then a\<lparr>ax_Performance := True\<rparr>
         else a)"

definition AxesFromNames :: "string list \<Rightarrow> Axes" where
  "AxesFromNames names =
     foldl setAxis \<lparr>ax_Product = False, ax_Process = False, ax_Performance = False\<rparr> names"

definition ValidateFeedback :: "Verdict \<Rightarrow> Axes \<Rightarrow> string \<Rightarrow> feedback_error option" where
  "ValidateFeedback v axes reason =
     (if v \<noteq> VerdictLike \<and> v \<noteq> VerdictNeutral \<and> v \<noteq> VerdictDislike then Some ErrFeedbackVerdictInvalid
      else if v = VerdictDislike \<and> \<not> AnyAxis axes then Some ErrFeedbackAxisRequired
      else if length reason > maxFeedbackReasonBytes then Some ErrFeedbackReasonTooLong
      else None)"

record ValidatorVerdict =
  vv_Axes :: Axes
  vv_Reason :: string

definition Flagged :: "ValidatorVerdict \<Rightarrow> bool" where
  "Flagged v = AnyAxis (vv_Axes v)"

definition Word :: "ValidatorVerdict \<Rightarrow> string" where
  "Word v = (if Flagged v then ''flag'' else ''pass'')"

definition Disagrees :: "Verdict \<Rightarrow> ValidatorVerdict \<Rightarrow> bool" where
  "Disagrees person validator =
     (if person = VerdictLike then Flagged validator
      else if person = VerdictDislike then \<not> Flagged validator
      else False)"

section \<open>Sentences and guidance\<close>

definition FeedbackContent :: "Verdict \<Rightarrow> string \<Rightarrow> int \<Rightarrow> Axes \<Rightarrow> string \<Rightarrow> string" where
  "FeedbackContent v stepKey version axes reason =
     (let what = (if v = VerdictLike then ''Liked'' else if v = VerdictDislike then ''Disliked''
                  else if v = VerdictNeutral then ''Marked neutral'' else ''Judged'');
          target = (if stepKey = '''' then ''the run''
                    else if version > 0 then ''version '' @ itoa version @ '' of '' @ stepKey
                    else stepKey);
          s = what @ '' '' @ target;
          s = (if v = VerdictDislike \<and> Names axes \<noteq> []
               then s @ '' ('' @ Join (Names axes) '', '' @ '')'' else s);
          r = TrimSpace reason;
          s = (if r \<noteq> '''' then s @ '': '' @ r else s)
      in if HasSuffix s ''.'' then s else s @ ''.'')"

definition DescriptionGuidanceLimit :: nat where "DescriptionGuidanceLimit = 5"

definition DescriptionGuidanceHeading :: string where
  "DescriptionGuidanceHeading = ''What the owner disliked about earlier answers to this goal (take it into account; do not repeat these problems):''"

definition DislikeLine :: "Axes \<Rightarrow> string \<Rightarrow> string" where
  "DislikeLine axes reason0 =
     (let reason = TrimSpace reason0
      in if reason = '''' then ''''
         else if Names axes \<noteq> [] then ''- ('' @ Join (Names axes) '', '' @ '') '' @ reason
         else ''- '' @ reason)"

definition rowLine :: "(string \<times> any) list \<Rightarrow> string" where
  "rowLine row =
     (let data = asObj (getf row ''data''); reason = asStr (getf data ''reason'')
      in DislikeLine (ParseAxes (getf data ''axes'')) reason)"

text \<open>The loop over the rows, with the lines already seen and the lines kept so far.\<close>

fun guidanceLines :: "string set \<Rightarrow> string list \<Rightarrow> (string \<times> any) list list \<Rightarrow> string list" where
  "guidanceLines seen ls [] = ls"
| "guidanceLines seen ls (row # rows) =
     (if length ls = DescriptionGuidanceLimit then ls
      else let line = rowLine row
           in if line = '''' \<or> line \<in> seen then guidanceLines seen ls rows
              else guidanceLines (insert line seen) (ls @ [line]) rows)"

definition DescriptionGuidance :: "(string \<times> any) list list \<Rightarrow> string list \<Rightarrow> string" where
  "DescriptionGuidance rows carried =
     (let seen = set (filter (\<lambda>l. l \<noteq> '''') carried);
          ls = guidanceLines seen [] rows
      in if ls = [] then '''' else DescriptionGuidanceHeading @ [CHR 0x0A] @ Join ls [CHR 0x0A])"

section \<open>Policy, reuse and reliability\<close>

record FeedbackPolicy =
  fp_ValidateAnswers :: bool
  fp_ReusableAfterSignatures :: int

definition DefaultFeedbackPolicy :: FeedbackPolicy where
  "DefaultFeedbackPolicy = \<lparr>fp_ValidateAnswers = True, fp_ReusableAfterSignatures = 2\<rparr>"

definition NormalizeFeedbackPolicy :: "FeedbackPolicy \<Rightarrow> FeedbackPolicy" where
  "NormalizeFeedbackPolicy p =
     (if fp_ReusableAfterSignatures p \<le> 0
      then p\<lparr>fp_ReusableAfterSignatures := fp_ReusableAfterSignatures DefaultFeedbackPolicy\<rparr> else p)"

text \<open>The row is \<open>None\<close> when it is absent.\<close>

definition FeedbackPolicyFrom :: "(string \<times> any) list option \<Rightarrow> FeedbackPolicy" where
  "FeedbackPolicyFrom row =
     (case row of
        None \<Rightarrow> DefaultFeedbackPolicy
      | Some m \<Rightarrow>
          let p = DefaultFeedbackPolicy;
              p = (case getf m ''validateAnswers'' of JBool b \<Rightarrow> p\<lparr>fp_ValidateAnswers := b\<rparr> | _ \<Rightarrow> p);
              n = intOf (getf m ''reusableAfterSignatures'');
              p = (if n > 0 then p\<lparr>fp_ReusableAfterSignatures := n\<rparr> else p)
          in NormalizeFeedbackPolicy p)"

type_synonym ReuseLabel = string

definition ReuseReusable :: ReuseLabel where "ReuseReusable = ''reusable''"
definition ReuseGoalSpecific :: ReuseLabel where "ReuseGoalSpecific = ''goalSpecific''"
definition ReuseAccountSpecific :: ReuseLabel where "ReuseAccountSpecific = ''accountSpecific''"

definition ParseReuseLabel :: "string \<Rightarrow> ReuseLabel" where
  "ParseReuseLabel s =
     (let l = TrimSpace s
      in if l = ReuseReusable \<or> l = ReuseGoalSpecific \<or> l = ReuseAccountSpecific then l else '''')"

record ReuseEvidence =
  re_GoalSignatures :: "string list"
  re_AccountIds :: "string list"
  re_Uses :: int

fun distinct_from :: "string set \<Rightarrow> string list \<Rightarrow> string list" where
  "distinct_from seen [] = []"
| "distinct_from seen (x # xs) =
     (let x = TrimSpace x
      in if x \<noteq> '''' \<and> x \<notin> seen then x # distinct_from (insert x seen) xs
         else distinct_from seen xs)"

definition distinct_go :: "string list \<Rightarrow> string list" where
  "distinct_go xs = distinct_from {} xs"

definition DecideReuse :: "ReuseEvidence \<Rightarrow> int \<Rightarrow> ReuseLabel" where
  "DecideReuse e reusableAfter0 =
     (let reusableAfter = (if reusableAfter0 \<le> 0 then fp_ReusableAfterSignatures DefaultFeedbackPolicy
                           else reusableAfter0)
      in if int (length (distinct_go (re_GoalSignatures e))) \<ge> reusableAfter then ReuseReusable
         else if length (distinct_go (re_AccountIds e)) = 1 then ReuseAccountSpecific
         else ReuseGoalSpecific)"

definition EffectiveReuse :: "ReuseLabel \<Rightarrow> ReuseLabel \<Rightarrow> ReuseLabel" where
  "EffectiveReuse evidence override = (if override \<noteq> '''' then override else evidence)"

definition reinforceAlpha :: rat where "reinforceAlpha = 1 / 5"

fun clampUnit :: "float64 \<Rightarrow> rat" where
  "clampUnit NaN = 0"
| "clampUnit NegInf = 0"
| "clampUnit PosInf = 1"
| "clampUnit (Fin x) = (if x < 0 then 0 else if x > 1 then 1 else x)"

definition Reinforce :: "float64 \<Rightarrow> bool \<Rightarrow> rat" where
  "Reinforce reliability success =
     (let r = clampUnit reliability;
          r = (if success then r + reinforceAlpha * (1 - r) else r * (1 - reinforceAlpha))
      in clampUnit (Fin r))"

section \<open>Lemmas\<close>

lemma ParseAxes_Object [simp]: "ParseAxes (JObj (AxesObject a)) = a"
  by (cases a) (simp add: ParseAxes_def AxesObject_def Let_def)

interpretation axes: stored_form "\<lambda>a. JObj (AxesObject a)" ParseAxes "\<lambda>a. a" "\<lambda>_. True"
  by unfold_locales simp_all

lemma setAxis_names:
  "setAxis a ''product'' = a\<lparr>ax_Product := True\<rparr>"
  "setAxis a ''process'' = a\<lparr>ax_Process := True\<rparr>"
  "setAxis a ''performance'' = a\<lparr>ax_Performance := True\<rparr>"
  by (simp_all add: setAxis_def Let_def ToLower_def TrimSpace_def is_space_def lower_char_def)

lemma AxesFromNames_Names [simp]: "AxesFromNames (Names a) = a"
  by (cases a) (simp add: AxesFromNames_def Names_def setAxis_names)

lemma Names_empty: "Names a = [] \<longleftrightarrow> \<not> AnyAxis a"
  by (simp add: Names_def AnyAxis_def)

text \<open>First occurrences of the fresh, non-empty lines: the reference the loop is compared with.\<close>

fun fresh_lines :: "string set \<Rightarrow> string list \<Rightarrow> string list" where
  "fresh_lines seen [] = []"
| "fresh_lines seen (l # ls) =
     (if l = '''' \<or> l \<in> seen then fresh_lines seen ls else l # fresh_lines (insert l seen) ls)"

lemma fresh_lines_props:
  "distinct (fresh_lines seen ls) \<and> set (fresh_lines seen ls) = set ls - seen - {''''}"
  by (induction seen ls rule: fresh_lines.induct) auto

lemma guidanceLines_take:
  "length ls \<le> DescriptionGuidanceLimit \<Longrightarrow>
   guidanceLines seen ls rows = take DescriptionGuidanceLimit (ls @ fresh_lines seen (map rowLine rows))"
  by (induction seen ls rows rule: guidanceLines.induct) (auto simp: Let_def)

lemma distinct_from_props:
  "distinct (distinct_from seen xs) \<and>
   set (distinct_from seen xs) = TrimSpace ` set xs - seen - {''''}"
  by (induction seen xs rule: distinct_from.induct) (auto simp: Let_def)

lemma length_distinct_go: "length (distinct_go xs) = card (TrimSpace ` set xs - {''''})"
  using distinct_from_props [of "{}" xs] by (metis Diff_empty distinct_card distinct_go_def)

lemma clampUnit_range: "0 \<le> clampUnit x \<and> clampUnit x \<le> 1"
  by (cases x) auto

lemma clampUnit_id: "0 \<le> x \<Longrightarrow> x \<le> 1 \<Longrightarrow> clampUnit (Fin x) = x"
  by simp

lemma Reinforce_unit:
  assumes "0 \<le> r" "r \<le> 1"
  shows "Reinforce (Fin r) True = 1 - (1 - r) * (4 / 5)" "Reinforce (Fin r) False = r * (4 / 5)"
  using assms by (auto simp: Reinforce_def reinforceAlpha_def Let_def field_simps)

definition reinforce_step :: "rat \<Rightarrow> bool \<Rightarrow> rat" where
  "reinforce_step r success = Reinforce (Fin r) success"

lemma Reinforce_range: "0 \<le> Reinforce x b \<and> Reinforce x b \<le> 1"
  unfolding Reinforce_def Let_def by (rule clampUnit_range)

interpretation reliability: event_machine reinforce_step "\<lambda>r. 0 \<le> r \<and> r \<le> 1"
  by unfold_locales (simp add: reinforce_step_def Reinforce_range)

lemma reinforce_successes:
  "0 \<le> r \<Longrightarrow> r \<le> 1 \<Longrightarrow> foldl reinforce_step r (replicate n True) = 1 - (1 - r) * (4 / 5) ^ n"
proof (induction n arbitrary: r)
  case 0
  then show ?case by simp
next
  case (Suc n)
  have "0 \<le> 1 - (1 - r) * (4 / 5) \<and> 1 - (1 - r) * (4 / 5) \<le> 1"
    using Suc.prems by (simp add: field_simps)
  then show ?case
    using Suc.IH [of "1 - (1 - r) * (4 / 5)"] Suc.prems
    by (simp add: reinforce_step_def Reinforce_unit)
qed

lemma reinforce_failures:
  "0 \<le> r \<Longrightarrow> r \<le> 1 \<Longrightarrow> foldl reinforce_step r (replicate n False) = r * (4 / 5) ^ n"
proof (induction n arbitrary: r)
  case 0
  then show ?case by simp
next
  case (Suc n)
  then show ?case
    using Suc.IH [of "r * (4 / 5)"] by (simp add: reinforce_step_def Reinforce_unit)
qed

section \<open>Properties\<close>

text \<open>
  The guidance from earlier dislikes is the first five different complaints, newest first:
  the loop keeps exactly the first five first-occurrences of the non-empty lines that the call
  does not already carry, none twice, and says nothing when there is none.
\<close>

theorem DescriptionGuidance_exact:
  "\<exists>ls. ls = take 5 (fresh_lines (set carried) (map rowLine rows)) \<and>
     distinct ls \<and> set ls \<inter> set carried = {} \<and> length ls \<le> 5 \<and>
     (length ls < 5 \<longrightarrow> set ls = rowLine ` set rows - set carried - {''''}) \<and>
     DescriptionGuidance rows carried =
       (if ls = [] then '''' else DescriptionGuidanceHeading @ [CHR 0x0A] @ Join ls [CHR 0x0A])"
proof (intro exI conjI)
  let ?f = "fresh_lines (set carried) (map rowLine rows)"
  have same: "fresh_lines (insert '''' s) xs = fresh_lines s xs" for s xs
    by (induction s xs rule: fresh_lines.induct) (auto simp: insert_commute)
  have "fresh_lines (set (filter (\<lambda>l. l \<noteq> '''') carried)) (map rowLine rows) = ?f"
  proof -
    have "insert '''' (set (filter (\<lambda>l. l \<noteq> '''') carried)) = insert '''' (set carried)" by auto
    then show ?thesis by (metis same)
  qed
  then show "DescriptionGuidance rows carried =
      (if take 5 ?f = [] then '''' else DescriptionGuidanceHeading @ [CHR 0x0A] @ Join (take 5 ?f) [CHR 0x0A])"
    using guidanceLines_take [of "[]"]
    by (simp add: DescriptionGuidance_def DescriptionGuidanceLimit_def Let_def del: take_eq_Nil)
  have P: "distinct ?f" "set ?f = set (map rowLine rows) - set carried - {''''}"
    using fresh_lines_props [of "set carried" "map rowLine rows"] by auto
  show "distinct (take 5 ?f)" using P by simp
  show "set (take 5 ?f) \<inter> set carried = {}" using P set_take_subset [of 5 ?f] by blast
  show "length (take 5 ?f) < 5 \<longrightarrow> set (take 5 ?f) = rowLine ` set rows - set carried - {''''}"
    using P by simp
qed simp_all

theorem DescriptionGuidance_exact_witness:
  "\<exists>ls. length ls < 5 \<and>
     set ls = rowLine ` {[(''data'', JObj [(''reason'', JStr ''wrong totals'')])]} - {} - {''''}"
proof -
  let ?rows = "[[(''data'', JObj [(''reason'', JStr ''wrong totals'')])]]"
  have "length (take 5 (fresh_lines (set []) (map rowLine ?rows))) < 5" by simp
  then show ?thesis
    using DescriptionGuidance_exact [of "[]" ?rows] by (metis list.set(1) list.simps(15))
qed

text \<open>
  Reliability stays a proportion. From any stored value, NaN and infinities included, every
  sequence of replays keeps the average in the unit interval; a run of n successes leaves a gap
  to 1 of (4/5) to the n of the one it started with, and a run of n failures (4/5) to the n of
  what was earned, so no single replay decides and none is lost.
\<close>

theorem reliability_average:
  "0 \<le> foldl reinforce_step (clampUnit x) outcomes \<and> foldl reinforce_step (clampUnit x) outcomes \<le> 1 \<and>
   foldl reinforce_step (clampUnit x) (replicate n True) = 1 - (1 - clampUnit x) * (4 / 5) ^ n \<and>
   foldl reinforce_step (clampUnit x) (replicate n False) = clampUnit x * (4 / 5) ^ n"
  using reliability.foldl_inv [of "clampUnit x" outcomes] clampUnit_range [of x]
  by (simp add: reinforce_successes reinforce_failures)

text \<open>
  The reuse label follows the evidence: a construct is reusable exactly when the goals that
  used it have at least the threshold of different, non-blank signatures (two when the
  threshold is not positive); otherwise it is account-specific exactly when those goals name
  one account; blank and repeated entries count for nothing.
\<close>

theorem DecideReuse_counts:
  "let sigs = card (TrimSpace ` set (re_GoalSignatures e) - {''''});
       accounts = card (TrimSpace ` set (re_AccountIds e) - {''''});
       k = (if n \<le> 0 then 2 else n)
   in (DecideReuse e n = ReuseReusable \<longleftrightarrow> int sigs \<ge> k) \<and>
      (DecideReuse e n = ReuseAccountSpecific \<longleftrightarrow> int sigs < k \<and> accounts = 1) \<and>
      (DecideReuse e n = ReuseGoalSpecific \<longleftrightarrow> int sigs < k \<and> accounts \<noteq> 1)"
  by (simp add: DecideReuse_def DefaultFeedbackPolicy_def length_distinct_go Let_def
      ReuseReusable_def ReuseGoalSpecific_def ReuseAccountSpecific_def not_le)

text \<open>
  A verdict that is kept can be acted on and is read back as it was written: validation
  accepts exactly a like, a neutral, or a dislike that names an axis, with a reason of at most
  2000 bytes; the axes survive their stored form and their list of names; neutral never disagrees
  with the validator, and of like and dislike at most one does.
\<close>

theorem feedback_kept:
  "(ValidateFeedback v axes reason = None \<longleftrightarrow>
      length reason \<le> 2000 \<and>
      (v = VerdictLike \<or> v = VerdictNeutral \<or> v = VerdictDislike \<and> Names axes \<noteq> [])) \<and>
   ParseAxes (JObj (AxesObject axes)) = axes \<and> AxesFromNames (Names axes) = axes \<and>
   \<not> (Disagrees VerdictLike val \<and> Disagrees VerdictDislike val) \<and>
   \<not> Disagrees VerdictNeutral val"
  by (auto simp: ValidateFeedback_def maxFeedbackReasonBytes_def Names_empty Disagrees_def verdict_defs)

end
