(* ===== verification/CallGraph.thy ===== *)
theory CallGraph
  imports Prelude "HOL-Library.List_Lexorder" "HOL-Library.Char_ord" "HOL-Library.Product_Lexorder"
begin

text \<open>
  The call graph of loaded constructs: what a step's kind is (component/work/kind.go), what it may
  touch and write (footprint.go) and the contract it owes (postcondition.go). The three walks of
  the source share one shape, a recursive closure with a set of names already entered; it is
  modelled once, as \<open>walks\<close>, with the state the closure captures passed along.
\<close>

section \<open>Constructs\<close>

datatype Kind =
    KindUnset | KindDeterministic | KindReasoning | KindDecision | KindHuman | KindLoop | KindSubrun
  | KindOther string

definition ConstructQuery :: string where "ConstructQuery = ''query''"
definition ConstructMutation :: string where "ConstructMutation = ''mutation''"
definition ConstructShape :: string where "ConstructShape = ''shape''"
definition ConstructSpec :: string where "ConstructSpec = ''spec''"
definition ConstructLogic :: string where "ConstructLogic = ''logic''"
definition ConstructBuiltin :: string where "ConstructBuiltin = ''builtin''"
definition ConstructPrompt :: string where "ConstructPrompt = ''prompt''"

lemmas construct_defs = ConstructQuery_def ConstructMutation_def ConstructShape_def
  ConstructSpec_def ConstructLogic_def ConstructBuiltin_def ConstructPrompt_def

record Footprint =
  fo_Concepts :: "string list"
  fo_Files :: bool
  fo_Machine :: bool
  fo_External :: bool
  fo_Spend :: bool

text \<open>A literal is opaque to the walks, so its type is a parameter.\<close>

record 'l FieldValue =
  fv_Literal :: 'l
  fv_HasLiteral :: bool
  fv_Arg :: string

record 'l WriteSpec =
  ws_Kind :: string
  ws_NewRow :: bool
  ws_Fields :: "(string \<times> 'l FieldValue) list"

record 'l Target =
  tg_ConstructKind :: string
  tg_Calls :: "string list"
  tg_Concept :: string
  tg_Effects :: Footprint
  tg_Write :: "'l WriteSpec option"

type_synonym 'l Registry = "(string \<times> 'l Target) list"

section \<open>The walk\<close>

text \<open>
  \<open>walks halt visit reg ns path (seen, out)\<close> is the loop over the names \<open>ns\<close> called from the
  construct at the end of \<open>path\<close>: a name entered before is skipped, a name the registry does not
  know contributes nothing, any other is visited and then its calls are walked before the next
  name. \<open>halt\<close> says that the state carries a final answer, which is returned through every frame.
\<close>

function (domintros) walks ::
  "('s \<Rightarrow> bool) \<Rightarrow> (string \<Rightarrow> string list \<Rightarrow> 'l Target \<Rightarrow> 's \<Rightarrow> 's) \<Rightarrow> 'l Registry \<Rightarrow>
   string list \<Rightarrow> string list \<Rightarrow> string list \<times> 's \<Rightarrow> string list \<times> 's"
where
  "walks halt visit reg [] path st = st"
| "walks halt visit reg (n # ns) path st =
     (let (seen, out) = st
      in if n \<in> set seen then walks halt visit reg ns path st
         else (case map_of reg n of
                 None \<Rightarrow> walks halt visit reg ns path (n # seen, out)
               | Some t \<Rightarrow>
                   let here = path @ [n]; out = visit n here t out
                   in if halt out then (n # seen, out)
                      else let st = walks halt visit reg (tg_Calls t) here (n # seen, out)
                           in if halt (snd st) then st else walks halt visit reg ns path st))"
  by pat_completeness auto

lemma walks_seen:
  "walks_dom (halt, visit, reg, ns, path, st) \<Longrightarrow> set (fst st) \<subseteq> set (fst (walks halt visit reg ns path st))"
proof (induction halt visit reg ns path st rule: walks.pinduct)
  case (1 halt visit reg path st)
  then show ?case by (simp add: walks.psimps)
next
  case (2 halt visit reg n ns path st)
  obtain seen out where st: "st = (seen, out)" by (cases st)
  show ?case
  proof (cases "n \<in> set seen")
    case True
    then show ?thesis using 2 st by (simp add: walks.psimps)
  next
    case False
    show ?thesis
    proof (cases "map_of reg n")
      case None
      then show ?thesis using 2 st False by (simp add: walks.psimps)
    next
      case (Some t)
      let ?out = "visit n (path @ [n]) t out"
      let ?st = "walks halt visit reg (tg_Calls t) (path @ [n]) (n # seen, ?out)"
      have "\<not> halt ?out \<Longrightarrow> set (n # seen) \<subseteq> set (fst ?st)"
        using 2(4) [OF st [symmetric] refl False Some refl refl] by simp
      moreover have "\<not> halt ?out \<Longrightarrow> \<not> halt (snd ?st) \<Longrightarrow>
          set (fst ?st) \<subseteq> set (fst (walks halt visit reg ns path ?st))"
        using 2(5) [OF st [symmetric] refl False Some refl refl] by simp
      ultimately show ?thesis
        using 2(1) st False Some by (auto simp: walks.psimps Let_def)
    qed
  qed
qed

definition fresh_count :: "'l Registry \<Rightarrow> string list \<Rightarrow> nat" where
  "fresh_count reg seen = card (fst ` set reg - set seen)"

lemma fresh_count_mono: "set seen \<subseteq> set seen' \<Longrightarrow> fresh_count reg seen' \<le> fresh_count reg seen"
  unfolding fresh_count_def by (rule card_mono) auto

lemma fresh_count_enter:
  assumes "map_of reg n = Some t" "n \<notin> set seen" "set (n # seen) \<subseteq> set seen'"
  shows "fresh_count reg seen' < fresh_count reg seen"
  unfolding fresh_count_def
proof (rule psubset_card_mono)
  have "n \<in> fst ` set reg" using map_of_SomeD [OF assms(1)] by (force simp: image_iff)
  then show "fst ` set reg - set seen' \<subset> fst ` set reg - set seen" using assms(2,3) by auto
qed simp

termination walks
proof (relation "measures [\<lambda>(halt, visit, reg, ns, path, st). fresh_count reg (fst st),
    \<lambda>(halt, visit, reg, ns, path, st). length ns]", goal_cases)
  case 1
  show ?case by simp
next
  case (2 halt visit reg n ns path st x seen out)
  then show ?case by simp
next
  case (3 halt visit reg n ns path st x seen out)
  have "fresh_count reg (n # seen) \<le> fresh_count reg seen"
    by (rule fresh_count_mono) auto
  then show ?case using 3 by auto
next
  case (4 halt visit reg n ns path st x seen out t here out')
  then show ?case using fresh_count_enter [of reg n t seen "n # seen"] by auto
next
  case (5 halt visit reg n ns path st x seen out t here out' st')
  then have "set (n # seen) \<subseteq> set (fst st')"
    using walks_seen [of halt visit reg "tg_Calls t" here "(n # seen, out')"] by simp
  then show ?case using 5 fresh_count_enter [of reg n t seen "fst st'"] by auto
qed

section \<open>What a walk visits\<close>

inductive reaches :: "'l Registry \<Rightarrow> string \<Rightarrow> string \<Rightarrow> bool" for reg where
  here: "map_of reg n = Some t \<Longrightarrow> reaches reg n n"
| call: "map_of reg n = Some t \<Longrightarrow> c \<in> set (tg_Calls t) \<Longrightarrow> reaches reg c m \<Longrightarrow> reaches reg n m"

inductive_cases reachesE: "reaches reg n m"

text \<open>A call path: each construct of it is known and calls the next.\<close>

fun call_path :: "'l Registry \<Rightarrow> string list \<Rightarrow> bool" where
  "call_path reg [] = False"
| "call_path reg [n] = (map_of reg n \<noteq> None)"
| "call_path reg (n # m # p) =
     ((case map_of reg n of None \<Rightarrow> False | Some t \<Rightarrow> m \<in> set (tg_Calls t)) \<and> call_path reg (m # p))"

lemma call_path_Cons:
  "map_of reg n = Some t \<Longrightarrow> call_path reg q \<Longrightarrow> hd q \<in> set (tg_Calls t) \<Longrightarrow> call_path reg (n # q)"
  by (cases q) auto

lemma call_path_reaches: "call_path reg q \<Longrightarrow> reaches reg (hd q) (last q)"
  by (induction reg q rule: call_path.induct)
    (auto intro: reaches.intros split: option.splits)

lemma reaches_known: "reaches reg n m \<Longrightarrow> map_of reg m \<noteq> None"
  by (induction rule: reaches.induct) auto

type_synonym 'l visited = "string \<times> string list \<times> 'l Target"

text \<open>The state after the visits of a trace, up to the first that halts.\<close>

fun run_until :: "('s \<Rightarrow> bool) \<Rightarrow> (string \<Rightarrow> string list \<Rightarrow> 'l Target \<Rightarrow> 's \<Rightarrow> 's) \<Rightarrow> 's \<Rightarrow> 'l visited list \<Rightarrow> 's"
where
  "run_until halt visit out [] = out"
| "run_until halt visit out ((n, p, t) # tr) =
     (let out = visit n p t out in if halt out then out else run_until halt visit out tr)"

lemma run_until_append:
  "\<not> halt out \<Longrightarrow> run_until halt visit out (a @ b) =
     (let out' = run_until halt visit out a in if halt out' then out' else run_until halt visit out' b)"
  by (induction a arbitrary: out) (auto simp: Let_def)

definition vnames :: "'l visited list \<Rightarrow> string list" where
  "vnames tr = map fst tr"

text \<open>
  What is promised of a trace from the names \<open>ns\<close> with \<open>seen\<close> entered before: it visits exactly
  the known names newly entered, each once and by a call path, and leaves no call of a visited
  construct unentered.
\<close>

fun good_visit :: "'l Registry \<Rightarrow> string set \<Rightarrow> string list \<Rightarrow> string set \<Rightarrow> 'l visited \<Rightarrow> bool" where
  "good_visit reg starts path seen' (n, p, t) \<longleftrightarrow>
     map_of reg n = Some t \<and> set (tg_Calls t) \<subseteq> seen' \<and>
     (\<exists>q. p = path @ q \<and> call_path reg q \<and> hd q \<in> starts \<and> last q = n)"

definition good_trace ::
  "'l Registry \<Rightarrow> string list \<Rightarrow> string list \<Rightarrow> string set \<Rightarrow> string set \<Rightarrow> 'l visited list \<Rightarrow> bool" where
  "good_trace reg ns path seen seen' tr \<longleftrightarrow>
     seen \<subseteq> seen' \<and> set ns \<subseteq> seen' \<and> distinct (vnames tr) \<and>
     set (vnames tr) = (seen' - seen) \<inter> fst ` set reg \<and>
     (\<forall>v \<in> set tr. good_visit reg (set ns) path seen' v)"

lemma good_visit_mono:
  "good_visit reg A path s v \<Longrightarrow> A \<subseteq> B \<Longrightarrow> s \<subseteq> s' \<Longrightarrow> good_visit reg B path s' v"
  by (cases v) auto

lemma good_visit_under:
  assumes "map_of reg n = Some t" "good_visit reg (set (tg_Calls t)) (path @ [n]) s v" "n \<in> A"
  shows "good_visit reg A path s v"
proof (cases v)
  case (fields m p u)
  then obtain q where q: "p = (path @ [n]) @ q" "call_path reg q" "hd q \<in> set (tg_Calls t)" "last q = m"
    using assms(2) by auto
  moreover have "q \<noteq> []" using q(2) by auto
  ultimately show ?thesis using fields assms call_path_Cons [OF assms(1) q(2,3)]
    by (auto intro!: exI [of _ "n # q"])
qed

lemma known_dom: "map_of reg n = Some t \<Longrightarrow> n \<in> fst ` set reg"
  by (metis map_of_eq_None_iff option.distinct(1))

declare good_visit.simps [simp del]

lemma good_visits_Cons:
  "\<forall>v \<in> set tr. good_visit reg (set ns) path s v \<Longrightarrow> v \<in> set tr \<Longrightarrow>
   good_visit reg (insert n (set ns)) path s v"
  by (metis good_visit_mono subset_insertI subset_refl)

lemma good_trace_skip:
  assumes "n \<in> seen" "good_trace reg ns path seen seen' tr"
  shows "good_trace reg (n # ns) path seen seen' tr"
  using assms unfolding good_trace_def by (auto intro: good_visits_Cons)

lemma good_trace_unknown:
  assumes "map_of reg n = None" "good_trace reg ns path (insert n seen) seen' tr"
  shows "good_trace reg (n # ns) path seen seen' tr"
proof -
  have "(seen' - insert n seen) \<inter> fst ` set reg = (seen' - seen) \<inter> fst ` set reg"
    using assms(1) by (auto simp: map_of_eq_None_iff)
  then show ?thesis
    using assms(2) unfolding good_trace_def by (auto intro: good_visits_Cons)
qed

lemma good_trace_enter:
  assumes "map_of reg n = Some t" "n \<notin> seen"
    and A: "good_trace reg (tg_Calls t) (path @ [n]) (insert n seen) s1 tr1"
    and B: "good_trace reg ns path s1 seen' tr2"
  shows "good_trace reg (n # ns) path seen seen' ((n, path @ [n], t) # tr1 @ tr2)"
proof -
  have sub: "insert n seen \<subseteq> s1" "s1 \<subseteq> seen'" "set (tg_Calls t) \<subseteq> s1" "set ns \<subseteq> seen'"
    using A B by (simp_all add: good_trace_def)
  have names: "set (vnames tr1) = (s1 - insert n seen) \<inter> fst ` set reg"
    "set (vnames tr2) = (seen' - s1) \<inter> fst ` set reg" "distinct (vnames tr1)" "distinct (vnames tr2)"
    using A B by (simp_all add: good_trace_def)
  have split: "vnames ((n, path @ [n], t) # tr1 @ tr2) = n # vnames tr1 @ vnames tr2"
    by (simp add: vnames_def)
  have "distinct (n # vnames tr1 @ vnames tr2)" using names sub(1) by auto
  moreover have "set (n # vnames tr1 @ vnames tr2) = (seen' - seen) \<inter> fst ` set reg"
    using names(1,2) sub known_dom [OF assms(1)] assms(2) by auto
  moreover have "good_visit reg (set (n # ns)) path seen' v" if "v \<in> set tr1" for v
    using A that good_visit_under [OF assms(1), of path s1 v "set (n # ns)"]
      good_visit_mono [OF _ subset_refl sub(2), of reg "set (n # ns)" path v]
    by (auto simp: good_trace_def)
  moreover have "good_visit reg (set (n # ns)) path seen' v" if "v \<in> set tr2" for v
    using B that good_visit_mono [of reg "set ns" path seen' v "set (n # ns)" seen']
    by (auto simp: good_trace_def)
  moreover have "good_visit reg (set (n # ns)) path seen' (n, path @ [n], t)"
    using assms(1) sub by (auto simp: good_visit.simps intro!: exI [of _ "[n]"])
  ultimately show ?thesis using sub unfolding good_trace_def split by auto
qed

text \<open>
  The main lemma on the walk: there is one trace, whatever state is carried, and the state the
  walk returns is that of the trace's visits up to the first that halts.
\<close>

lemma walks_trace_aux:
  fixes out0 :: 's and reg :: "'l Registry"
  shows "\<exists>tr seen'. good_trace reg ns path (set seen) (set seen') tr \<and>
     (\<forall>halt visit (out :: 's). \<not> halt out \<longrightarrow>
        snd (walks halt visit reg ns path (seen, out)) = run_until halt visit out tr \<and>
        (\<not> halt (run_until halt visit out tr) \<longrightarrow> fst (walks halt visit reg ns path (seen, out)) = seen'))"
proof (induction "\<lambda>_ :: 's. False" "\<lambda>(_ :: string) (_ :: string list) (_ :: 'l Target) (o1 :: 's). o1"
    reg ns path "(seen, out0)" arbitrary: seen out0 rule: walks.induct)
  case (1 reg path)
  have "good_trace reg [] path (set seen) (set seen) []"
    by (simp add: good_trace_def vnames_def)
  then show ?case by (intro exI [of _ "[]"] exI [of _ seen]) simp
next
  case (2 reg n ns path)
  show ?case
  proof (cases "n \<in> set seen")
    case True
    then obtain tr seen' where "good_trace reg ns path (set seen) (set seen') tr"
      "\<forall>halt visit (out :: 's). \<not> halt out \<longrightarrow>
        snd (walks halt visit reg ns path (seen, out)) = run_until halt visit out tr \<and>
        (\<not> halt (run_until halt visit out tr) \<longrightarrow> fst (walks halt visit reg ns path (seen, out)) = seen')"
      using 2(1) [OF refl refl] by auto
    then show ?thesis using True good_trace_skip
      by (intro exI [of _ tr] exI [of _ seen']) (simp add: good_trace_skip)
  next
    case new: False
    show ?thesis
    proof (cases "map_of reg n")
      case None
      then obtain tr seen' where "good_trace reg ns path (set (n # seen)) (set seen') tr"
        "\<forall>halt visit (out :: 's). \<not> halt out \<longrightarrow>
          snd (walks halt visit reg ns path (n # seen, out)) = run_until halt visit out tr \<and>
          (\<not> halt (run_until halt visit out tr) \<longrightarrow> fst (walks halt visit reg ns path (n # seen, out)) = seen')"
        using 2(2) [OF refl refl new] by auto
      then show ?thesis using None new
        by (intro exI [of _ tr] exI [of _ seen']) (simp add: good_trace_unknown)
    next
      case (Some t)
      obtain tr1 s1 where g1: "good_trace reg (tg_Calls t) (path @ [n]) (insert n (set seen)) (set s1) tr1"
        and w1: "\<And>halt visit (out :: 's). \<not> halt out \<Longrightarrow>
          snd (walks halt visit reg (tg_Calls t) (path @ [n]) (n # seen, out)) = run_until halt visit out tr1 \<and>
          (\<not> halt (run_until halt visit out tr1) \<longrightarrow>
             fst (walks halt visit reg (tg_Calls t) (path @ [n]) (n # seen, out)) = s1)"
        using 2(3) [OF refl refl new Some refl refl] by auto
      let ?w = "walks (\<lambda>_. False) (\<lambda>_ _ _ o1. o1) reg (tg_Calls t) (path @ [n]) (n # seen, out0)"
      have "fst ?w = s1" using w1 [of "\<lambda>_. False"] by simp
      then have w: "?w = (s1, snd ?w)" by (metis prod.collapse)
      obtain tr2 s2 where g2: "good_trace reg ns path (set s1) (set s2) tr2"
        and w2: "\<And>halt visit (out :: 's). \<not> halt out \<Longrightarrow>
          snd (walks halt visit reg ns path (s1, out)) = run_until halt visit out tr2 \<and>
          (\<not> halt (run_until halt visit out tr2) \<longrightarrow> fst (walks halt visit reg ns path (s1, out)) = s2)"
        using 2(4) [OF refl refl new Some refl refl _ w [symmetric]] by auto
      have "snd (walks halt visit reg (n # ns) path (seen, out)) =
              run_until halt visit out ((n, path @ [n], t) # tr1 @ tr2) \<and>
            (\<not> halt (run_until halt visit out ((n, path @ [n], t) # tr1 @ tr2)) \<longrightarrow>
              fst (walks halt visit reg (n # ns) path (seen, out)) = s2)"
        if "\<not> halt out" for halt visit and out :: 's
      proof (cases "halt (visit n (path @ [n]) t out)")
        case True
        then show ?thesis using new Some by simp
      next
        case False
        let ?out = "visit n (path @ [n]) t out"
        let ?st = "walks halt visit reg (tg_Calls t) (path @ [n]) (n # seen, ?out)"
        have step: "walks halt visit reg (n # ns) path (seen, out) =
            (if halt (snd ?st) then ?st else walks halt visit reg ns path ?st)"
          using new Some False by (simp add: Let_def)
        show ?thesis
          using w1 [of halt ?out visit] w2 [of halt "run_until halt visit ?out tr1" visit] False
          by (cases ?st) (auto simp: step Let_def run_until_append simp del: walks.simps)
      qed
      then show ?thesis using good_trace_enter [OF Some new g1 g2] by blast
    qed
  qed
qed

declare walks.simps [simp del]

text \<open>The trace of a whole walk visits exactly the constructs reachable from its names.\<close>

lemma vnames_iff: "m \<in> set (vnames tr) \<longleftrightarrow> (\<exists>p t. (m, p, t) \<in> set tr)"
  by (force simp: vnames_def image_iff)

lemma good_trace_visit:
  assumes "good_trace reg ns [] seen seen' tr" "(m, p, t) \<in> set tr"
  shows "map_of reg m = Some t" "set (tg_Calls t) \<subseteq> seen'" "call_path reg p" "hd p \<in> set ns" "last p = m"
proof -
  have "good_visit reg (set ns) [] seen' (m, p, t)" using assms by (simp add: good_trace_def)
  then show "map_of reg m = Some t" "set (tg_Calls t) \<subseteq> seen'" "call_path reg p" "hd p \<in> set ns"
      "last p = m"
    by (simp_all add: good_visit.simps)
qed

lemma full_trace_names:
  assumes "good_trace reg ns [] {} seen' tr"
  shows "set (vnames tr) = {m. \<exists>n \<in> set ns. reaches reg n m}"
proof
  show "set (vnames tr) \<subseteq> {m. \<exists>n \<in> set ns. reaches reg n m}"
  proof
    fix m
    assume "m \<in> set (vnames tr)"
    then obtain p t where "(m, p, t) \<in> set tr" by (auto simp: vnames_iff)
    note v = good_trace_visit [OF assms this]
    show "m \<in> {m. \<exists>n \<in> set ns. reaches reg n m}"
      using call_path_reaches [OF v(3)] v(4,5) by auto
  qed
  have closed: "c \<in> seen'" if "n \<in> seen'" "map_of reg n = Some t" "c \<in> set (tg_Calls t)" for n t c
  proof -
    have "n \<in> set (vnames tr)" using assms that known_dom [OF that(2)] by (simp add: good_trace_def)
    then obtain p t' where "(n, p, t') \<in> set tr" by (auto simp: vnames_iff)
    from good_trace_visit [OF assms this] show ?thesis using that by auto
  qed
  have "reaches reg n m \<Longrightarrow> n \<in> seen' \<Longrightarrow> m \<in> seen'" for n m
    by (induction rule: reaches.induct) (auto intro: closed)
  moreover have "set ns \<subseteq> seen'" and vn: "set (vnames tr) = seen' \<inter> fst ` set reg"
    using assms by (simp_all add: good_trace_def)
  moreover have "m \<in> fst ` set reg" if "reaches reg n m" for n m
    using reaches_known [OF that] by (auto dest: known_dom)
  ultimately show "{m. \<exists>n \<in> set ns. reaches reg n m} \<subseteq> set (vnames tr)"
    unfolding vn by blast
qed

lemma walks_full:
  "\<exists>tr seen'. good_trace reg ns [] {} seen' tr \<and> set (vnames tr) = {m. \<exists>n \<in> set ns. reaches reg n m} \<and>
     (\<forall>halt visit (out :: 's). \<not> halt out \<longrightarrow>
        snd (walks halt visit reg ns [] ([], out)) = run_until halt visit out tr)"
proof -
  obtain tr seen' where g: "good_trace reg ns [] (set []) (set seen') tr"
    and w: "\<forall>halt visit (out :: 's). \<not> halt out \<longrightarrow>
      snd (walks halt visit reg ns [] ([], out)) = run_until halt visit out tr \<and>
      (\<not> halt (run_until halt visit out tr) \<longrightarrow> fst (walks halt visit reg ns [] ([], out)) = seen')"
    using walks_trace_aux [where seen = "[]" and path = "[]" and reg = reg and ns = ns and ?'s = 's]
    by (elim exE conjE)
  have g': "good_trace reg ns [] {} (set seen') tr" using g by simp
  show ?thesis
    by (intro exI conjI, rule g', rule full_trace_names [OF g']) (simp add: w)
qed

section \<open>Kinds\<close>

definition visitPrompt :: "string \<Rightarrow> string list \<Rightarrow> 'l Target \<Rightarrow> string list option \<Rightarrow> string list option" where
  "visitPrompt n here t hit = (if tg_ConstructKind t = ConstructPrompt then Some here else hit)"

definition ReachesPrompt :: "string \<Rightarrow> 'l Registry \<Rightarrow> string list option" where
  "ReachesPrompt name reg = snd (walks (\<lambda>hit. hit \<noteq> None) visitPrompt reg [name] [] ([], None))"

datatype kind_error =
    UnknownStepType string
  | ErrDeterministicReachesPrompt string "string list"
  | KindMismatch string Kind Kind

definition StepTypeAppAnswer :: string where "StepTypeAppAnswer = ''app_answer''"

definition appStepTypes :: "string list" where
  "appStepTypes = [''exec'', ''fs_write'', ''fs_read'', ''fetch'', ''mcp'']"

definition DeriveKind :: "string \<Rightarrow> string \<Rightarrow> 'l Registry \<Rightarrow> kind_error + Kind" where
  "DeriveKind stepType target reg =
     (if stepType \<in> {''approval'', ''feedback'', ''wait''} then Inr KindHuman
      else if stepType = ''automation'' then Inr KindSubrun
      else if stepType = ''loop'' then Inr KindLoop
      else if stepType = ''spec'' then Inr KindDecision
      else if stepType = StepTypeAppAnswer then Inr KindReasoning
      else if target \<noteq> '''' \<and>
              (case map_of reg target of None \<Rightarrow> False | Some t \<Rightarrow> tg_ConstructKind t = ConstructSpec)
        then Inr KindDecision
      else if target \<noteq> '''' \<and> ReachesPrompt target reg \<noteq> None then Inr KindReasoning
      else if stepType \<in> set [''function'', ''action'', ''forEach'', ''parallel'', ''block'', ''event'',
                             ''expression'', ''return''] then Inr KindDeterministic
      else if stepType \<in> set appStepTypes then Inr KindDeterministic
      else Inl (UnknownStepType stepType))"

definition ValidateDeclaredKind :: "Kind \<Rightarrow> Kind \<Rightarrow> string \<Rightarrow> string list \<Rightarrow> kind_error option" where
  "ValidateDeclaredKind declared derived target promptPath =
     (if declared = KindUnset \<or> declared = derived then None
      else if declared = KindDeterministic \<and> derived = KindReasoning
        then Some (ErrDeterministicReachesPrompt target promptPath)
      else Some (KindMismatch target declared derived))"

lemma run_until_prompt:
  "run_until (\<lambda>hit. hit \<noteq> None) visitPrompt None tr =
     map_option (\<lambda>(n, p, t). p) (first_hit (\<lambda>(n, p, t). tg_ConstructKind t = ConstructPrompt) tr)"
  by (induction tr) (auto simp: visitPrompt_def Let_def)

text \<open>A prompt that can be reached by calls from a name.\<close>

definition prompt_under :: "'l Registry \<Rightarrow> string \<Rightarrow> string \<Rightarrow> bool" where
  "prompt_under reg n m \<longleftrightarrow> reaches reg n m \<and>
     (\<exists>t. map_of reg m = Some t \<and> tg_ConstructKind t = ConstructPrompt)"

lemma ReachesPrompt_trace:
  "\<exists>tr seen'. good_trace reg [name] [] {} seen' tr \<and> set (vnames tr) = {m. reaches reg name m} \<and>
     ReachesPrompt name reg = run_until (\<lambda>hit. hit \<noteq> None) visitPrompt None tr"
proof -
  obtain tr seen' where "good_trace reg [name] [] {} seen' tr"
    "set (vnames tr) = {m. \<exists>n \<in> set [name]. reaches reg n m}"
    "\<forall>halt visit (out :: string list option). \<not> halt out \<longrightarrow>
        snd (walks halt visit reg [name] [] ([], out)) = run_until halt visit out tr"
    using walks_full [where reg = reg and ns = "[name]" and ?'s = "string list option"] by blast
  then show ?thesis unfolding ReachesPrompt_def
    by (intro exI [of _ tr] exI [of _ seen']) simp
qed

lemma ReachesPrompt_path:
  assumes "ReachesPrompt name reg = Some p"
  shows "call_path reg p" "hd p = name" "prompt_under reg name (last p)"
proof -
  obtain tr seen' where tr: "good_trace reg [name] [] {} seen' tr"
    and R: "ReachesPrompt name reg = run_until (\<lambda>hit. hit \<noteq> None) visitPrompt None tr"
    using ReachesPrompt_trace by blast
  have "map_option (\<lambda>(n, p, t). p) (first_hit (\<lambda>(n, p, t). tg_ConstructKind t = ConstructPrompt) tr) = Some p"
    using assms R unfolding run_until_prompt by simp
  then obtain m t where "first_hit (\<lambda>(n, p, t). tg_ConstructKind t = ConstructPrompt) tr = Some (m, p, t)"
    by auto
  then have m: "(m, p, t) \<in> set tr" "tg_ConstructKind t = ConstructPrompt"
    unfolding first_hit_Some by auto
  note g = good_trace_visit [OF tr m(1)]
  show "call_path reg p" "hd p = name" "prompt_under reg name (last p)"
    using g m(2) call_path_reaches [OF g(3)] by (auto simp: prompt_under_def)
qed

lemma ReachesPrompt_iff: "ReachesPrompt name reg \<noteq> None \<longleftrightarrow> (\<exists>m. prompt_under reg name m)"
proof
  assume "ReachesPrompt name reg \<noteq> None"
  then show "\<exists>m. prompt_under reg name m" using ReachesPrompt_path(3) by blast
next
  assume "\<exists>m. prompt_under reg name m"
  then obtain m u where m: "reaches reg name m" "map_of reg m = Some u" "tg_ConstructKind u = ConstructPrompt"
    by (auto simp: prompt_under_def)
  obtain tr seen' where tr: "good_trace reg [name] [] {} seen' tr" "set (vnames tr) = {m. reaches reg name m}"
    and R: "ReachesPrompt name reg = run_until (\<lambda>hit. hit \<noteq> None) visitPrompt None tr"
    using ReachesPrompt_trace by blast
  have "m \<in> set (vnames tr)" using tr(2) m(1) by simp
  then obtain p t where "(m, p, t) \<in> set tr" by (auto simp: vnames_iff)
  moreover have "t = u" using good_trace_visit(1) [OF tr(1)] calculation m(2) by simp
  ultimately have "first_hit (\<lambda>(n, p, t). tg_ConstructKind t = ConstructPrompt) tr \<noteq> None"
    using m(3) unfolding first_hit_None by blast
  then show "ReachesPrompt name reg \<noteq> None" unfolding R run_until_prompt by simp
qed

section \<open>Footprints\<close>

definition IsSideEffect :: "Footprint \<Rightarrow> bool" where
  "IsSideEffect f \<longleftrightarrow> fo_Concepts f \<noteq> [] \<or> fo_Files f \<or> fo_Machine f \<or> fo_External f \<or> fo_Spend f"

definition merge :: "Footprint \<Rightarrow> Footprint \<Rightarrow> Footprint" where
  "merge f other = f\<lparr>fo_Concepts := fo_Concepts f @ fo_Concepts other,
     fo_Files := fo_Files f \<or> fo_Files other, fo_Machine := fo_Machine f \<or> fo_Machine other,
     fo_External := fo_External f \<or> fo_External other, fo_Spend := fo_Spend f \<or> fo_Spend other\<rparr>"

definition emptyFootprint :: Footprint where
  "emptyFootprint = \<lparr>fo_Concepts = [], fo_Files = False, fo_Machine = False, fo_External = False,
     fo_Spend = False\<rparr>"

definition visitFootprint :: "string \<Rightarrow> string list \<Rightarrow> 'l Target \<Rightarrow> Footprint \<Rightarrow> Footprint" where
  "visitFootprint n here t out =
     (if tg_ConstructKind t = ConstructMutation then
        (if tg_Concept t \<noteq> '''' then out\<lparr>fo_Concepts := fo_Concepts out @ [tg_Concept t]\<rparr> else out)
      else if tg_ConstructKind t \<in> {ConstructQuery, ConstructShape, ConstructSpec} then out
      else merge out (tg_Effects t))"

fun uniqueFrom :: "string set \<Rightarrow> string list \<Rightarrow> string list" where
  "uniqueFrom seen [] = []"
| "uniqueFrom seen (s # ss) =
     (if s = '''' \<or> s \<in> seen then uniqueFrom seen ss else s # uniqueFrom (insert s seen) ss)"

definition sortedUnique :: "string list \<Rightarrow> string list" where
  "sortedUnique ss = (if ss = [] then [] else sort (uniqueFrom {} ss))"

definition UnionFootprint :: "string list \<Rightarrow> 'l Registry \<Rightarrow> Footprint" where
  "UnionFootprint names reg =
     (let out = snd (walks (\<lambda>_. False) visitFootprint reg names [] ([], emptyFootprint))
      in out\<lparr>fo_Concepts := sortedUnique (fo_Concepts out)\<rparr>)"

text \<open>What one construct contributes by itself.\<close>

definition own_effect :: "'l Target \<Rightarrow> Footprint" where
  "own_effect t =
     (if tg_ConstructKind t = ConstructMutation
      then emptyFootprint\<lparr>fo_Concepts := if tg_Concept t \<noteq> '''' then [tg_Concept t] else []\<rparr>
      else if tg_ConstructKind t \<in> {ConstructQuery, ConstructShape, ConstructSpec} then emptyFootprint
      else tg_Effects t)"

lemma emptyFootprint_simps [simp]:
  "fo_Concepts emptyFootprint = []" "fo_Files emptyFootprint = False"
  "fo_Machine emptyFootprint = False" "fo_External emptyFootprint = False"
  "fo_Spend emptyFootprint = False"
  by (simp_all add: emptyFootprint_def)

lemma visitFootprint_merge: "visitFootprint n here t out = merge out (own_effect t)"
  by (simp add: visitFootprint_def own_effect_def merge_def emptyFootprint_def)

lemma run_until_footprint:
  "let f = run_until (\<lambda>_. False) visitFootprint out tr; es = map (\<lambda>(n, p, t). own_effect t) tr
   in set (fo_Concepts f) = set (fo_Concepts out) \<union> (\<Union>e \<in> set es. set (fo_Concepts e)) \<and>
      (fo_Files f \<longleftrightarrow> fo_Files out \<or> (\<exists>e \<in> set es. fo_Files e)) \<and>
      (fo_Machine f \<longleftrightarrow> fo_Machine out \<or> (\<exists>e \<in> set es. fo_Machine e)) \<and>
      (fo_External f \<longleftrightarrow> fo_External out \<or> (\<exists>e \<in> set es. fo_External e)) \<and>
      (fo_Spend f \<longleftrightarrow> fo_Spend out \<or> (\<exists>e \<in> set es. fo_Spend e))"
proof (induction tr arbitrary: out)
  case Nil
  show ?case by simp
next
  case (Cons v tr)
  obtain n p t where v: "v = (n, p, t)" by (cases v)
  show ?case using Cons.IH [of "merge out (own_effect t)"]
    by (simp add: v visitFootprint_merge Let_def merge_def Un_assoc disj_assoc)
qed

lemma uniqueFrom_props:
  "distinct (uniqueFrom seen ss) \<and> set (uniqueFrom seen ss) = set ss - seen - {''''}"
  by (induction seen ss rule: uniqueFrom.induct) auto

lemma sortedUnique_props:
  "sorted (sortedUnique ss)" "distinct (sortedUnique ss)" "set (sortedUnique ss) = set ss - {''''}"
  using uniqueFrom_props [of "{}" ss] by (auto simp: sortedUnique_def)

text \<open>The constructs a list of names reaches.\<close>

definition reached :: "string list \<Rightarrow> 'l Registry \<Rightarrow> 'l Target set" where
  "reached names reg = {t. \<exists>n \<in> set names. \<exists>m. reaches reg n m \<and> map_of reg m = Some t}"

lemma trace_targets:
  assumes "good_trace reg ns [] {} seen' tr"
  shows "(\<lambda>(n, p, t). t) ` set tr = reached ns reg"
proof -
  have vn: "set (vnames tr) = {m. \<exists>n \<in> set ns. reaches reg n m}"
    by (rule full_trace_names [OF assms])
  have "t \<in> reached ns reg" if "(m, p, t) \<in> set tr" for m p t
  proof -
    have "m \<in> set (vnames tr)" using that by (auto simp: vnames_iff)
    then show ?thesis
      using vn good_trace_visit(1) [OF assms that] by (auto simp: reached_def)
  qed
  moreover have "\<exists>m p. (m, p, t) \<in> set tr" if "t \<in> reached ns reg" for t
  proof -
    obtain n m where m: "n \<in> set ns" "reaches reg n m" "map_of reg m = Some t"
      using \<open>t \<in> reached ns reg\<close> by (auto simp: reached_def)
    then have "m \<in> set (vnames tr)" using vn by auto
    then obtain p t' where "(m, p, t') \<in> set tr" by (auto simp: vnames_iff)
    then show ?thesis using good_trace_visit(1) [OF assms] m(3) by auto
  qed
  ultimately show ?thesis by (force simp: image_iff)
qed

lemma UnionFootprint_union:
  "set (fo_Concepts (UnionFootprint ns reg)) =
     (\<Union>t \<in> reached ns reg. set (fo_Concepts (own_effect t))) - {''''}"
  "fo_Files (UnionFootprint ns reg) \<longleftrightarrow> (\<exists>t \<in> reached ns reg. fo_Files (own_effect t))"
  "fo_Machine (UnionFootprint ns reg) \<longleftrightarrow> (\<exists>t \<in> reached ns reg. fo_Machine (own_effect t))"
  "fo_External (UnionFootprint ns reg) \<longleftrightarrow> (\<exists>t \<in> reached ns reg. fo_External (own_effect t))"
  "fo_Spend (UnionFootprint ns reg) \<longleftrightarrow> (\<exists>t \<in> reached ns reg. fo_Spend (own_effect t))"
proof -
  obtain tr seen' where tr: "good_trace reg ns [] {} seen' tr"
    and w: "snd (walks (\<lambda>_. False) visitFootprint reg ns [] ([], emptyFootprint)) =
      run_until (\<lambda>_. False) visitFootprint emptyFootprint tr"
    using walks_full [where reg = reg and ns = ns and ?'s = Footprint] by auto
  have es: "set (map (\<lambda>(n, p, t). own_effect t) tr) = own_effect ` reached ns reg"
    using trace_targets [OF tr] by (force simp: image_iff)
  note F = run_until_footprint [of emptyFootprint tr, unfolded Let_def es]
  show "set (fo_Concepts (UnionFootprint ns reg)) =
      (\<Union>t \<in> reached ns reg. set (fo_Concepts (own_effect t))) - {''''}"
    using F by (simp add: UnionFootprint_def Let_def w sortedUnique_props)
  show "fo_Files (UnionFootprint ns reg) \<longleftrightarrow> (\<exists>t \<in> reached ns reg. fo_Files (own_effect t))"
    using F by (simp add: UnionFootprint_def Let_def w)
  show "fo_Machine (UnionFootprint ns reg) \<longleftrightarrow> (\<exists>t \<in> reached ns reg. fo_Machine (own_effect t))"
    using F by (simp add: UnionFootprint_def Let_def w)
  show "fo_External (UnionFootprint ns reg) \<longleftrightarrow> (\<exists>t \<in> reached ns reg. fo_External (own_effect t))"
    using F by (simp add: UnionFootprint_def Let_def w)
  show "fo_Spend (UnionFootprint ns reg) \<longleftrightarrow> (\<exists>t \<in> reached ns reg. fo_Spend (own_effect t))"
    using F by (simp add: UnionFootprint_def Let_def w)
qed

section \<open>Writes\<close>

record 'l Write =
  wr_Concept :: string
  wr_Mutation :: string
  wr_Path :: "string list"
  wr_Spec :: "'l WriteSpec"

definition zeroSpec :: "'l WriteSpec" where
  "zeroSpec = \<lparr>ws_Kind = '''', ws_NewRow = False, ws_Fields = []\<rparr>"

text \<open>Copying a spec before it is handed out is the identity on values.\<close>

definition visitWrite :: "string \<Rightarrow> string list \<Rightarrow> 'l Target \<Rightarrow> 'l Write list \<Rightarrow> 'l Write list" where
  "visitWrite n here t out =
     (if tg_ConstructKind t = ConstructMutation \<and> tg_Concept t \<noteq> ''''
      then out @ [\<lparr>wr_Concept = tg_Concept t, wr_Mutation = n, wr_Path = here,
             wr_Spec = (case tg_Write t of None \<Rightarrow> zeroSpec | Some spec \<Rightarrow> spec)\<rparr>]
      else out)"

fun pathLess :: "string list \<Rightarrow> string list \<Rightarrow> bool" where
  "pathLess [] b = (0 < length b)"
| "pathLess a [] = False"
| "pathLess (x # a) (y # b) = (if x \<noteq> y then x < y else pathLess a b)"

definition writeLess :: "'l Write \<Rightarrow> 'l Write \<Rightarrow> bool" where
  "writeLess a b =
     (if wr_Concept a \<noteq> wr_Concept b then wr_Concept a < wr_Concept b
      else if wr_Mutation a \<noteq> wr_Mutation b then wr_Mutation a < wr_Mutation b
      else pathLess (wr_Path a) (wr_Path b))"

text \<open>The stable sort, by the key that \<open>writeLess\<close> compares (\<open>writeLess_key\<close> below).\<close>

definition write_key :: "'l Write \<Rightarrow> string \<times> string \<times> string list" where
  "write_key w = (wr_Concept w, wr_Mutation w, wr_Path w)"

text \<open>The second loop; \<open>prev\<close> is the element before the current one.\<close>

fun dedupWrites :: "'l Write option \<Rightarrow> 'l Write list \<Rightarrow> 'l Write list" where
  "dedupWrites prev [] = []"
| "dedupWrites prev (w # ws) =
     (case prev of
        Some p \<Rightarrow> if \<not> writeLess p w then dedupWrites (Some w) ws else w # dedupWrites (Some w) ws
      | None \<Rightarrow> w # dedupWrites (Some w) ws)"

definition allWrites :: "string list \<Rightarrow> 'l Registry \<Rightarrow> 'l Write list" where
  "allWrites names reg =
     foldl (\<lambda>out root. snd (walks (\<lambda>_. False) visitWrite reg [root] [] ([], out))) [] names"

definition UnionWrites :: "string list \<Rightarrow> 'l Registry \<Rightarrow> 'l Write list" where
  "UnionWrites names reg = dedupWrites None (sort_key write_key (allWrites names reg))"

lemma pathLess_less: "pathLess a b \<longleftrightarrow> a < b"
  by (induction a b rule: pathLess.induct) (auto simp: less_le)

lemma writeLess_key: "writeLess a b \<longleftrightarrow> write_key a < write_key b"
  by (auto simp: writeLess_def write_key_def pathLess_less less_prod_simp)

definition own_write :: "string \<Rightarrow> string list \<Rightarrow> 'l Target \<Rightarrow> 'l Write list" where
  "own_write n here t = visitWrite n here t []"

lemma run_until_write:
  "run_until (\<lambda>_. False) visitWrite out tr = out @ concat (map (\<lambda>(n, p, t). own_write n p t) tr)"
  by (induction tr arbitrary: out) (auto simp: own_write_def visitWrite_def)

text \<open>A mutation that writes the concept \<open>c\<close> and is reached from the root \<open>n\<close>.\<close>

definition writes_from :: "'l Registry \<Rightarrow> string \<Rightarrow> string \<Rightarrow> string \<Rightarrow> bool" where
  "writes_from reg n m c \<longleftrightarrow> reaches reg n m \<and>
     (\<exists>t. map_of reg m = Some t \<and> tg_ConstructKind t = ConstructMutation \<and> tg_Concept t = c \<and> c \<noteq> '''')"

definition ok_write :: "'l Registry \<Rightarrow> string \<Rightarrow> 'l Write \<Rightarrow> bool" where
  "ok_write reg n w \<longleftrightarrow>
     call_path reg (wr_Path w) \<and> hd (wr_Path w) = n \<and> last (wr_Path w) = wr_Mutation w \<and>
     writes_from reg n (wr_Mutation w) (wr_Concept w) \<and>
     (\<exists>t. map_of reg (wr_Mutation w) = Some t \<and>
        wr_Spec w = (case tg_Write t of None \<Rightarrow> zeroSpec | Some spec \<Rightarrow> spec))"

lemma root_writes:
  "\<exists>ws. snd (walks (\<lambda>_. False) visitWrite reg [start] [] ([], out)) = out @ ws \<and>
     (\<forall>w \<in> set ws. ok_write reg start w) \<and>
     (\<forall>m c. writes_from reg start m c \<longrightarrow> (\<exists>w \<in> set ws. wr_Mutation w = m \<and> wr_Concept w = c))"
proof -
  obtain tr seen' where tr: "good_trace reg [start] [] {} seen' tr"
    and vn: "set (vnames tr) = {m. \<exists>n \<in> set [start]. reaches reg n m}"
    and w: "snd (walks (\<lambda>_. False) visitWrite reg [start] [] ([], out)) =
      run_until (\<lambda>_. False) visitWrite out tr"
    using walks_full [where reg = reg and ns = "[start]" and ?'s = "'a Write list"] by auto
  let ?ws = "concat (map (\<lambda>(n, p, t). own_write n p t) tr)"
  have "ok_write reg start w" if w: "w \<in> set ?ws" for w
  proof -
    obtain n p t where v: "(n, p, t) \<in> set tr" "w \<in> set (own_write n p t)" using w by auto
    note g = good_trace_visit [OF tr v(1)]
    have "reaches reg start n" using call_path_reaches [OF g(3)] g(4,5) by simp
    then show ?thesis using v(2) g
      by (auto simp: own_write_def visitWrite_def ok_write_def writes_from_def split: if_splits)
  qed
  moreover have "\<exists>w \<in> set ?ws. wr_Mutation w = m \<and> wr_Concept w = c" if "writes_from reg start m c" for m c
  proof -
    obtain t where t: "reaches reg start m" "map_of reg m = Some t" "tg_ConstructKind t = ConstructMutation"
      "tg_Concept t = c" "c \<noteq> ''''" using \<open>writes_from reg start m c\<close> by (auto simp: writes_from_def)
    then have "m \<in> set (vnames tr)" using vn by simp
    then obtain p t' where v: "(m, p, t') \<in> set tr" by (auto simp: vnames_iff)
    then have "t' = t" using good_trace_visit(1) [OF tr v] t(2) by simp
    then show ?thesis using v t
      by (intro bexI [of _ "hd (own_write m p t)"])
        (auto simp: own_write_def visitWrite_def intro!: bexI [of _ "(m, p, t)"])
  qed
  ultimately show ?thesis unfolding w run_until_write by (intro exI [of _ ?ws]) auto
qed

lemma allWrites_from:
  "\<exists>ws. foldl (\<lambda>out start. snd (walks (\<lambda>_. False) visitWrite reg [start] [] ([], out))) out names = out @ ws \<and>
     (\<forall>w \<in> set ws. \<exists>n \<in> set names. ok_write reg n w) \<and>
     (\<forall>n \<in> set names. \<forall>m c. writes_from reg n m c \<longrightarrow>
        (\<exists>w \<in> set ws. ok_write reg n w \<and> wr_Mutation w = m \<and> wr_Concept w = c))"
proof (induction names arbitrary: out)
  case Nil
  show ?case by simp
next
  case (Cons start names)
  obtain ws1 where a: "snd (walks (\<lambda>_. False) visitWrite reg [start] [] ([], out)) = out @ ws1"
    "\<forall>w \<in> set ws1. ok_write reg start w"
    "\<forall>m c. writes_from reg start m c \<longrightarrow> (\<exists>w \<in> set ws1. wr_Mutation w = m \<and> wr_Concept w = c)"
    using root_writes by blast
  obtain ws2 where b: "foldl (\<lambda>out start. snd (walks (\<lambda>_. False) visitWrite reg [start] [] ([], out)))
      (out @ ws1) names = (out @ ws1) @ ws2"
    "\<forall>w \<in> set ws2. \<exists>n \<in> set names. ok_write reg n w"
    "\<forall>n \<in> set names. \<forall>m c. writes_from reg n m c \<longrightarrow>
        (\<exists>w \<in> set ws2. ok_write reg n w \<and> wr_Mutation w = m \<and> wr_Concept w = c)"
    using Cons.IH [of "out @ ws1"] by blast
  show ?case
    using a b by (intro exI [of _ "ws1 @ ws2"]) (simp, blast)
qed

lemma dedupWrites_subset: "set (dedupWrites prev ws) \<subseteq> set ws"
  by (induction prev ws rule: dedupWrites.induct) (auto split: option.splits if_splits)

lemma dedupWrites_sorted:
  "sorted (map write_key ws) \<Longrightarrow>
   sorted_wrt writeLess (dedupWrites prev ws) \<and>
   (\<forall>p. prev = Some p \<longrightarrow> (\<forall>w \<in> set ws. write_key p \<le> write_key w) \<longrightarrow>
      (\<forall>w \<in> set (dedupWrites prev ws). writeLess p w))"
proof (induction ws arbitrary: prev)
  case Nil
  show ?case by simp
next
  case (Cons w ws)
  have "sorted (map write_key ws)" and ge: "\<forall>x \<in> set ws. write_key w \<le> write_key x"
    using Cons.prems by simp_all
  then have IH: "sorted_wrt writeLess (dedupWrites (Some w) ws)"
    "\<forall>x \<in> set (dedupWrites (Some w) ws). writeLess w x"
    using Cons.IH [of "Some w"] by blast+
  have later: "writeLess p x" if "write_key p \<le> write_key w" "x \<in> set (dedupWrites (Some w) ws)" for p x
  proof -
    have "write_key w < write_key x" using IH(2) that(2) by (simp add: writeLess_key)
    then show ?thesis using that(1) by (simp add: writeLess_key)
  qed
  show ?case
  proof (cases prev)
    case None
    then show ?thesis using IH by simp
  next
    case (Some p)
    then show ?thesis using IH later [of p] by auto
  qed
qed

lemma dedupWrites_keys:
  assumes "sorted (map write_key ws)"
  shows "w \<in> set ws \<Longrightarrow> write_key w \<in> write_key ` set (dedupWrites prev ws) \<or>
     (\<exists>p. prev = Some p \<and> write_key w \<le> write_key p)"
  using assms
proof (induction ws arbitrary: prev)
  case Nil
  then show ?case by simp
next
  case (Cons x ws)
  have tail: "w \<in> set ws \<Longrightarrow>
      write_key w \<in> write_key ` set (dedupWrites (Some x) ws) \<or> write_key w \<le> write_key x"
    using Cons.IH [of "Some x"] Cons.prems(2) by auto
  have le: "w \<in> set ws \<Longrightarrow> write_key x \<le> write_key w" using Cons.prems(2) by simp
  show ?case
  proof (cases "w = x \<or> write_key w = write_key x")
    case True
    then show ?thesis by (auto simp: writeLess_key split: option.splits)
  next
    case False
    then have "write_key w \<in> write_key ` set (dedupWrites (Some x) ws)"
      using tail le Cons.prems(1) by auto
    then show ?thesis by (auto split: option.splits)
  qed
qed

lemma UnionWrites_keys: "write_key ` set (UnionWrites names reg) = write_key ` set (allWrites names reg)"
proof
  let ?ws = "sort_key write_key (allWrites names reg)"
  show "write_key ` set (UnionWrites names reg) \<subseteq> write_key ` set (allWrites names reg)"
    using dedupWrites_subset [of None ?ws] by (auto simp: UnionWrites_def)
  show "write_key ` set (allWrites names reg) \<subseteq> write_key ` set (UnionWrites names reg)"
    using dedupWrites_keys [of ?ws _ None] by (auto simp: UnionWrites_def)
qed

section \<open>Postconditions\<close>

record Postcondition =
  pc_Kind :: string
  pc_Ref :: string
  pc_Passed :: bool
  pc_Message :: string

definition zeroPostcondition :: Postcondition where
  "zeroPostcondition = \<lparr>pc_Kind = '''', pc_Ref = '''', pc_Passed = False, pc_Message = ''''\<rparr>"

definition PostconditionSchema :: string where "PostconditionSchema = ''schema''"
definition PostconditionCheck :: string where "PostconditionCheck = ''check''"

definition Declared :: "Postcondition \<Rightarrow> bool" where
  "Declared p \<longleftrightarrow> pc_Kind p \<noteq> ''''"

definition DerivePostcondition :: "string \<Rightarrow> string \<Rightarrow> 'l Registry \<Rightarrow> Postcondition \<times> bool" where
  "DerivePostcondition callKind target reg =
     (if callKind = ''mutation'' then
        (let concept = (case map_of reg target of Some t \<Rightarrow> tg_Concept t | None \<Rightarrow> '''')
         in if concept = '''' then (zeroPostcondition, False)
            else (zeroPostcondition\<lparr>pc_Kind := PostconditionCheck, pc_Ref := ''rowWritten:'' @ concept\<rparr>, True))
      else if callKind = ''query'' then
        (if map_of reg target = None then (zeroPostcondition, False)
         else (zeroPostcondition\<lparr>pc_Kind := PostconditionSchema, pc_Ref := target\<rparr>, True))
      else (zeroPostcondition, False))"

text \<open>The refusal, when there is one, names the step.\<close>

definition RequirePostcondition :: "Kind \<Rightarrow> Postcondition \<Rightarrow> string \<Rightarrow> string option" where
  "RequirePostcondition kind pc stepKey =
     (if kind \<noteq> KindDeterministic \<or> Declared pc then None else Some stepKey)"

section \<open>Properties\<close>

definition is_spec :: "'l Registry \<Rightarrow> string \<Rightarrow> bool" where
  "is_spec reg target \<longleftrightarrow> (\<exists>t. map_of reg target = Some t \<and> tg_ConstructKind t = ConstructSpec)"

definition no_effects :: Footprint where "no_effects = emptyFootprint"

definition sample_registry :: "bool Registry" where
  "sample_registry =
     [(''plan'', \<lparr>tg_ConstructKind = ''logic'', tg_Calls = [''save'', ''plan'', ''draft''], tg_Concept = '''',
        tg_Effects = no_effects\<lparr>fo_Files := True\<rparr>, tg_Write = None\<rparr>),
      (''draft'', \<lparr>tg_ConstructKind = ''logic'', tg_Calls = [''plan'', ''ask''], tg_Concept = '''',
        tg_Effects = no_effects, tg_Write = None\<rparr>),
      (''ask'', \<lparr>tg_ConstructKind = ''prompt'', tg_Calls = [], tg_Concept = '''',
        tg_Effects = no_effects\<lparr>fo_Spend := True\<rparr>, tg_Write = None\<rparr>),
      (''save'', \<lparr>tg_ConstructKind = ''mutation'', tg_Calls = [], tg_Concept = ''row'',
        tg_Effects = no_effects, tg_Write = None\<rparr>)]"

text \<open>
  The walk for a prompt is exact and names its evidence: it answers that a construct reaches
  a prompt exactly when some chain of calls does, however the call graph cycles, and the path it
  returns is such a chain, from the construct to a prompt.
\<close>

theorem ReachesPrompt_exact:
  "(ReachesPrompt name reg \<noteq> None \<longleftrightarrow> (\<exists>m. prompt_under reg name m)) \<and>
   (ReachesPrompt name reg = Some p \<longrightarrow>
      call_path reg p \<and> hd p = name \<and> prompt_under reg name (last p))"
  using ReachesPrompt_iff [of name reg] ReachesPrompt_path [of name reg p] by simp

theorem ReachesPrompt_exact_witness:
  "ReachesPrompt ''plan'' sample_registry = Some [''plan'', ''draft'', ''ask''] \<and>
   call_path sample_registry [''plan'', ''draft'', ''ask'']"
proof -
  have "ReachesPrompt ''plan'' sample_registry = Some [''plan'', ''draft'', ''ask'']" by code_simp
  then show ?thesis
    using ReachesPrompt_exact [of "''plan''" sample_registry "[''plan'', ''draft'', ''ask'']"] by simp
qed



text \<open>
  The expected footprint is exactly the union of what is reached: the concepts are those of
  every construct reachable by calls from the step's names, sorted and without repetition, so the
  same step always writes the same row; each of the four flags is set exactly when some
  reachable construct has it; and reads contribute nothing.
\<close>

theorem UnionFootprint_exact:
  "sorted (fo_Concepts (UnionFootprint ns reg)) \<and> distinct (fo_Concepts (UnionFootprint ns reg)) \<and>
   set (fo_Concepts (UnionFootprint ns reg)) =
     (\<Union>t \<in> reached ns reg. set (fo_Concepts (own_effect t))) - {''''} \<and>
   (fo_Files (UnionFootprint ns reg) \<longleftrightarrow> (\<exists>t. t \<in> reached ns reg \<and> fo_Files (own_effect t))) \<and>
   (fo_Machine (UnionFootprint ns reg) \<longleftrightarrow> (\<exists>t. t \<in> reached ns reg \<and> fo_Machine (own_effect t))) \<and>
   (fo_External (UnionFootprint ns reg) \<longleftrightarrow> (\<exists>t. t \<in> reached ns reg \<and> fo_External (own_effect t))) \<and>
   (fo_Spend (UnionFootprint ns reg) \<longleftrightarrow> (\<exists>t. t \<in> reached ns reg \<and> fo_Spend (own_effect t)))"
  unfolding UnionFootprint_union
  by (auto simp: UnionFootprint_def Let_def sortedUnique_props)

text \<open>
  The list of writes is complete, sound and canonical: it is strictly ordered by concept,
  mutation and path, so no write is listed twice; every entry is a mutation with a concept
  reached from one of the names by the call path it prints, with that mutation's write spec; and
  every such mutation appears for every name that reaches it.
\<close>

theorem UnionWrites_exact:
  "sorted_wrt writeLess (UnionWrites names reg) \<and>
   (w \<in> set (UnionWrites names reg) \<longrightarrow> (\<exists>n \<in> set names. ok_write reg n w)) \<and>
   (n \<in> set names \<and> writes_from reg n m c \<longrightarrow>
      (\<exists>w \<in> set (UnionWrites names reg). hd (wr_Path w) = n \<and> wr_Mutation w = m \<and> wr_Concept w = c))"
proof (intro conjI impI)
  let ?ws = "sort_key write_key (allWrites names reg)"
  obtain ws where ws: "allWrites names reg = ws" "\<forall>w \<in> set ws. \<exists>n \<in> set names. ok_write reg n w"
     "\<forall>n \<in> set names. \<forall>m c. writes_from reg n m c \<longrightarrow>
        (\<exists>w \<in> set ws. ok_write reg n w \<and> wr_Mutation w = m \<and> wr_Concept w = c)"
    using allWrites_from [of reg "[]" names] unfolding allWrites_def by auto
  show "sorted_wrt writeLess (UnionWrites names reg)"
    unfolding UnionWrites_def using dedupWrites_sorted [of ?ws None] by simp
  show "\<exists>n \<in> set names. ok_write reg n w" if "w \<in> set (UnionWrites names reg)"
    using that ws dedupWrites_subset [of None ?ws] unfolding UnionWrites_def by auto
  assume "n \<in> set names \<and> writes_from reg n m c"
  then obtain w where w: "w \<in> set ws" "ok_write reg n w" "wr_Mutation w = m" "wr_Concept w = c"
    using ws(3) by blast
  then obtain w' where "w' \<in> set (UnionWrites names reg)" "write_key w' = write_key w"
    using UnionWrites_keys [of names reg] ws(1) by (metis (no_types, lifting) image_iff)
  then show "\<exists>w \<in> set (UnionWrites names reg). hd (wr_Path w) = n \<and> wr_Mutation w = m \<and> wr_Concept w = c"
    using w by (intro bexI [of _ w']) (auto simp: write_key_def ok_write_def)
qed

theorem UnionWrites_exact_witness:
  "\<exists>w \<in> set (UnionWrites [''draft''] sample_registry). hd (wr_Path w) = ''draft'' \<and>
     wr_Mutation w = ''save'' \<and> wr_Concept w = ''row''"
proof -
  have path: "call_path sample_registry [''draft'', ''plan'', ''save'']" by code_simp
  have "reaches sample_registry ''draft'' ''save''" using call_path_reaches [OF path] by simp
  then have "writes_from sample_registry ''draft'' ''save'' ''row''"
    by (simp add: writes_from_def sample_registry_def ConstructMutation_def)
  then show ?thesis
    using UnionWrites_exact [of "[''draft'']" sample_registry _ "''draft''" "''save''" "''row''"] by simp
qed

text \<open>
  A deterministic step is checked. The rule refuses exactly a deterministic step whose
  postcondition says nothing; a postcondition derived for free always satisfies it; and the one
  derived for a mutation names a concept of the footprint and of the writes of that same call.
\<close>

theorem deterministic_is_checked:
  "(RequirePostcondition kind pc key \<noteq> None \<longleftrightarrow> kind = KindDeterministic \<and> pc_Kind pc = '''') \<and>
   (DerivePostcondition callKind target reg = (pc, True) \<longrightarrow> RequirePostcondition kind pc key = None) \<and>
   (DerivePostcondition ''mutation'' target reg = (pc, True) \<and> map_of reg target = Some t \<and>
      tg_ConstructKind t = ConstructMutation \<longrightarrow>
      (\<exists>c. pc_Ref pc = ''rowWritten:'' @ c \<and> c \<in> set (fo_Concepts (UnionFootprint [target] reg)) \<and>
         writes_from reg target target c))"
proof (intro conjI impI)
  show "RequirePostcondition kind pc key \<noteq> None \<longleftrightarrow> kind = KindDeterministic \<and> pc_Kind pc = ''''"
    by (simp add: RequirePostcondition_def Declared_def)
  show "RequirePostcondition kind pc key = None" if "DerivePostcondition callKind target reg = (pc, True)"
    using that by (auto simp: RequirePostcondition_def Declared_def DerivePostcondition_def Let_def
        PostconditionCheck_def PostconditionSchema_def split: if_splits)
  assume A: "DerivePostcondition ''mutation'' target reg = (pc, True) \<and> map_of reg target = Some t \<and>
      tg_ConstructKind t = ConstructMutation"
  then have c: "tg_Concept t \<noteq> ''''" "pc_Ref pc = ''rowWritten:'' @ tg_Concept t"
    by (auto simp: DerivePostcondition_def Let_def split: if_splits)
  have r: "reaches reg target target" using A by (auto intro: reaches.here)
  then have "t \<in> reached [target] reg" using A by (auto simp: reached_def)
  then have "tg_Concept t \<in> set (fo_Concepts (UnionFootprint [target] reg))"
    unfolding UnionFootprint_union using A c by (auto simp: own_effect_def)
  moreover have "writes_from reg target target (tg_Concept t)" using A c r by (auto simp: writes_from_def)
  ultimately show "\<exists>c. pc_Ref pc = ''rowWritten:'' @ c \<and>
      c \<in> set (fo_Concepts (UnionFootprint [target] reg)) \<and> writes_from reg target target c"
    using c by blast
qed

theorem deterministic_is_checked_witness:
  "\<exists>c. pc_Ref (fst (DerivePostcondition ''mutation'' ''save'' sample_registry)) = ''rowWritten:'' @ c \<and>
     c \<in> set (fo_Concepts (UnionFootprint [''save''] sample_registry))"
proof -
  let ?pc = "fst (DerivePostcondition ''mutation'' ''save'' sample_registry)"
  let ?t = "the (map_of sample_registry ''save'')"
  have d: "DerivePostcondition ''mutation'' ''save'' sample_registry = (?pc, True)" by code_simp
  have m: "map_of sample_registry ''save'' = Some ?t" "tg_ConstructKind ?t = ConstructMutation"
    by (simp_all add: sample_registry_def ConstructMutation_def)
  show ?thesis
    using deterministic_is_checked [of KindDeterministic ?pc "''s''" "''mutation''" "''save''"
        sample_registry ?t] d m by blast
qed

end
