(* ===== verification/Head.thy ===== *)
theory Head
  imports Values "HOL-Library.Finite_Map" "HOL-Library.List_Lexorder" "HOL-Library.Char_ord"
begin

text \<open>
  A run's head and its steps' versions (component/work/head.go): which version of each step is
  current, what a re-run executes, what moving the head restores, and where a branch starts. A
  \<^verbatim>\<open>Head\<close> is a finite map; where the source ranges over one, the keys are taken in ascending
  order, which no result depends on.
\<close>

section \<open>Heads\<close>

record HeadEntry =
  he_Version :: int
  he_RunId :: string

type_synonym Head = "(string, HeadEntry) fmap"

datatype head_error =
    ErrStepNotInRun string
  | ErrNestedStep string
  | ErrVersionNotFound string int
  | ErrVersionNotDone string int string

definition parseEntry :: "Head \<Rightarrow> string \<times> any \<Rightarrow> Head" where
  "parseEntry out kv =
     (case kv of (key, raw) \<Rightarrow>
        case raw of
          JObj entry \<Rightarrow>
            let version = intOf (getf entry ''version'')
            in if version \<le> 0 then out
               else fmupd key \<lparr>he_Version = version, he_RunId = TrimSpace (asStr (getf entry ''runId''))\<rparr> out
        | _ \<Rightarrow> out)"

text \<open>\<open>None\<close> is the nil head.\<close>

definition ParseHead :: "any \<Rightarrow> Head option" where
  "ParseHead v =
     (case v of
        JObj m \<Rightarrow> let out = foldl parseEntry fmempty m in if out = fmempty then None else Some out
      | _ \<Rightarrow> None)"

definition entryObject :: "HeadEntry \<Rightarrow> (string \<times> any) list" where
  "entryObject e = (''version'', JInt (he_Version e)) #
     (if he_RunId e \<noteq> '''' then [(''runId'', JStr (he_RunId e))] else [])"

definition HeadObject :: "Head \<Rightarrow> (string \<times> any) list" where
  "HeadObject h = map (\<lambda>key. (key, JObj (entryObject (the (fmlookup h key))))) (sorted_list_of_fset (fmdom h))"

definition EqualHead :: "Head \<Rightarrow> Head \<Rightarrow> bool" where
  "EqualHead h o1 \<longleftrightarrow> fcard (fmdom h) = fcard (fmdom o1) \<and> fmpred (\<lambda>key e. fmlookup o1 key = Some e) h"

definition keysBefore :: "string list \<Rightarrow> string \<Rightarrow> string list" where
  "keysBefore order key = takeWhile (\<lambda>k. k \<noteq> key) order"

definition BasisFor :: "string list \<Rightarrow> Head \<Rightarrow> string \<Rightarrow> Head" where
  "BasisFor order head key =
     foldl (\<lambda>out k. case fmlookup head k of Some e \<Rightarrow> fmupd k e out | None \<Rightarrow> out) fmempty
       (keysBefore order key)"

definition PristineBasis :: "string list \<Rightarrow> string \<Rightarrow> Head" where
  "PristineBasis order key =
     foldl (\<lambda>out k. fmupd k \<lparr>he_Version = 1, he_RunId = ''''\<rparr> out) fmempty (keysBefore order key)"

definition IsPristine :: "Head \<Rightarrow> string list \<Rightarrow> string \<Rightarrow> bool" where
  "IsPristine basis order key = EqualHead basis (PristineBasis order key)"

section \<open>Versions\<close>

record StepVersion =
  sv_Key :: string
  sv_Version :: int
  sv_Basis :: Head
  sv_Status :: string

definition VersionOf :: "string list \<Rightarrow> string \<Rightarrow> int \<Rightarrow> any \<Rightarrow> string \<Rightarrow> StepVersion" where
  "VersionOf order key version storedBasis status =
     \<lparr>sv_Key = key, sv_Version = version,
      sv_Basis = (case ParseHead storedBasis of None \<Rightarrow> PristineBasis order key | Some b \<Rightarrow> b),
      sv_Status = status\<rparr>"

definition finished :: "StepVersion \<Rightarrow> bool" where
  "finished v \<longleftrightarrow> sv_Status v = ''done'' \<or> sv_Status v = ''skipped''"

text \<open>The recorded versions of each key; a key with none has the empty list.\<close>

type_synonym versions = "string \<Rightarrow> StepVersion list"

definition maxVersion :: "StepVersion list \<Rightarrow> int" where
  "maxVersion vs = foldl (\<lambda>m v. if sv_Version v > m then sv_Version v else m) 0 vs"

fun findVersion :: "StepVersion list \<Rightarrow> int \<Rightarrow> StepVersion option" where
  "findVersion [] version = None"
| "findVersion (v # vs) version = (if sv_Version v = version then Some v else findVersion vs version)"

definition newestMatching :: "StepVersion list \<Rightarrow> Head \<Rightarrow> StepVersion option" where
  "newestMatching vs want =
     first_hit (\<lambda>v. finished v \<and> EqualHead (sv_Basis v) want) (sort_key (\<lambda>v. - sv_Version v) vs)"

fun indexOf :: "nat \<Rightarrow> string list \<Rightarrow> string \<Rightarrow> nat option" where
  "indexOf i [] key = None"
| "indexOf i (k # ks) key = (if k = key then Some i else indexOf (i + 1) ks key)"

definition indexOfTopLevel :: "string list \<Rightarrow> string \<Rightarrow> head_error + nat" where
  "indexOfTopLevel order key =
     (if Contains key ''/'' then Inl (ErrNestedStep key)
      else (case indexOf 0 order key of Some i \<Rightarrow> Inr i | None \<Rightarrow> Inl (ErrStepNotInRun key)))"

definition NewestHead :: "string list \<Rightarrow> versions \<Rightarrow> Head" where
  "NewestHead order versions =
     foldl (\<lambda>out k. let v = maxVersion (versions k)
                    in if v > 0 then fmupd k \<lparr>he_Version = v, he_RunId = ''''\<rparr> out else out) fmempty order"

section \<open>Re-running, moving and forking\<close>

record RerunPlan =
  rp_From :: string
  rp_Versions :: "string \<rightharpoonup> int"
  rp_Stale :: "string list"

definition PlanRerun :: "string list \<Rightarrow> versions \<Rightarrow> string \<Rightarrow> head_error + RerunPlan" where
  "PlanRerun order versions key =
     (case indexOfTopLevel order key of
        Inl err \<Rightarrow> Inl err
      | Inr idx \<Rightarrow>
          Inr (foldl (\<lambda>plan k. plan\<lparr>rp_Versions := (rp_Versions plan)(k \<mapsto> maxVersion (versions k) + 1),
                                   rp_Stale := rp_Stale plan @ [k]\<rparr>)
                \<lparr>rp_From = key, rp_Versions = Map.empty, rp_Stale = []\<rparr> (drop idx order)))"

text \<open>The loop over the keys after the one moved: restore, or stop with what is stale.\<close>

fun restoreFrom :: "string list \<Rightarrow> versions \<Rightarrow> Head \<Rightarrow> string list \<Rightarrow> Head \<times> string list" where
  "restoreFrom order versions next [] = (next, [])"
| "restoreFrom order versions next (k # ks) =
     (case newestMatching (versions k) (BasisFor order next k) of
        None \<Rightarrow> (next, k # ks)
      | Some match \<Rightarrow>
          restoreFrom order versions (fmupd k \<lparr>he_Version = sv_Version match, he_RunId = ''''\<rparr> next) ks)"

definition takeBasis :: "Head \<Rightarrow> Head \<Rightarrow> string list \<Rightarrow> Head" where
  "takeBasis basis next ks =
     foldl (\<lambda>next k. case fmlookup basis k of Some e \<Rightarrow> fmupd k e next | None \<Rightarrow> next) next ks"

definition MoveHead ::
  "string list \<Rightarrow> Head \<Rightarrow> versions \<Rightarrow> string \<Rightarrow> int \<Rightarrow> head_error + (Head \<times> string list)" where
  "MoveHead order head versions key version =
     (case indexOfTopLevel order key of
        Inl err \<Rightarrow> Inl err
      | Inr idx \<Rightarrow>
          (case findVersion (versions key) version of
             None \<Rightarrow> Inl (ErrVersionNotFound key version)
           | Some target \<Rightarrow>
               if \<not> finished target then Inl (ErrVersionNotDone key version (sv_Status target))
               else
                 let next = takeBasis (sv_Basis target) head (take idx order);
                     next = fmupd key \<lparr>he_Version = version, he_RunId = ''''\<rparr> next
                 in Inr (restoreFrom order versions next (drop (idx + 1) order))))"

definition ForkAt :: "string list \<Rightarrow> Head \<Rightarrow> string \<Rightarrow> string \<Rightarrow> head_error + Head" where
  "ForkAt order source sourceRunId key =
     (case indexOfTopLevel order key of
        Inl err \<Rightarrow> Inl err
      | Inr idx \<Rightarrow>
          Inr (foldl (\<lambda>out k. case fmlookup source k of
                                None \<Rightarrow> out
                              | Some e \<Rightarrow> fmupd k (if he_RunId e = '''' then e\<lparr>he_RunId := sourceRunId\<rparr> else e) out)
                fmempty (take idx order)))"

section \<open>Lemmas\<close>

lemma EqualHead_iff [simp]: "EqualHead a b \<longleftrightarrow> a = b"
proof
  assume E: "EqualHead a b"
  have sub: "fmlookup b k = Some e" if "fmlookup a k = Some e" for k e
    using E that by (auto simp: EqualHead_def fmpred_iff)
  have "fmdom a |\<subseteq>| fmdom b" using sub by (meson fmlookup_dom_iff fsubsetI)
  then have "fmdom a = fmdom b"
    using E by (metis EqualHead_def fcard_seteq order_refl)
  then show "a = b"
    by (intro fmap_ext) (metis fmdom_notD fmlookup_dom_iff sub)
next
  assume "a = b"
  then show "EqualHead a b" by (simp add: EqualHead_def fmpred_iff)
qed

lemma foldl_pick:
  "fmlookup (foldl (\<lambda>out k. case f k of Some e \<Rightarrow> fmupd k e out | None \<Rightarrow> out) out ks) k =
     (if k \<in> set ks \<and> f k \<noteq> None then f k else fmlookup out k)"
  by (induction ks arbitrary: out) (auto split: option.splits)

lemma fmlookup_BasisFor:
  "fmlookup (BasisFor order head key) k = (if k \<in> set (keysBefore order key) then fmlookup head k else None)"
  by (simp add: BasisFor_def foldl_pick)

lemma fmlookup_takeBasis:
  "fmlookup (takeBasis basis next ks) k =
     (if k \<in> set ks \<and> fmlookup basis k \<noteq> None then fmlookup basis k else fmlookup next k)"
  by (simp add: takeBasis_def foldl_pick)

lemma keysBefore_append: "k \<notin> set pre \<Longrightarrow> keysBefore (pre @ k # post) k = pre"
  by (induction pre) (auto simp: keysBefore_def)

lemma BasisFor_cong:
  "(\<And>k. k \<in> set (keysBefore order key) \<Longrightarrow> fmlookup h k = fmlookup h' k) \<Longrightarrow>
   BasisFor order h key = BasisFor order h' key"
  by (rule fmap_ext) (simp add: fmlookup_BasisFor)

lemma indexOf_Some:
  "indexOf i ks key = Some j \<longleftrightarrow>
     (\<exists>pre post. ks = pre @ key # post \<and> key \<notin> set pre \<and> j = i + length pre)"
proof (induction i ks key rule: indexOf.induct)
  case (1 i key)
  show ?case by simp
next
  case (2 i k ks key)
  show ?case
  proof (cases "k = key")
    case True
    then show ?thesis by (auto simp: Cons_eq_append_conv)
  next
    case False
    have "(\<exists>pre post. k # ks = pre @ key # post \<and> key \<notin> set pre \<and> j = i + length pre) \<longleftrightarrow>
        (\<exists>pre post. ks = pre @ key # post \<and> key \<notin> set pre \<and> j = i + 1 + length pre)" (is "?l \<longleftrightarrow> ?r")
    proof
      assume ?l
      then show ?r using False by (auto simp: Cons_eq_append_conv)
    next
      assume ?r
      then obtain pre post where "ks = pre @ key # post" "key \<notin> set pre" "j = i + 1 + length pre" by blast
      then show ?l using False by (intro exI [of _ "k # pre"] exI [of _ post]) simp
    qed
    then show ?thesis using 2 False by simp
  qed
qed

lemma indexOf_None: "indexOf i ks key = None \<longleftrightarrow> key \<notin> set ks"
  by (induction i ks key rule: indexOf.induct) auto

lemma indexOfTopLevel_Inr:
  "indexOfTopLevel order key = Inr idx \<longleftrightarrow>
     \<not> Contains key ''/'' \<and> (\<exists>pre post. order = pre @ key # post \<and> key \<notin> set pre \<and> idx = length pre)"
  by (auto simp: indexOfTopLevel_def indexOf_Some indexOf_None split: option.splits)
    (metis indexOf_Some add_0 option.inject)+

lemma findVersion_Some: "findVersion vs n = Some v \<Longrightarrow> v \<in> set vs \<and> sv_Version v = n"
  by (induction vs n rule: findVersion.induct) (auto split: if_splits)

lemma findVersion_None: "findVersion vs n = None \<longleftrightarrow> (\<forall>v \<in> set vs. sv_Version v \<noteq> n)"
  by (induction vs n rule: findVersion.induct) auto

lemma newestMatching_None:
  "newestMatching vs want = None \<longleftrightarrow> (\<forall>v \<in> set vs. finished v \<longrightarrow> sv_Basis v \<noteq> want)"
  by (auto simp: newestMatching_def first_hit_None)

lemma newestMatching_Some:
  assumes "newestMatching vs want = Some v"
  shows "v \<in> set vs \<and> finished v \<and> sv_Basis v = want \<and>
    (\<forall>w \<in> set vs. finished w \<and> sv_Basis w = want \<longrightarrow> sv_Version w \<le> sv_Version v)"
proof -
  let ?s = "sort_key (\<lambda>v. - sv_Version v) vs"
  obtain a b where ab: "?s = a @ v # b" "finished v \<and> sv_Basis v = want"
    "\<forall>x \<in> set a. \<not> (finished x \<and> sv_Basis x = want)"
    using assms by (auto simp: newestMatching_def first_hit_Some)
  have "sorted (map (\<lambda>v. - sv_Version v) (a @ v # b))" using ab(1) by (metis sorted_sort_key)
  then have "\<forall>w \<in> set b. sv_Version w \<le> sv_Version v" by (auto simp: sorted_append)
  moreover have "set vs = set (a @ v # b)" using ab(1) by (metis set_sort)
  ultimately show ?thesis using ab by auto
qed

lemma foldl_max_ge:
  "m \<le> foldl (\<lambda>m v. if sv_Version v > m then sv_Version v else m) m vs \<and>
   (\<forall>v \<in> set vs. sv_Version v \<le> foldl (\<lambda>m v. if sv_Version v > m then sv_Version v else m) m vs)"
proof (induction vs arbitrary: m)
  case Nil
  show ?case by simp
next
  case (Cons v vs)
  let ?m = "if sv_Version v > m then sv_Version v else m"
  show ?case using Cons.IH [of ?m] by (auto split: if_splits)
qed

lemma maxVersion_ge: "0 \<le> maxVersion vs" "v \<in> set vs \<Longrightarrow> sv_Version v \<le> maxVersion vs"
  using foldl_max_ge [of 0 vs] by (auto simp: maxVersion_def)

text \<open>What the restoring loop leaves, for keys that occur once in the order.\<close>

definition restored :: "string list \<Rightarrow> versions \<Rightarrow> Head \<Rightarrow> string \<Rightarrow> bool" where
  "restored order versions next k \<longleftrightarrow>
     (\<exists>v \<in> set (versions k). finished v \<and> sv_Basis v = BasisFor order next k \<and>
        fmlookup next k = Some \<lparr>he_Version = sv_Version v, he_RunId = ''''\<rparr> \<and>
        (\<forall>w \<in> set (versions k). finished w \<and> sv_Basis w = BasisFor order next k \<longrightarrow>
           sv_Version w \<le> sv_Version v))"

lemma restored_cong:
  assumes "order = pre @ k # post" "k \<notin> set pre"
    and "\<And>k'. k' \<in> insert k (set pre) \<Longrightarrow> fmlookup n k' = fmlookup n' k'"
  shows "restored order versions n k \<longleftrightarrow> restored order versions n' k"
proof -
  have "BasisFor order n k = BasisFor order n' k"
    using assms by (intro BasisFor_cong) (simp add: keysBefore_append)
  then show ?thesis using assms(3) [of k] by (simp add: restored_def)
qed

lemma restoreFrom_spec:
  assumes "order = pre @ ks" "distinct order" "restoreFrom order versions next0 ks = (next', stale)"
  shows "\<exists>mid. ks = mid @ stale \<and> (\<forall>k. k \<notin> set mid \<longrightarrow> fmlookup next' k = fmlookup next0 k) \<and>
    (\<forall>k \<in> set mid. restored order versions next' k) \<and>
    (stale \<noteq> [] \<longrightarrow> (\<forall>v \<in> set (versions (hd stale)). finished v \<longrightarrow>
        sv_Basis v \<noteq> BasisFor order next' (hd stale)))"
  using assms
proof (induction ks arbitrary: pre next0)
  case Nil
  then show ?case by auto
next
  case (Cons k ks)
  have k: "order = pre @ k # ks" "k \<notin> set pre" "k \<notin> set ks" using Cons.prems by auto
  show ?case
  proof (cases "newestMatching (versions k) (BasisFor order next0 k)")
    case None
    then have "next' = next0" "stale = k # ks" using Cons.prems(3) by auto
    then show ?thesis using None unfolding newestMatching_None by (intro exI [of _ "[]"]) simp
  next
    case (Some v)
    let ?next = "fmupd k \<lparr>he_Version = sv_Version v, he_RunId = ''''\<rparr> next0"
    have "restoreFrom order versions ?next ks = (next', stale)" using Cons.prems(3) Some by simp
    then obtain mid where mid: "ks = mid @ stale" "\<forall>j. j \<notin> set mid \<longrightarrow> fmlookup next' j = fmlookup ?next j"
      "\<forall>j \<in> set mid. restored order versions next' j"
      "stale \<noteq> [] \<longrightarrow> (\<forall>v \<in> set (versions (hd stale)). finished v \<longrightarrow>
        sv_Basis v \<noteq> BasisFor order next' (hd stale))"
      using Cons.IH [of "pre @ [k]" ?next] Cons.prems by auto
    have same: "fmlookup next' j = fmlookup ?next j" if "j \<in> insert k (set pre)" for j
      using mid(1,2) that k Cons.prems(1,2) by auto
    have "BasisFor order ?next k = BasisFor order next0 k"
      using k by (intro BasisFor_cong) (auto simp: keysBefore_append)
    then have "restored order versions ?next k"
      using newestMatching_Some [OF Some] unfolding restored_def by (intro bexI [of _ v]) auto
    then have "restored order versions next' k"
      using restored_cong [OF k(1,2), of next' ?next] same by simp
    then show ?thesis using mid by (intro exI [of _ "k # mid"]) auto
  qed
qed

lemma PlanRerun_fold:
  "foldl (\<lambda>plan k. plan\<lparr>rp_Versions := (rp_Versions plan)(k \<mapsto> f k),
       rp_Stale := rp_Stale plan @ [k]\<rparr>) p ks =
   p\<lparr>rp_Versions := rp_Versions p ++ (\<lambda>k. if k \<in> set ks then Some (f k) else None),
     rp_Stale := rp_Stale p @ ks\<rparr>"
  by (induction ks arbitrary: p) (auto simp: fun_eq_iff map_add_def split: option.splits)

section \<open>The stored form\<close>

text \<open>
  A head that can be stored names positive versions and run ids with no space around them.
\<close>

definition head_ok :: "Head \<Rightarrow> bool" where
  "head_ok h \<longleftrightarrow> fmpred (\<lambda>_ e. 0 < he_Version e \<and> he_Version e \<le> MaxInt32 \<and>
     TrimSpace (he_RunId e) = he_RunId e) h"

lemma entry_back:
  assumes "0 < he_Version e" "he_Version e \<le> MaxInt32" "TrimSpace (he_RunId e) = he_RunId e"
  shows "parseEntry out (key, JObj (entryObject e)) = fmupd key e out"
    and "parseEntry out (key, jsonRead (JObj (entryObject e))) = fmupd key e out"
  using assms by (cases e; auto simp: parseEntry_def entryObject_def Let_def MinInt32_def)+

lemma foldl_entries:
  assumes "\<And>key. key \<in> set ks \<Longrightarrow> \<exists>e. fmlookup h key = Some e \<and> 0 < he_Version e \<and>
      he_Version e \<le> MaxInt32 \<and> TrimSpace (he_RunId e) = he_RunId e"
    and "\<And>v. back v = v \<or> back v = jsonRead v"
  shows "fmlookup (foldl parseEntry out
      (map (\<lambda>key. (key, back (JObj (entryObject (the (fmlookup h key)))))) ks)) k =
    (if k \<in> set ks then fmlookup h k else fmlookup out k)"
  using assms(1)
proof (induction ks arbitrary: out)
  case Nil
  then show ?case by simp
next
  case (Cons key ks)
  obtain e where e: "fmlookup h key = Some e" "0 < he_Version e" "he_Version e \<le> MaxInt32"
      "TrimSpace (he_RunId e) = he_RunId e"
    using Cons.prems [of key] by auto
  have "parseEntry out (key, back (JObj (entryObject e))) = fmupd key e out"
    using assms(2) [of "JObj (entryObject e)"] entry_back [OF e(2-4)] by auto
  then show ?case using Cons e by auto
qed

lemma ParseHead_back:
  assumes "head_ok h" "\<And>v. back v = v \<or> back v = jsonRead v"
    and "\<And>m. back (JObj m) = JObj (map (\<lambda>(k, v). (k, back v)) m)"
  shows "ParseHead (back (JObj (HeadObject h))) = (if h = fmempty then None else Some h)"
proof -
  let ?m = "map (\<lambda>key. (key, back (JObj (entryObject (the (fmlookup h key)))))) (sorted_list_of_fset (fmdom h))"
  have m: "back (JObj (HeadObject h)) = JObj ?m" by (simp add: assms(3) HeadObject_def)
  have "foldl parseEntry fmempty ?m = h"
  proof (rule fmap_ext)
    fix k
    have "\<exists>e. fmlookup h key = Some e \<and> 0 < he_Version e \<and> he_Version e \<le> MaxInt32 \<and>
        TrimSpace (he_RunId e) = he_RunId e" if "key \<in> set (sorted_list_of_fset (fmdom h))" for key
      using that assms(1) by (auto simp: head_ok_def fmpred_iff fmlookup_dom_iff)
    from foldl_entries [where ks = "sorted_list_of_fset (fmdom h)" and out = fmempty and k = k, OF this assms(2)]
    show "fmlookup (foldl parseEntry fmempty ?m) k = fmlookup h k"
      by (simp add: fmdom_notD)
  qed
  then show ?thesis by (simp add: ParseHead_def m Let_def)
qed

definition readHead :: "any \<Rightarrow> Head" where
  "readHead v = (case ParseHead v of None \<Rightarrow> fmempty | Some h \<Rightarrow> h)"

lemma readHead_plain: "head_ok h \<Longrightarrow> readHead (JObj (HeadObject h)) = h"
  using ParseHead_back [of h "\<lambda>v. v"] by (simp add: readHead_def case_prod_beta)

lemma readHead_row: "head_ok h \<Longrightarrow> readHead (jsonRead (JObj (HeadObject h))) = h"
  using ParseHead_back [of h jsonRead] by (simp add: readHead_def del: jsonRead.simps(5))
    (simp add: case_prod_beta)

interpretation head_row: stored_form "\<lambda>h. jsonRead (JObj (HeadObject h))" readHead "\<lambda>h. h" head_ok
  by unfold_locales (simp_all add: readHead_row del: jsonRead.simps)

section \<open>Properties\<close>

definition at_version :: "int \<Rightarrow> HeadEntry" where
  "at_version n = \<lparr>he_Version = n, he_RunId = ''''\<rparr>"

text \<open>
  C27. Moving the head draws a run that happened. When version n of a step is made current, that
  version finished; every earlier step its basis names takes the basis's version; the later
  steps split into a restored part, where each takes its newest finished version computed from
  exactly the versions now current before it, and a stale rest, which starts at the first step
  with no such version and whose entries are left as they were. Nothing outside the run's
  steps moves.
\<close>

theorem MoveHead_consistent:
  assumes "distinct order" and "MoveHead order head versions key n = Inr (next', stale)"
  shows "\<exists>pre mid target. order = pre @ key # mid @ stale \<and>
    target \<in> set (versions key) \<and> sv_Version target = n \<and> finished target \<and>
    fmlookup next' key = Some (at_version n) \<and>
    (\<forall>k \<in> set pre. fmlookup next' k =
       (case fmlookup (sv_Basis target) k of Some e \<Rightarrow> Some e | None \<Rightarrow> fmlookup head k)) \<and>
    (\<forall>k \<in> set mid. restored order versions next' k) \<and>
    (stale \<noteq> [] \<longrightarrow> (\<forall>v \<in> set (versions (hd stale)). finished v \<longrightarrow>
       sv_Basis v \<noteq> BasisFor order next' (hd stale))) \<and>
    (\<forall>k. k \<in> set stale \<or> k \<notin> set order \<longrightarrow> fmlookup next' k = fmlookup head k)"
proof -
  obtain idx target where idx: "indexOfTopLevel order key = Inr idx"
    and target: "findVersion (versions key) n = Some target" "finished target"
    using assms(2) by (auto simp: MoveHead_def split: sum.splits option.splits if_splits)
  obtain pre post where pp: "order = pre @ key # post" "key \<notin> set pre" "idx = length pre"
    using idx by (auto simp: indexOfTopLevel_Inr)
  let ?next = "fmupd key (at_version n) (takeBasis (sv_Basis target) head pre)"
  have "restoreFrom order versions ?next post = (next', stale)"
    using assms(2) idx target pp by (simp add: MoveHead_def Let_def at_version_def)
  then obtain mid where mid: "post = mid @ stale" "\<forall>k. k \<notin> set mid \<longrightarrow> fmlookup next' k = fmlookup ?next k"
    "\<forall>k \<in> set mid. restored order versions next' k"
    "stale \<noteq> [] \<longrightarrow> (\<forall>v \<in> set (versions (hd stale)). finished v \<longrightarrow>
        sv_Basis v \<noteq> BasisFor order next' (hd stale))"
    using restoreFrom_spec [of order "pre @ [key]" post versions ?next next' stale] assms(1) pp(1) by auto
  have d: "distinct (pre @ key # mid @ stale)" using assms(1) pp(1) mid(1) by simp
  show ?thesis
  proof (intro exI conjI)
    show "order = pre @ key # mid @ stale" using pp(1) mid(1) by simp
    show "target \<in> set (versions key)" "sv_Version target = n"
      using findVersion_Some [OF target(1)] by simp_all
    show "fmlookup next' key = Some (at_version n)" using mid(2) d by simp
    show "\<forall>k \<in> set pre. fmlookup next' k =
       (case fmlookup (sv_Basis target) k of Some e \<Rightarrow> Some e | None \<Rightarrow> fmlookup head k)"
      using mid(2) d by (auto simp: fmlookup_takeBasis split: option.splits)
    show "\<forall>k. k \<in> set stale \<or> k \<notin> set order \<longrightarrow> fmlookup next' k = fmlookup head k"
    proof (intro allI impI)
      fix k
      assume "k \<in> set stale \<or> k \<notin> set order"
      then have "k \<notin> set mid" "k \<noteq> key" "k \<notin> set pre" using d pp(1) mid(1) by (auto simp: disjoint_iff)
      then show "fmlookup next' k = fmlookup head k" using mid(2) by (simp add: fmlookup_takeBasis)
    qed
  qed (use target mid in auto)
qed

definition sample_versions :: versions where
  "sample_versions k =
     (if k = ''a'' then [VersionOf [''a'', ''b''] ''a'' 1 JNull ''done'', VersionOf [''a'', ''b''] ''a'' 2 JNull ''done'']
      else if k = ''b'' then [VersionOf [''a'', ''b''] ''b'' 1 JNull ''done''] else [])"

definition sample_head :: Head where
  "sample_head = fmupd ''a'' (at_version 2) fmempty"

lemma sample_move:
  "MoveHead [''a'', ''b''] sample_head sample_versions ''a'' 1 =
     Inr (fmupd ''b'' (at_version 1) (fmupd ''a'' (at_version 1) sample_head), [])"
proof -
  have b: "BasisFor [''a'', ''b''] (fmupd ''a'' (at_version 1) sample_head) ''b'' =
      PristineBasis [''a'', ''b''] ''b''"
    by (rule fmap_ext) (simp add: fmlookup_BasisFor PristineBasis_def keysBefore_def at_version_def)
  have "newestMatching (sample_versions ''b'') (PristineBasis [''a'', ''b''] ''b'') =
      Some (VersionOf [''a'', ''b''] ''b'' 1 JNull ''done'')"
    by (simp add: newestMatching_def sample_versions_def VersionOf_def ParseHead_def finished_def)
  then show ?thesis using b
    by (simp add: MoveHead_def indexOfTopLevel_def sample_versions_def VersionOf_def finished_def
        takeBasis_def at_version_def Let_def)
qed

theorem MoveHead_consistent_witness:
  "\<exists>pre mid target. [''a'', ''b''] = pre @ ''a'' # mid @ [] \<and> target \<in> set (sample_versions ''a'') \<and>
     sv_Version target = 1 \<and> (\<forall>k \<in> set mid. restored [''a'', ''b''] sample_versions
       (fmupd ''b'' (at_version 1) (fmupd ''a'' (at_version 1) sample_head)) k)"
proof -
  have "distinct [''a'', ''b'']" by simp
  from MoveHead_consistent [OF this sample_move] show ?thesis by blast
qed

text \<open>
  Moving the head fails only for a reason it names: the key is inside another step, is not a
  step of the run, has no such version, or that version did not finish; otherwise it returns a
  head.
\<close>

theorem MoveHead_total:
  "(\<exists>r. MoveHead order head versions key n = Inr r) \<longleftrightarrow>
     \<not> Contains key ''/'' \<and> key \<in> set order \<and>
     (\<exists>target. findVersion (versions key) n = Some target \<and> finished target)"
  by (auto simp: MoveHead_def indexOfTopLevel_def indexOf_None Let_def split: sum.splits option.splits)
    (metis indexOf_None option.distinct(1))+

text \<open>
  A re-run never reuses a version. The plan to re-run a step executes that step and every
  step after it, in order, and nothing before it; each runs as a version higher than every one
  the run records for it, and at least 1.
\<close>

theorem PlanRerun_fresh:
  assumes "PlanRerun order versions key = Inr plan"
  shows "\<exists>pre. order = pre @ rp_Stale plan \<and> key \<notin> set pre \<and> hd (rp_Stale plan) = key \<and>
    rp_From plan = key \<and> dom (rp_Versions plan) = set (rp_Stale plan) \<and>
    (\<forall>k v n. rp_Versions plan k = Some n \<longrightarrow> 1 \<le> n \<and> (v \<in> set (versions k) \<longrightarrow> sv_Version v < n))"
proof -
  obtain idx where idx: "indexOfTopLevel order key = Inr idx"
    and plan: "plan = \<lparr>rp_From = key, rp_Versions = (\<lambda>k. if k \<in> set (drop idx order)
        then Some (maxVersion (versions k) + 1) else None), rp_Stale = drop idx order\<rparr>"
    using assms by (auto simp: PlanRerun_def PlanRerun_fold split: sum.splits)
  obtain pre post where pp: "order = pre @ key # post" "key \<notin> set pre" "idx = length pre"
    using idx by (auto simp: indexOfTopLevel_Inr)
  show ?thesis
    using pp maxVersion_ge
    by (intro exI [of _ pre]) (auto simp: plan dom_def split: if_splits; fastforce)
qed

theorem PlanRerun_fresh_witness:
  "\<exists>plan. PlanRerun [''a'', ''b''] sample_versions ''b'' = Inr plan \<and> rp_Stale plan = [''b''] \<and>
     dom (rp_Versions plan) = set (rp_Stale plan)"
proof -
  let ?plan = "\<lparr>rp_From = ''b'', rp_Versions = [''b'' \<mapsto> 2], rp_Stale = [''b'']\<rparr>"
  have "PlanRerun [''a'', ''b''] sample_versions ''b'' = Inr ?plan"
    by (simp add: PlanRerun_def indexOfTopLevel_def sample_versions_def VersionOf_def maxVersion_def)
  then show ?thesis using PlanRerun_fresh [of "[''a'', ''b'']" sample_versions "''b''" ?plan] by auto
qed

text \<open>
  A branch starts from references. Forking at a step gives exactly the entries the source head
  has for the steps before it, each at the same version and pointing at the run that holds it:
  the run an entry already named, or else the source run.
\<close>

theorem ForkAt_references:
  assumes "ForkAt order source runId key = Inr h"
  shows "\<exists>pre post. order = pre @ key # post \<and> key \<notin> set pre \<and>
    (\<forall>k. fmlookup h k = (if k \<in> set pre then map_option
       (\<lambda>e. \<lparr>he_Version = he_Version e, he_RunId = if he_RunId e = '''' then runId else he_RunId e\<rparr>)
       (fmlookup source k) else None))"
proof -
  let ?f = "\<lambda>k. map_option (\<lambda>e. if he_RunId e = '''' then e\<lparr>he_RunId := runId\<rparr> else e) (fmlookup source k)"
  have pick: "(\<lambda>out k. case fmlookup source k of None \<Rightarrow> out
        | Some e \<Rightarrow> fmupd k (if he_RunId e = '''' then e\<lparr>he_RunId := runId\<rparr> else e) out) =
      (\<lambda>out k. case ?f k of Some e \<Rightarrow> fmupd k e out | None \<Rightarrow> out)"
    by (auto simp: fun_eq_iff split: option.splits)
  obtain idx where idx: "indexOfTopLevel order key = Inr idx" and
    h: "h = foldl (\<lambda>out k. case ?f k of Some e \<Rightarrow> fmupd k e out | None \<Rightarrow> out) fmempty (take idx order)"
    using assms by (auto simp: ForkAt_def pick split: sum.splits)
  obtain pre post where pp: "order = pre @ key # post" "key \<notin> set pre" "idx = length pre"
    using idx by (auto simp: indexOfTopLevel_Inr)
  have "fmlookup h k = (if k \<in> set pre then ?f k else None)" for k
    unfolding h foldl_pick by (simp add: pp)
  moreover have "?f k = map_option (\<lambda>e. \<lparr>he_Version = he_Version e,
      he_RunId = if he_RunId e = '''' then runId else he_RunId e\<rparr>) (fmlookup source k)" for k
    by (cases "fmlookup source k") auto
  ultimately show ?thesis using pp by (intro exI [of _ pre] exI [of _ post]) auto
qed

theorem ForkAt_references_witness:
  "\<exists>h. ForkAt [''a'', ''b''] sample_head ''r1'' ''b'' = Inr h \<and>
     fmlookup h ''a'' = Some \<lparr>he_Version = 2, he_RunId = ''r1''\<rparr>"
proof -
  let ?h = "fmupd ''a'' \<lparr>he_Version = 2, he_RunId = ''r1''\<rparr> fmempty"
  have "ForkAt [''a'', ''b''] sample_head ''r1'' ''b'' = Inr ?h"
    by (simp add: ForkAt_def indexOfTopLevel_def sample_head_def at_version_def)
  then show ?thesis
    using ForkAt_references [of "[''a'', ''b'']" sample_head "''r1''" "''b''" ?h] by auto
qed

text \<open>
  A head survives its stored form. Written as an object and read back, directly or through a
  row whose numbers come back as floats, a head with positive versions of at most 2147483647 and
  trimmed run ids is the head that was written, and two heads with the same stored form are
  equal.
\<close>

theorem Head_roundtrip:
  assumes "head_ok h"
  shows "readHead (JObj (HeadObject h)) = h \<and> readHead (jsonRead (JObj (HeadObject h))) = h \<and>
    (head_ok g \<and> jsonRead (JObj (HeadObject g)) = jsonRead (JObj (HeadObject h)) \<longrightarrow> g = h)"
  using readHead_plain [OF assms] head_row.dec_enc [OF assms] head_row.enc_inj [of g h] assms by blast

theorem Head_roundtrip_witness: "readHead (jsonRead (JObj (HeadObject sample_head))) = sample_head"
proof -
  have "head_ok sample_head"
    by (simp add: head_ok_def sample_head_def at_version_def MaxInt32_def fmpred_iff)
  then show ?thesis using Head_roundtrip [of sample_head sample_head] by blast
qed

end
