(* ===== verification/Symptom.thy ===== *)
theory Symptom
  imports Budget Values
begin

text \<open>
  What a run does about a failure: the symptom table and the acts (component/work/symptom.go), the
  failures that are terminal (terminal.go), the refusals that park a run (the codes of
  inference.go), the receipts matched in messages (outcome_recovery.go, unfinished_step.go) and
  the idempotency key of a side effect (idempotency.go). The sentence of a rule is named by the
  rule's id. \<^verbatim>\<open>sha256\<close> and the decoder of an unfinished-step receipt (base64 of JSON) are
  parameters.
\<close>

section \<open>Durations\<close>

text \<open>
  \<^verbatim>\<open>time.ParseDuration\<close>, as the ceiling matcher uses it: an optional sign, then numbers with an
  optional fraction, each followed by a unit. The value of a fraction is exact before it is
  truncated.
\<close>

definition unitMap :: "string \<Rightarrow> int option" where
  "unitMap u = map_of [(''ns'', 1), (''us'', 1000), ([CHR 0xC2, CHR 0xB5, CHR ''s''], 1000),
     ([CHR 0xCE, CHR 0xBC, CHR ''s''], 1000), (''ms'', 1000000), (''s'', 1000000000),
     (''m'', 60000000000), (''h'', 3600000000000)] u"

definition two63 :: int where "two63 = 9223372036854775808"

definition digitsVal :: "string \<Rightarrow> int" where
  "digitsVal ds = int (digits_val 0 ds)"

definition durationTerm :: "int \<Rightarrow> string \<Rightarrow> int \<Rightarrow> int option" where
  "durationTerm v fs unit =
     (if v > two63 div unit then None
      else let w = v * unit + (digitsVal fs * unit) div 10 ^ length fs
           in if w > two63 then None else Some w)"

function durationTerms :: "int \<Rightarrow> string \<Rightarrow> int option" where
  "durationTerms d s =
     (if s = [] then Some d
      else
        let ds = takeWhile is_digit s; s1 = dropWhile is_digit s;
            dotted = (s1 \<noteq> [] \<and> hd s1 = CHR ''.'');
            fs = (if dotted then takeWhile is_digit (tl s1) else []);
            s2 = (if dotted then dropWhile is_digit (tl s1) else s1);
            u = takeWhile (\<lambda>c. c \<noteq> CHR ''.'' \<and> \<not> is_digit c) s2;
            s3 = dropWhile (\<lambda>c. c \<noteq> CHR ''.'' \<and> \<not> is_digit c) s2
        in if ds = [] \<and> fs = [] then None
           else if digitsVal ds > two63 then None
           else if u = [] then None
           else (case unitMap u of
                   None \<Rightarrow> None
                 | Some unit \<Rightarrow>
                     (case durationTerm (digitsVal ds) fs unit of
                        None \<Rightarrow> None
                      | Some w \<Rightarrow> if d + w > two63 then None else durationTerms (d + w) s3)))"
  by pat_completeness auto

lemma length_dropWhile_less: "takeWhile P s \<noteq> [] \<Longrightarrow> length (dropWhile P s) < length s"
  by (cases s) (auto simp: less_Suc_eq_le length_dropWhile_le split: if_splits)

termination durationTerms
proof (relation "measure (\<lambda>(d, s). length s)", goal_cases)
  case 1
  show ?case by simp
next
  case (2 d s ds s1 dotted fs s2 u s3 unit w)
  have "length s3 < length s2" using 2 length_dropWhile_less by blast
  also have "length s2 \<le> length s1"
    using 2(4,6) length_dropWhile_le [of is_digit "tl s1"] by (auto intro: order_trans)
  also have "length s1 \<le> length s" using 2(3) length_dropWhile_le by blast
  finally show ?case by simp
qed

declare durationTerms.simps [simp del]

definition ParseDuration :: "string \<Rightarrow> int option" where
  "ParseDuration s0 =
     (let neg = (s0 \<noteq> [] \<and> hd s0 = CHR ''-'');
          s = (if s0 \<noteq> [] \<and> (hd s0 = CHR ''-'' \<or> hd s0 = CHR ''+'') then tl s0 else s0)
      in if s = ''0'' then Some 0
         else if s = [] then None
         else (case durationTerms 0 s of
                 None \<Rightarrow> None
               | Some d \<Rightarrow> if neg then Some (- d) else if d > two63 - 1 then None else Some d))"

section \<open>Symptoms, acts and signals\<close>

datatype Symptom =
    SymptomNone | SymptomTransient | SymptomEnvironment | SymptomContract | SymptomPlan | SymptomHuman
  | SymptomOther string

definition AllSymptoms :: "Symptom list" where
  "AllSymptoms = [SymptomNone, SymptomTransient, SymptomEnvironment, SymptomContract, SymptomPlan, SymptomHuman]"

definition Valid :: "Symptom \<Rightarrow> bool" where
  "Valid s = (s \<in> set AllSymptoms)"

datatype Act = ActRetry | ActHeal | ActRepair | ActReplan | ActAsk | ActOther string

definition ApprovalKindPlanReview :: string where "ApprovalKindPlanReview = ''planReview''"
definition ApprovalKindFeedback :: string where "ApprovalKindFeedback = ''feedback''"
definition RuleIdBudgetExhausted :: string where "RuleIdBudgetExhausted = ''human.budgetExhausted''"
definition RuleIdContextExhausted :: string where "RuleIdContextExhausted = ''human.contextExhausted''"
definition RuleIdComputerPermission :: string where "RuleIdComputerPermission = ''human.computerPermission''"

definition budgetExhaustedMarkers :: "string list" where
  "budgetExhaustedMarkers = [''insufficient_quota'', ''exceeded your current quota'',
     ''billing_hard_limit_reached'', ''credit balance is too low'', ''budget_exceeded_error'',
     ''llm kill-switch'']"

definition contextExhaustedMarkers :: "string list" where
  "contextExhaustedMarkers = [''context_length_exceeded'', ''context length exceeded'',
     ''maximum context length'', ''exceeds the context window'',
     ''input length exceeds the context length'', ''prompt is too long'',
     ''reduce the length of the messages'',
     ''context checkpoint did not free space; originals were retained'',
     ''context checkpoint budget exhausted; originals were retained'',
     ''context checkpoint cannot fit the active request, tool contracts and pending exchange; history retained'']"

datatype evidence_source = EvidenceSourceRules | EvidenceSourceModel | EvidenceSourceOther string

text \<open>A reason is the sentence of a rule, by its id, or a text of the failure itself.\<close>

datatype evidence_reason = RuleSentence string | Said string

record Evidence =
  ev_Tier :: string
  ev_Reason :: evidence_reason
  ev_RuleId :: string
  ev_Source :: evidence_source

record Signal =
  sg_ErrorCode :: string
  sg_ErrorMessage :: string
  sg_StepType :: string
  sg_PostconditionFailed :: bool
  sg_PreconditionFailed :: bool
  sg_RepeatedAction :: bool
  sg_Attempt :: int
  sg_RetriesSpent :: int
  sg_MaxRetries :: int

record rule =
  ru_id :: string
  ru_tier :: string
  ru_symptom :: Symptom
  ru_match :: "Signal \<Rightarrow> bool"

fun anyOf :: "string \<Rightarrow> string list \<Rightarrow> bool" where
  "anyOf haystack [] = False"
| "anyOf haystack (n # ns) = (Contains haystack n \<or> anyOf haystack ns)"

section \<open>Matchers\<close>

function FieldsFunc :: "(char \<Rightarrow> bool) \<Rightarrow> string \<Rightarrow> string list" where
  "FieldsFunc sep s =
     (case dropWhile sep s of
        [] \<Rightarrow> []
      | c # cs \<Rightarrow> (c # takeWhile (\<lambda>c. \<not> sep c) cs) # FieldsFunc sep (dropWhile (\<lambda>c. \<not> sep c) cs))"

  by pat_completeness auto

termination FieldsFunc
proof (relation "measure (\<lambda>(sep, s). length s)", goal_cases)
  case 1
  show ?case by simp
next
  case (2 sep s c cs)
  have "length (dropWhile (\<lambda>c. \<not> sep c) cs) \<le> length cs" by (rule length_dropWhile_le)
  also have "length cs < length s" using 2 length_dropWhile_le [of sep s] by simp
  finally show ?case by simp
qed

declare FieldsFunc.simps [simp del]

definition in_range :: "char \<Rightarrow> char \<Rightarrow> char \<Rightarrow> bool" where
  "in_range c a b \<longleftrightarrow> (of_char a :: nat) \<le> of_char c \<and> (of_char c :: nat) \<le> of_char b"

definition is_alnum :: "char \<Rightarrow> bool" where
  "is_alnum c \<longleftrightarrow> in_range c CHR ''a'' CHR ''z'' \<or> in_range c CHR ''A'' CHR ''Z'' \<or> in_range c CHR ''0'' CHR ''9''"

definition permissionCodes :: "string list" where
  "permissionCodes = [''consent_required'', ''computer_permission_refused'',
     ''computer_permission_path_refused'', ''computer_permission_unavailable'']"

definition computerPermissionSignal :: "Signal \<Rightarrow> bool" where
  "computerPermissionSignal s \<longleftrightarrow>
     sg_ErrorCode s \<in> set permissionCodes \<or>
     list_ex (\<lambda>token. token \<in> set permissionCodes)
       (FieldsFunc (\<lambda>c. \<not> (is_alnum c \<or> c = CHR ''_'')) (sg_ErrorMessage s))"

definition IsContextCapacityFailure :: "string \<Rightarrow> bool" where
  "IsContextCapacityFailure message = anyOf (ToLower message) contextExhaustedMarkers"

definition IsModelCallCeiling :: "string \<Rightarrow> bool" where
  "IsModelCallCeiling message =
     (case Cut (ToLower message) ''worker: model call exceeded its '' of
        None \<Rightarrow> False
      | Some (_, rest) \<Rightarrow>
          (case Cut rest '' ceiling'' of
             None \<Rightarrow> False
           | Some (limit, _) \<Rightarrow>
               (case ParseDuration limit of None \<Rightarrow> False | Some duration \<Rightarrow> duration > 0)))"

definition outcomeRecoveryMarker :: string where
  "outcomeRecoveryMarker = ''work_outcome_recovery_v1:''"

definition legacyOutcomeFailurePrefix :: string where
  "legacyOutcomeFailurePrefix =
     ''function \"runAgentTurn\" execution failed: runAgentTurn: invalid delegated work outcome:''"

definition OutcomeRecoveryError :: "string \<Rightarrow> string" where
  "OutcomeRecoveryError err = outcomeRecoveryMarker @ '' '' @ err"

definition IsLegacyOutcomeFailure :: "string \<Rightarrow> bool" where
  "IsLegacyOutcomeFailure message = HasPrefix message legacyOutcomeFailurePrefix"

definition IsOutcomeRecoveryFailure :: "string \<Rightarrow> bool" where
  "IsOutcomeRecoveryFailure message =
     (Contains message outcomeRecoveryMarker \<or> IsLegacyOutcomeFailure message)"

definition unfinishedStepMarker :: string where
  "unfinishedStepMarker = ''work_step_unfinished_v1:''"

text \<open>
  \<open>encode\<close> and \<open>decode\<close> are the receipt's wire form: the gap as a JSON object in unpadded URL-safe
  base64.
\<close>

definition UnfinishedStepError :: "(string \<Rightarrow> string) \<Rightarrow> string \<Rightarrow> string" where
  "UnfinishedStepError encode gap = unfinishedStepMarker @ encode gap"

definition UnfinishedStepGap :: "(string \<Rightarrow> string option) \<Rightarrow> string \<Rightarrow> string option" where
  "UnfinishedStepGap decode message =
     (case Cut message unfinishedStepMarker of
        None \<Rightarrow> None
      | Some (_, rest) \<Rightarrow>
          let tail = takeWhile (\<lambda>c. is_alnum c \<or> c = CHR ''-'' \<or> c = CHR ''_'') rest
          in if length tail > 2048 then None
             else (case decode tail of
                     None \<Rightarrow> None
                   | Some gap \<Rightarrow> if TrimSpace gap = '''' \<or> length gap > 1200 then None else Some gap))"

section \<open>The table\<close>

definition mk_rule :: "string \<Rightarrow> string \<Rightarrow> Symptom \<Rightarrow> (Signal \<Rightarrow> bool) \<Rightarrow> rule" where
  "mk_rule i tier sy m = \<lparr>ru_id = i, ru_tier = tier, ru_symptom = sy, ru_match = m\<rparr>"

definition rules :: "(string \<Rightarrow> string option) \<Rightarrow> rule list" where
  "rules decode =
     [mk_rule ''human.stalled'' ''escalate'' SymptomHuman (\<lambda>s. sg_RepeatedAction s),
      mk_rule ''contract.postcondition'' ''contract'' SymptomContract (\<lambda>s. sg_PostconditionFailed s),
      mk_rule RuleIdBudgetExhausted ''escalate'' SymptomHuman
        (\<lambda>s. sg_ErrorCode s = ''budget_exhausted'' \<or> anyOf (ToLower (sg_ErrorMessage s)) budgetExhaustedMarkers),
      mk_rule RuleIdContextExhausted ''escalate'' SymptomHuman
        (\<lambda>s. sg_ErrorCode s = ''context_length_exceeded'' \<or> IsContextCapacityFailure (sg_ErrorMessage s)),
      mk_rule ''human.outcomeRecovery'' ''escalate'' SymptomHuman
        (\<lambda>s. IsOutcomeRecoveryFailure (sg_ErrorMessage s)),
      mk_rule ''plan.unfinishedStep'' ''plan'' SymptomPlan
        (\<lambda>s. UnfinishedStepGap decode (sg_ErrorMessage s) \<noteq> None),
      mk_rule ''plan.modelCallCeiling'' ''plan'' SymptomPlan (\<lambda>s. IsModelCallCeiling (sg_ErrorMessage s)),
      mk_rule ''plan.materializerDraft'' ''plan'' SymptomPlan
        (\<lambda>s. Contains (ToLower (sg_ErrorMessage s)) ''materializer: invalid draft:''),
      mk_rule ''plan.imageSource'' ''plan'' SymptomPlan
        (\<lambda>s. Contains (ToLower (sg_ErrorMessage s)) ''image source unusable:''),
      mk_rule RuleIdComputerPermission ''escalate'' SymptomHuman computerPermissionSignal,
      mk_rule ''transient.rateLimit'' ''retryable'' SymptomTransient
        (\<lambda>s. sg_ErrorCode s = ''rate_limited'' \<or>
           anyOf (ToLower (sg_ErrorMessage s)) [''rate limit'', ''too many requests'', ''429'']),
      mk_rule ''transient.timeout'' ''retryable'' SymptomTransient
        (\<lambda>s. sg_ErrorCode s = ''timeout'' \<or>
           anyOf (ToLower (sg_ErrorMessage s)) [''deadline exceeded'', ''timeout'', ''timed out'', ''i/o timeout'',
             ''stopped producing output past the idle ceiling'']),
      mk_rule ''transient.unavailable'' ''retryable'' SymptomTransient
        (\<lambda>s. anyOf (ToLower (sg_ErrorMessage s)) [''service unavailable'', ''503'', ''502 bad gateway'',
             ''temporarily unavailable'']),
      mk_rule ''transient.network'' ''retryable'' SymptomTransient
        (\<lambda>s. anyOf (ToLower (sg_ErrorMessage s)) [''connection refused'', ''connection reset'', ''no such host'',
             ''broken pipe'', ''eof'', ''network is unreachable'', ''stream ended without a completion frame'']),
      mk_rule ''environment.permission'' ''environment'' SymptomEnvironment
        (\<lambda>s. sg_ErrorCode s = ''forbidden'' \<or> sg_ErrorCode s = ''permission_denied'' \<or>
           anyOf (ToLower (sg_ErrorMessage s)) [''permission denied'', ''forbidden'', ''not authorized'',
             ''unauthorized'', ''access denied'', ''403'']),
      mk_rule ''environment.notFound'' ''environment'' SymptomEnvironment
        (\<lambda>s. sg_ErrorCode s = ''not_found'' \<or>
           anyOf (ToLower (sg_ErrorMessage s)) [''no such file or directory'', ''not found'', ''404'', ''does not exist'']),
      mk_rule ''environment.literal'' ''environment'' SymptomEnvironment (\<lambda>s. sg_PreconditionFailed s)]"

definition rule_evidence :: "Signal \<Rightarrow> rule \<Rightarrow> Symptom \<times> Evidence" where
  "rule_evidence s r =
     (ru_symptom r,
      \<lparr>ev_Tier = ru_tier r,
       ev_Reason = (if ru_id r = RuleIdComputerPermission \<and> TrimSpace (sg_ErrorMessage s) \<noteq> ''''
                    then Said (sg_ErrorMessage s) else RuleSentence (ru_id r)),
       ev_RuleId = ru_id r, ev_Source = EvidenceSourceRules\<rparr>)"

definition ClassifyByRules :: "(string \<Rightarrow> string option) \<Rightarrow> Signal \<Rightarrow> (Symptom \<times> Evidence) option" where
  "ClassifyByRules decode s =
     map_option (rule_evidence s) (first_hit (\<lambda>r. ru_match r s) (rules decode))"

section \<open>Acts\<close>

definition ActFor :: "Symptom \<Rightarrow> int \<Rightarrow> int \<Rightarrow> Act" where
  "ActFor sy retriesSpent maxRetries =
     (let again = retriesSpent < maxRetries
      in case sy of
           SymptomTransient \<Rightarrow> if again then ActRetry else ActAsk
         | SymptomEnvironment \<Rightarrow> ActHeal
         | SymptomContract \<Rightarrow> if again then ActRepair else ActAsk
         | SymptomPlan \<Rightarrow> if again then ActReplan else ActAsk
         | _ \<Rightarrow> ActAsk)"

definition SpendsRetry :: "Act \<Rightarrow> bool" where
  "SpendsRetry a \<longleftrightarrow> a = ActRetry \<or> a = ActRepair \<or> a = ActReplan"

definition ActsAgain :: "Symptom \<Rightarrow> bool" where
  "ActsAgain sy = SpendsRetry (ActFor sy 0 1)"

definition ApprovalKindFor :: "Act \<Rightarrow> string" where
  "ApprovalKindFor a =
     (case a of ActHeal \<Rightarrow> ApprovalKindPlanReview | ActAsk \<Rightarrow> ApprovalKindFeedback | _ \<Rightarrow> '''')"

definition ApprovalKindForVerdict :: "Act \<Rightarrow> Evidence \<Rightarrow> string" where
  "ApprovalKindForVerdict a ev =
     (if a = ActAsk \<and> ev_RuleId ev = RuleIdBudgetExhausted then ApprovalKindFeedback
      else ApprovalKindFor a)"

section \<open>Terminal failures and inference refusals\<close>

definition TerminalSelfTimeout :: string where "TerminalSelfTimeout = ''self_timeout''"
definition TerminalCompositionFailed :: string where "TerminalCompositionFailed = ''composition_failed''"
definition TerminalLoopDepthExceeded :: string where "TerminalLoopDepthExceeded = ''loop_depth_exceeded''"

definition terminalFailureCodes :: "string list" where
  "terminalFailureCodes = [TerminalLoopDepthExceeded, TerminalCompositionFailed, TerminalSelfTimeout]"

definition selfImposedClockMarkers :: "string list" where
  "selfImposedClockMarkers = [''turn wallclock timeout'']"

definition TerminalFailureCode :: "string \<Rightarrow> string option" where
  "TerminalFailureCode errorMessage =
     (let msg = ToLower errorMessage
      in if msg = '''' then None
         else (case first_hit (Contains msg) terminalFailureCodes of
                 Some code \<Rightarrow> Some code
               | None \<Rightarrow> if first_hit (Contains msg) selfImposedClockMarkers \<noteq> None
                         then Some TerminalSelfTimeout else None))"

datatype terminal_reason = CompositionReason | SelfTimeoutReason | LoopDepthReason | OtherTerminalReason

definition TerminalReason :: "string \<Rightarrow> terminal_reason" where
  "TerminalReason code =
     (if code = TerminalCompositionFailed then CompositionReason
      else if code = TerminalSelfTimeout then SelfTimeoutReason
      else if code = TerminalLoopDepthExceeded then LoopDepthReason
      else OtherTerminalReason)"

definition RefusalNoLocalModel :: string where "RefusalNoLocalModel = ''no_local_model_available''"
definition RefusalNoApp :: string where "RefusalNoApp = ''no_app_available''"
definition RefusalEveryDoorShut :: string where "RefusalEveryDoorShut = ''every_door_shut''"
definition RefusalCeilingReached :: string where "RefusalCeilingReached = ''ceiling_reached''"

definition inferenceRefusalCodes :: "string list" where
  "inferenceRefusalCodes = [RefusalNoLocalModel, RefusalEveryDoorShut, RefusalCeilingReached, RefusalNoApp]"

definition InferenceRefusalCode :: "string \<Rightarrow> string option" where
  "InferenceRefusalCode errorMessage =
     (let msg = ToLower errorMessage
      in if msg = '''' then None else first_hit (Contains msg) inferenceRefusalCodes)"

section \<open>Idempotency\<close>

definition IdempotencyKey :: "string \<Rightarrow> string \<Rightarrow> int \<Rightarrow> string" where
  "IdempotencyKey runId stepKey attempt = runId @ '':'' @ stepKey @ '':'' @ itoa attempt"

definition OutboundRequestId :: "(string \<Rightarrow> string) \<Rightarrow> string \<Rightarrow> string \<Rightarrow> int \<Rightarrow> string" where
  "OutboundRequestId sha256hex runId stepKey attempt = sha256hex (IdempotencyKey runId stepKey attempt)"

section \<open>Lemmas\<close>

lemma anyOf_iff: "anyOf h ns \<longleftrightarrow> (\<exists>n \<in> set ns. Contains h n)"
  by (induction ns) auto

lemma anyOf_wrap: "anyOf (ToLower m) ns \<Longrightarrow> anyOf (ToLower (a @ m @ b)) ns"
  unfolding anyOf_iff by (auto intro: Contains_append)

interpretation symptom_rules: first_match_table "rules decode" "\<lambda>r s. ru_match r s"
    "\<lambda>s. first_hit (\<lambda>r. ru_match r s) (rules decode)" for decode
  by unfold_locales simp

interpretation refusal_codes: first_match_table inferenceRefusalCodes "\<lambda>code m. Contains (ToLower m) code"
    InferenceRefusalCode
  by unfold_locales (auto simp: InferenceRefusalCode_def Let_def inferenceRefusalCodes_def
      RefusalNoLocalModel_def RefusalNoApp_def RefusalEveryDoorShut_def RefusalCeilingReached_def)

lemmas act_defs = ActFor_def SpendsRetry_def Let_def

lemma ActFor_spends_iff:
  "SpendsRetry (ActFor sy n k) \<longleftrightarrow> n < k \<and> sy \<in> {SymptomTransient, SymptomContract, SymptomPlan}"
  by (cases sy) (auto simp: act_defs)

text \<open>
  The failure path of one run: each failure brings a symptom, the act is taken on the retries
  already spent, and an act that runs the work again spends one.
\<close>

definition fail_step :: "int \<Rightarrow> int \<times> nat \<Rightarrow> Symptom \<Rightarrow> int \<times> nat" where
  "fail_step maxRetries st sy =
     (let (spent, again) = st
      in if SpendsRetry (ActFor sy spent maxRetries) then (spent + 1, again + 1) else (spent, again))"

interpretation failures: event_machine "fail_step maxRetries"
    "\<lambda>(spent, again). spent = int again \<and> int again \<le> max 0 maxRetries" for maxRetries
  by unfold_locales (auto simp: fail_step_def ActFor_spends_iff Let_def split: if_splits)

lemma ru_match_mk [simp]: "ru_match (mk_rule i t s m) = m" "ru_symptom (mk_rule i t s m) = s"
  "ru_id (mk_rule i t s m) = i" "ru_tier (mk_rule i t s m) = t"
  by (simp_all add: mk_rule_def)

text \<open>The signals that wear a transient's clothes: a stall, a spent budget, a full context.\<close>

definition exhausted :: "Signal \<Rightarrow> bool" where
  "exhausted s \<longleftrightarrow> sg_RepeatedAction s \<or> sg_ErrorCode s \<in> {''budget_exhausted'', ''context_length_exceeded''} \<or>
     anyOf (ToLower (sg_ErrorMessage s)) (budgetExhaustedMarkers @ contextExhaustedMarkers)"

lemma anyOf_append: "anyOf h (a @ b) \<longleftrightarrow> anyOf h a \<or> anyOf h b"
  by (auto simp: anyOf_iff)

lemma exhausted_first:
  assumes "exhausted s" "sg_RepeatedAction s \<or> \<not> sg_PostconditionFailed s"
  shows "\<exists>ev. ClassifyByRules decode s = Some (SymptomHuman, ev)"
proof -
  obtain rest where R: "rules decode =
     mk_rule ''human.stalled'' ''escalate'' SymptomHuman (\<lambda>s. sg_RepeatedAction s) #
     mk_rule ''contract.postcondition'' ''contract'' SymptomContract (\<lambda>s. sg_PostconditionFailed s) #
     mk_rule RuleIdBudgetExhausted ''escalate'' SymptomHuman
        (\<lambda>s. sg_ErrorCode s = ''budget_exhausted'' \<or> anyOf (ToLower (sg_ErrorMessage s)) budgetExhaustedMarkers) #
     mk_rule RuleIdContextExhausted ''escalate'' SymptomHuman
        (\<lambda>s. sg_ErrorCode s = ''context_length_exceeded'' \<or> IsContextCapacityFailure (sg_ErrorMessage s)) # rest"
    unfolding rules_def by blast
  have "\<exists>r. first_hit (\<lambda>r. ru_match r s) (rules decode) = Some r \<and> ru_symptom r = SymptomHuman"
    using assms unfolding R exhausted_def anyOf_append by (auto simp: IsContextCapacityFailure_def)
  then show ?thesis by (auto simp: ClassifyByRules_def rule_evidence_def)
qed

lemma itoa_no_colon: "CHR '':'' \<notin> set (itoa n)"
proof -
  have "\<not> is_digit CHR '':''" by (simp add: is_digit_def)
  then show ?thesis using digits_all by (auto simp: itoa_def)
qed

lemma itoa_inj: "itoa m = itoa n \<Longrightarrow> m = n"
proof -
  have "CHR ''-'' \<notin> set (digits k)" for k
    using digits_all [of k] by (auto simp: is_digit_def)
  then have sign: "digits k \<noteq> ''-'' @ digits j" for k j by (metis append_Cons list.set_intros(1))
  assume "itoa m = itoa n"
  then show "m = n"
    using sign sign [symmetric] digits_inj [of "nat (- m)" "nat (- n)"] digits_inj [of "nat m" "nat n"]
    by (auto simp: itoa_def split: if_splits)
qed

section \<open>Properties\<close>

definition quota_signal :: Signal where
  "quota_signal = \<lparr>sg_ErrorCode = ''rate_limited'', sg_ErrorMessage = ''429: Insufficient_Quota'',
     sg_StepType = ''function'', sg_PostconditionFailed = False, sg_PreconditionFailed = False,
     sg_RepeatedAction = False, sg_Attempt = 1, sg_RetriesSpent = 0, sg_MaxRetries = 3\<rparr>"

text \<open>
  C28. What no retry clears is never retried. A stalled action, a spent budget for paid calls or a
  full context window, wherever its marker stands in the message and whatever transient words or
  code come with it, is classified for a person, and the act asks whatever is left of the retry
  budget. Only a failed postcondition of an action that did not stall is named before it.
\<close>

theorem exhaustion_asks:
  assumes "exhausted s" and "sg_RepeatedAction s \<or> \<not> sg_PostconditionFailed s"
  shows "\<exists>ev. ClassifyByRules decode s = Some (SymptomHuman, ev) \<and>
    ActFor SymptomHuman spent maxRetries = ActAsk"
  using exhausted_first [OF assms] by (simp add: act_defs)

theorem exhaustion_asks_witness:
  "exhausted quota_signal \<and> (\<exists>ev. ClassifyByRules (\<lambda>_. None) quota_signal = Some (SymptomHuman, ev))"
proof -
  have e: "exhausted quota_signal" by code_simp
  have "\<not> sg_PostconditionFailed quota_signal" by (simp add: quota_signal_def)
  then show ?thesis using exhaustion_asks [OF e, of "\<lambda>_. None" 0 3] e by blast
qed


definition retry_ceiling :: Ceilings where
  "retry_ceiling = \<lparr>cl_TokenBudget = 0, cl_CostCeiling = 0, cl_WallClockMs = 0, cl_MaxRetries = 2,
     cl_MaxModelCalls = 0, cl_MaxEvents = 0\<rparr>"


text \<open>
  A code survives the wrapping of its message. Whatever text a caller puts around it, a message
  that carried a terminal failure or an inference refusal still carries one, and always one of
  the closed set; a loop-depth refusal keeps its own code.
\<close>

theorem codes_survive_wrapping:
  "(TerminalFailureCode m \<noteq> None \<longrightarrow> TerminalFailureCode (a @ m @ b) \<noteq> None) \<and>
   (InferenceRefusalCode m \<noteq> None \<longrightarrow> InferenceRefusalCode (a @ m @ b) \<noteq> None) \<and>
   (TerminalFailureCode m = Some code \<longrightarrow> code \<in> set terminalFailureCodes) \<and>
   (InferenceRefusalCode m = Some code \<longrightarrow> code \<in> set inferenceRefusalCodes) \<and>
   (Contains (ToLower m) TerminalLoopDepthExceeded \<longrightarrow>
      TerminalFailureCode (a @ m @ b) = Some TerminalLoopDepthExceeded)"
proof (intro conjI impI)
  have hit: "first_hit (Contains (ToLower (a @ m @ b))) cs \<noteq> None"
    if "first_hit (Contains (ToLower m)) cs \<noteq> None" for cs
    using that Contains_append [of "ToLower m" _ "ToLower a" "ToLower b"]
    by (auto simp: first_hit_None simp del: not_None_eq)
  have iff: "TerminalFailureCode x \<noteq> None \<longleftrightarrow> x \<noteq> [] \<and>
      (first_hit (Contains (ToLower x)) terminalFailureCodes \<noteq> None \<or>
       first_hit (Contains (ToLower x)) selfImposedClockMarkers \<noteq> None)" for x
    by (auto simp: TerminalFailureCode_def Let_def ToLower_def split: option.splits)
  show "TerminalFailureCode (a @ m @ b) \<noteq> None" if "TerminalFailureCode m \<noteq> None"
    using that hit unfolding iff by blast
  show "InferenceRefusalCode (a @ m @ b) \<noteq> None" if "InferenceRefusalCode m \<noteq> None"
    using that hit [of inferenceRefusalCodes]
    by (auto simp: InferenceRefusalCode_def Let_def ToLower_def split: if_splits)
  show "code \<in> set inferenceRefusalCodes" if "InferenceRefusalCode m = Some code"
    using refusal_codes.classified_hits [OF that] by simp
  show "code \<in> set terminalFailureCodes" if "TerminalFailureCode m = Some code"
    using that by (auto simp: TerminalFailureCode_def Let_def first_hit_Some terminalFailureCodes_def
        split: if_splits option.splits)
  assume "Contains (ToLower m) TerminalLoopDepthExceeded"
  then have "Contains (ToLower (a @ m @ b)) TerminalLoopDepthExceeded" by (simp add: Contains_append)
  moreover have "ToLower (a @ m @ b) \<noteq> []"
    using calculation by (auto simp: TerminalLoopDepthExceeded_def)
  ultimately show "TerminalFailureCode (a @ m @ b) = Some TerminalLoopDepthExceeded"
    by (simp add: TerminalFailureCode_def Let_def terminalFailureCodes_def)
qed

theorem codes_survive_wrapping_witness:
  "TerminalFailureCode (''step 3: '' @ ''Loop_depth_exceeded'' @ ''!'') = Some TerminalLoopDepthExceeded"
proof -
  have "Contains (ToLower ''Loop_depth_exceeded'') TerminalLoopDepthExceeded" by code_simp
  then show ?thesis
    using codes_survive_wrapping [of "''Loop_depth_exceeded''" "''step 3: ''" "''!''" "''''"] by blast
qed

text \<open>
  Two attempts never share an idempotency key: for run ids without a colon, whatever a step key
  carries, the key determines the run, the step and the attempt.
\<close>

theorem IdempotencyKey_inj:
  assumes "CHR '':'' \<notin> set runId" and "CHR '':'' \<notin> set runId'"
    and "IdempotencyKey runId stepKey attempt = IdempotencyKey runId' stepKey' attempt'"
  shows "runId = runId' \<and> stepKey = stepKey' \<and> attempt = attempt'"
proof -
  have run: "runId = runId'" and "stepKey @ '':'' @ itoa attempt = stepKey' @ '':'' @ itoa attempt'"
    using append_sep_cancel [OF assms(1,2)] assms(3) by (simp_all add: IdempotencyKey_def)
  then have "rev (itoa attempt) @ '':'' @ rev stepKey = rev (itoa attempt') @ '':'' @ rev stepKey'"
    by (metis append.assoc rev_append rev_singleton_conv)
  then have "rev (itoa attempt) = rev (itoa attempt') \<and> rev stepKey = rev stepKey'"
    using append_sep_cancel [of "CHR '':''" "rev (itoa attempt)" "rev (itoa attempt')" "rev stepKey" "rev stepKey'"]
      itoa_no_colon by simp
  then show ?thesis using run itoa_inj by simp
qed

theorem IdempotencyKey_inj_witness:
  "IdempotencyKey ''run1'' ''a:b'' 1 \<noteq> IdempotencyKey ''run1'' ''a'' 2"
  using IdempotencyKey_inj [of "''run1''" "''run1''" "''a:b''" 1 "''a''" 2] by auto

text \<open>
  The kind of approval raised for a verdict is the one of its act, for every verdict: an
  exhausted budget is asked about as feedback, like any other question.
\<close>

theorem ApprovalKindForVerdict_is_ApprovalKindFor: "ApprovalKindForVerdict a ev = ApprovalKindFor a"
  by (simp add: ApprovalKindForVerdict_def ApprovalKindFor_def)

end
