(* ===== verification/Workspace.thy ===== *)
theory Workspace
  imports Values CallGraph
begin

text \<open>
  Recorded files and where a procedure replays: workspace paths and the replay target
  (component/work/target.go), the workspace rebuilt before a branch (snapshot.go) and what a
  recorded action says about files (recorded.go). \<^verbatim>\<open>path.Clean\<close> is modelled on the segments of a
  slash-separated path.
\<close>

section \<open>Paths\<close>

definition IsAbs :: "string \<Rightarrow> bool" where
  "IsAbs p \<longleftrightarrow> HasPrefix p ''/''"

definition clean_seg :: "bool \<Rightarrow> string list \<Rightarrow> string \<Rightarrow> string list" where
  "clean_seg rooted acc s =
     (if s = '''' \<or> s = ''.'' then acc
      else if s = ''..'' then
        (if acc \<noteq> [] \<and> last acc \<noteq> ''..'' then butlast acc
         else if rooted then acc else acc @ [''..''])
      else acc @ [s])"

definition clean_segs :: "bool \<Rightarrow> string list \<Rightarrow> string list" where
  "clean_segs rooted ss = foldl (clean_seg rooted) [] ss"

definition PathClean :: "string \<Rightarrow> string" where
  "PathClean p =
     (if p = '''' then ''.''
      else let segs = clean_segs (IsAbs p) (Split p CHR ''/'')
           in if IsAbs p then ''/'' @ Join segs ''/''
              else if segs = [] then ''.'' else Join segs ''/'')"

section \<open>The replay target\<close>

type_synonym ReplayTarget = string

definition TargetWorkbench :: ReplayTarget where "TargetWorkbench = ''workbench''"
definition TargetMachine :: ReplayTarget where "TargetMachine = ''machine''"

definition leavesWorkspace :: "string \<Rightarrow> string \<Rightarrow> bool" where
  "leavesWorkspace cwd p0 =
     (let p = TrimSpace p0
      in if p = '''' then False
         else if HasPrefix p ''~'' then True
         else if \<not> IsAbs p then
           (let rel = PathClean p in rel = ''..'' \<or> HasPrefix rel ''../'')
         else
           let wd = TrimSpace cwd
           in if \<not> IsAbs wd then True
              else let wd = PathClean wd
                   in if wd = ''/'' then True
                      else let abs = PathClean p in abs \<noteq> wd \<and> \<not> HasPrefix abs (wd @ ''/''))"

definition ActionFootprint :: "string \<Rightarrow> string \<Rightarrow> string list \<Rightarrow> Footprint" where
  "ActionFootprint tool cwd paths =
     (let fp = (if tool = ''exec'' \<or> tool = ''fs_write'' then emptyFootprint\<lparr>fo_Files := True\<rparr>
                else if tool = ''fetch'' then emptyFootprint\<lparr>fo_External := True\<rparr>
                else if tool = ''fs_read'' \<or> tool = ''mcp'' \<or> tool = StepTypeAppAnswer then emptyFootprint
                else emptyFootprint\<lparr>fo_Machine := True\<rparr>)
      in if list_ex (leavesWorkspace cwd) paths then fp\<lparr>fo_Machine := True\<rparr> else fp)"

definition ReplayTargetFor :: "Footprint \<Rightarrow> ReplayTarget" where
  "ReplayTargetFor fp = (if fo_Machine fp then TargetMachine else TargetWorkbench)"

datatype target_error = ErrMachineLocalOnWorkbench | NotAReplayTarget string

definition CheckTarget :: "Footprint \<Rightarrow> ReplayTarget \<Rightarrow> target_error option" where
  "CheckTarget fp target =
     (if target = TargetWorkbench then (if fo_Machine fp then Some ErrMachineLocalOnWorkbench else None)
      else if target = TargetMachine then None
      else Some (NotAReplayTarget target))"

section \<open>Snapshots\<close>

record FileEffect =
  fe_Order :: int
  fe_Path :: string
  fe_FileId :: string
  fe_Omitted :: string

record SnapshotFile =
  sf_Path :: string
  sf_FileId :: string

record Snapshot =
  sn_Files :: "SnapshotFile list"
  sn_UnrecordedCommands :: int

text \<open>A refusal names the path and why its content is missing.\<close>

datatype snapshot_error = SnapshotOmittedError string string

definition cleanWorkspacePath :: "string \<Rightarrow> string" where
  "cleanWorkspacePath p0 =
     (let p = TrimSpace p0
      in if p = '''' then ''''
         else let c = PathClean p in if c = ''.'' then '''' else TrimPrefix c ''./'')"

definition recordLatest :: "(string \<rightharpoonup> FileEffect) \<Rightarrow> FileEffect \<Rightarrow> (string \<rightharpoonup> FileEffect)" where
  "recordLatest latest e =
     (let p = cleanWorkspacePath (fe_Path e)
      in if p = '''' then latest else latest(p \<mapsto> e\<lparr>fe_Path := p\<rparr>))"

fun snapshotFiles :: "(string \<rightharpoonup> FileEffect) \<Rightarrow> string list \<Rightarrow> snapshot_error + SnapshotFile list" where
  "snapshotFiles latest [] = Inr []"
| "snapshotFiles latest (p # ps) =
     (let e = the (latest p)
      in if fe_FileId e = '''' \<or> fe_Omitted e \<noteq> '''' then Inl (SnapshotOmittedError p (fe_Omitted e))
         else (case snapshotFiles latest ps of
                 Inl err \<Rightarrow> Inl err
               | Inr fs \<Rightarrow> Inr (\<lparr>sf_Path = p, sf_FileId = fe_FileId e\<rparr> # fs)))"

text \<open>The keys of the map are the cleaned, non-empty paths of the effects.\<close>

definition effectPaths :: "FileEffect list \<Rightarrow> string list" where
  "effectPaths effects =
     sort (remdups (filter (\<lambda>p. p \<noteq> '''') (map (\<lambda>e. cleanWorkspacePath (fe_Path e)) effects)))"

definition SnapshotOf :: "FileEffect list \<Rightarrow> int \<Rightarrow> snapshot_error + Snapshot" where
  "SnapshotOf effects unrecordedCommands =
     (let sorted = sort_key fe_Order effects;
          latest = foldl recordLatest Map.empty sorted
      in (case snapshotFiles latest (effectPaths effects) of
            Inl err \<Rightarrow> Inl err
          | Inr fs \<Rightarrow> Inr \<lparr>sn_Files = fs, sn_UnrecordedCommands = unrecordedCommands\<rparr>))"

definition SnapshotObject :: "Snapshot \<Rightarrow> (string \<times> any) list" where
  "SnapshotObject s =
     [(''files'', JArr (map (\<lambda>f. JObj [(''path'', JStr (sf_Path f)), (''fileId'', JStr (sf_FileId f))]) (sn_Files s))),
      (''unrecordedCommands'', JInt (sn_UnrecordedCommands s))]"

fun asArr :: "any \<Rightarrow> any list" where
  "asArr (JArr vs) = vs"
| "asArr _ = []"

definition parseFile :: "any \<Rightarrow> SnapshotFile list" where
  "parseFile r =
     (let f = asObj r; p = asStr (getf f ''path''); i = asStr (getf f ''fileId'')
      in if p \<noteq> '''' \<and> i \<noteq> '''' then [\<lparr>sf_Path = p, sf_FileId = i\<rparr>] else [])"

definition ParseSnapshot :: "any \<Rightarrow> Snapshot option" where
  "ParseSnapshot v =
     (case v of
        JObj m \<Rightarrow> Some \<lparr>sn_Files = concat (map parseFile (asArr (getf m ''files''))),
                       sn_UnrecordedCommands = intOf (getf m ''unrecordedCommands'')\<rparr>
      | _ \<Rightarrow> None)"

section \<open>Recorded actions\<close>

definition WorkspaceRelative :: "string \<Rightarrow> string \<Rightarrow> string" where
  "WorkspaceRelative workspace p0 =
     (let p = TrimSpace p0; ws = TrimSpace workspace
      in if p = '''' then ''''
         else if \<not> IsAbs p \<or> \<not> IsAbs ws then PathClean p
         else let ws = PathClean ws; abs = PathClean p
              in if ws \<noteq> ''/'' \<and> HasPrefix abs (ws @ ''/'') then TrimPrefix abs (ws @ ''/'') else abs)"

text \<open>\<^verbatim>\<open>strings.LastIndex\<close>, as the text before and after the last occurrence.\<close>

fun CutLast :: "string \<Rightarrow> string \<Rightarrow> (string \<times> string) option" where
  "CutLast [] n = (if n = [] then Some ([], []) else None)"
| "CutLast (c # s) n =
     (case CutLast s n of
        Some (a, b) \<Rightarrow> Some (c # a, b)
      | None \<Rightarrow> if HasPrefix (c # s) n then Some ([], drop (length n) (c # s)) else None)"

definition ParseOmitted :: "string \<Rightarrow> string \<times> string \<times> string" where
  "ParseOmitted entry =
     (case Cut entry '': '' of
        None \<Rightarrow> ('''', '''', '''')
      | Some (p, rest) \<Rightarrow>
          let why = TrimSpace rest
          in case CutLast why ''(sha256 '' of
               Some (before, after) \<Rightarrow>
                 if HasSuffix why '')''
                 then (TrimSpace p, TrimSpace before, ToLower (TrimSpace (butlast after)))
                 else (TrimSpace p, why, '''')
             | None \<Rightarrow> (TrimSpace p, why, ''''))"

definition recordedPathKeys :: "string list" where
  "recordedPathKeys = [''path'', ''file'', ''file_path'', ''filePath'', ''filepath'', ''filename'',
     ''targetPath'', ''target_path'', ''directory'', ''dir'', ''cwd'', ''notebook_path'']"

text \<open>
  The walk over the arguments. An entry of an object is read with its key; an entry of a list only
  when it is an object.
\<close>

fun pathsIn :: "string option \<Rightarrow> any \<Rightarrow> string list" where
  "pathsIn (Some k) (JStr t) =
     (if k \<in> set recordedPathKeys \<and> TrimSpace t \<noteq> '''' then [TrimSpace t] else [])"
| "pathsIn key (JObj m) = concat (map (\<lambda>(k, v). pathsIn (Some k) v) m)"
| "pathsIn (Some k) (JArr es) = concat (map (pathsIn None) es)"
| "pathsIn _ _ = []"

definition RecordedPaths :: "(string \<times> any) list \<Rightarrow> string list" where
  "RecordedPaths args = sort (pathsIn None (JObj args))"

text \<open>\<open>parse\<close> is the JSON decoder; the second component is whether the call is reproducible.\<close>

definition RecordedArgs ::
  "(string \<Rightarrow> any option) \<Rightarrow> (string \<times> any) list \<Rightarrow> (string \<times> any) list \<times> bool" where
  "RecordedArgs parse data =
     (if asBool (getf data ''argsTruncated'') then ([], False)
      else (case getf data ''args'' of
              JNull \<Rightarrow> ([], True)
            | JObj m \<Rightarrow> (m, True)
            | JStr raw \<Rightarrow>
                if TrimSpace raw = '''' then ([], True)
                else (case parse raw of
                        Some (JObj m) \<Rightarrow> (m, True)
                      | _ \<Rightarrow> ([(''_raw'', JStr raw)], True))
            | other \<Rightarrow> ([(''_raw'', other)], True)))"

section \<open>Lemmas on paths\<close>

definition plain_seg :: "string \<Rightarrow> bool" where
  "plain_seg s \<longleftrightarrow> s \<noteq> '''' \<and> s \<noteq> ''.'' \<and> s \<noteq> ''..'' \<and> CHR ''/'' \<notin> set s"

text \<open>
  Cleaned segments: some number of climbs, none when rooted, then plain segments.
\<close>

definition cleaned :: "bool \<Rightarrow> nat \<Rightarrow> string list \<Rightarrow> string list \<Rightarrow> bool" where
  "cleaned rooted k m acc \<longleftrightarrow>
     acc = replicate k ''..'' @ m \<and> (\<forall>s \<in> set m. plain_seg s) \<and> (rooted \<longrightarrow> k = 0)"

lemma clean_seg_cleaned:
  assumes "cleaned rooted k m acc" "CHR ''/'' \<notin> set s"
  shows "\<exists>k' m'. cleaned rooted k' m' (clean_seg rooted acc s)"
proof -
  consider (skip) "s = '''' \<or> s = ''.''" | (up) "s = ''..''" | (plain) "plain_seg s"
    using assms(2) by (auto simp: plain_seg_def)
  then show ?thesis
  proof cases
    case skip
    then show ?thesis using assms(1) by (auto simp: clean_seg_def)
  next
    case plain
    then show ?thesis using assms(1)
      by (intro exI [of _ k] exI [of _ "m @ [s]"]) (auto simp: cleaned_def clean_seg_def plain_seg_def)
  next
    case up
    show ?thesis
    proof (cases m rule: rev_cases)
      case Nil
      then show ?thesis using assms(1) up
        by (intro exI [of _ "if rooted then 0 else k + 1"] exI [of _ "[]"])
          (auto simp: cleaned_def clean_seg_def replicate_append_same)
    next
      case (snoc m' t)
      then show ?thesis using assms(1) up
        by (intro exI [of _ k] exI [of _ m'])
          (auto simp: cleaned_def clean_seg_def plain_seg_def butlast_append)
    qed
  qed
qed

lemma foldl_cleaned:
  "cleaned rooted k m acc \<Longrightarrow> \<forall>s \<in> set ss. CHR ''/'' \<notin> set s \<Longrightarrow>
   \<exists>k' m'. cleaned rooted k' m' (foldl (clean_seg rooted) acc ss)"
proof (induction ss arbitrary: k m acc)
  case Nil
  then show ?case by auto
next
  case (Cons s ss)
  then obtain k' m' where "cleaned rooted k' m' (clean_seg rooted acc s)"
    using clean_seg_cleaned [of rooted k m acc s] by auto
  then show ?case using Cons by simp
qed

lemma clean_segs_cleaned: "\<exists>k m. cleaned rooted k m (clean_segs rooted (Split p CHR ''/''))"
  unfolding clean_segs_def
  by (rule foldl_cleaned [where k = 0 and m = "[]"]) (auto simp: cleaned_def dest: Split_no_sep)

lemma foldl_clean_plain:
  "\<forall>s \<in> set m. plain_seg s \<Longrightarrow> foldl (clean_seg rooted) acc m = acc @ m"
  by (induction m arbitrary: acc) (auto simp: clean_seg_def plain_seg_def)

lemma foldl_clean_ups: "foldl (clean_seg False) (replicate j ''..'') (replicate k ''..'') = replicate (j + k) ''..''"
proof (induction k arbitrary: j)
  case 0
  show ?case by simp
next
  case (Suc k)
  have "clean_seg False (replicate j ''..'') ''..'' = replicate (Suc j) ''..''"
    by (auto simp: clean_seg_def replicate_append_same)
  then show ?case using Suc [of "Suc j"] by simp
qed

lemma clean_segs_fixed: "cleaned rooted k m acc \<Longrightarrow> clean_segs rooted acc = acc"
  using foldl_clean_ups [of 0 k]
  by (cases rooted) (simp_all add: clean_segs_def cleaned_def foldl_clean_plain)

lemma cleaned_seg_no_slash:
  assumes "cleaned rooted k m acc" "s \<in> set acc"
  shows "CHR ''/'' \<notin> set s"
proof -
  have "set acc \<subseteq> insert ''..'' (set m)" using assms(1) by (simp add: cleaned_def set_replicate_conv_if subset_insertI)
  then have "s = ''..'' \<or> s \<in> set m" using assms(2) by blast
  then show ?thesis
  proof
    assume "s \<in> set m"
    then have "plain_seg s" using assms(1) by (simp add: cleaned_def)
    then show ?thesis by (simp add: plain_seg_def)
  qed simp
qed

lemma Split_append: "Split (a @ sep # b) sep = Split a sep @ Split b sep"
proof (induction a)
  case Nil
  show ?case by simp
next
  case (Cons c a)
  then show ?case by (cases "Split a sep") auto
qed

lemma Split_Join_cleaned:
  assumes "cleaned rooted k m acc" "acc \<noteq> []"
  shows "Split (Join acc ''/'') CHR ''/'' = acc"
  by (rule Split_Join) (use assms cleaned_seg_no_slash in auto)



lemma Join_hd:
  "acc \<noteq> [] \<Longrightarrow> hd acc \<noteq> [] \<Longrightarrow> Join acc sep \<noteq> [] \<and> hd (Join acc sep) = hd (hd acc)"
  by (cases acc; cases "tl acc") auto

lemma cleaned_hd: "cleaned rooted k m acc \<Longrightarrow> acc \<noteq> [] \<Longrightarrow> hd acc \<noteq> [] \<and> hd (hd acc) \<noteq> CHR ''/''"
proof -
  assume c: "cleaned rooted k m acc" and ne: "acc \<noteq> []"
  have "hd acc \<noteq> []" using c ne by (cases k; cases m) (auto simp: cleaned_def plain_seg_def)
  then show ?thesis using cleaned_seg_no_slash [OF c, of "hd acc"] ne by (metis hd_in_set)
qed

lemma IsAbs_Cons [simp]: "IsAbs (c # s) \<longleftrightarrow> c = CHR ''/''" "\<not> IsAbs []"
  by (simp_all add: IsAbs_def)

lemma PathClean_idem: "PathClean (PathClean p) = PathClean p"
proof (cases "p = []")
  case True
  then show ?thesis by (simp add: PathClean_def clean_segs_def clean_seg_def)
next
  case False
  let ?acc = "clean_segs (IsAbs p) (Split p CHR ''/'')"
  obtain k m where c: "cleaned (IsAbs p) k m ?acc" using clean_segs_cleaned by blast
  have fixed: "clean_segs (IsAbs p) ?acc = ?acc" by (rule clean_segs_fixed [OF c])
  show ?thesis
  proof (cases "?acc = []")
    case True
    then show ?thesis using False
      by (simp add: PathClean_def clean_segs_def clean_seg_def)
  next
    case ne: False
    have S: "Split (Join ?acc ''/'') CHR ''/'' = ?acc" by (rule Split_Join_cleaned [OF c ne])
    show ?thesis
    proof (cases "IsAbs p")
      case True
      then show ?thesis using False S fixed
        by (simp add: PathClean_def clean_segs_def clean_seg_def)
    next
      case rel: False
      have "Join ?acc ''/'' \<noteq> []" "\<not> IsAbs (Join ?acc ''/'')"
        using Join_hd [OF ne, of "''/''"] cleaned_hd [OF c ne] by (cases "Join ?acc ''/''"; simp)+
      then show ?thesis using False S fixed rel ne by (simp add: PathClean_def Let_def)
    qed
  qed
qed

text \<open>The directory segments an absolute path denotes, and a path read from a working directory.\<close>

definition abs_segs :: "string \<Rightarrow> string list" where
  "abs_segs p = clean_segs True (Split p CHR ''/'')"

definition resolve :: "string \<Rightarrow> string \<Rightarrow> string" where
  "resolve cwd p = (if IsAbs p then p else cwd @ ''/'' @ p)"

lemma clean_segs_False_snoc: "clean_segs r (ss @ [s]) = clean_seg r (clean_segs r ss) s"
  by (simp add: clean_segs_def)

lemma clean_seg_simps:
  "s = '''' \<or> s = ''.'' \<Longrightarrow> clean_seg r acc s = acc"
  "plain_seg s \<Longrightarrow> clean_seg r acc s = acc @ [s]"
  "t \<noteq> ''..'' \<Longrightarrow> clean_seg r (acc @ [t]) ''..'' = acc"
  by (auto simp: clean_seg_def plain_seg_def)

text \<open>Reading relative segments from a directory climbs out of it as often as they climb.\<close>

lemma relative_from:
  assumes "\<forall>s \<in> set R. plain_seg s" "\<forall>s \<in> set ss. CHR ''/'' \<notin> set s"
  shows "\<exists>k m. cleaned False k m (clean_segs False ss) \<and>
    foldl (clean_seg True) R ss = take (length R - k) R @ m"
  using assms(2)
proof (induction ss rule: rev_induct)
  case Nil
  show ?case by (intro exI [of _ 0] exI [of _ "[]"]) (simp add: clean_segs_def cleaned_def)
next
  case (snoc s ss)
  then obtain k m where c: "cleaned False k m (clean_segs False ss)"
    and f: "foldl (clean_seg True) R ss = take (length R - k) R @ m" by auto
  have R: "\<forall>t \<in> set (take (length R - k) R). plain_seg t" using assms(1) by (meson in_set_takeD)
  consider (skip) "s = '''' \<or> s = ''.''" | (up) "s = ''..''" | (plain) "plain_seg s"
    using snoc.prems by (auto simp: plain_seg_def)
  then show ?case
  proof cases
    case skip
    then show ?thesis using c f
      by (intro exI [of _ k] exI [of _ m]) (simp add: clean_segs_False_snoc clean_seg_simps)
  next
    case plain
    then show ?thesis using c f
      by (intro exI [of _ k] exI [of _ "m @ [s]"])
        (simp add: clean_segs_False_snoc clean_seg_simps cleaned_def)
  next
    case up
    show ?thesis
    proof (cases m rule: rev_cases)
      case (snoc m' t)
      have "t \<noteq> ''..''" using c snoc by (simp add: cleaned_def plain_seg_def)
      then show ?thesis using c f up snoc
        clean_seg_simps(3) [of t True "take (length R - k) R @ m'"]
        clean_seg_simps(3) [of t False "replicate k ''..'' @ m'"]
        by (intro exI [of _ k] exI [of _ m']) (simp add: clean_segs_False_snoc cleaned_def)
    next
      case Nil
      have "cleaned False (Suc k) [] (clean_segs False (ss @ [s]))"
        using c up Nil by (cases k) (auto simp: clean_segs_False_snoc clean_seg_def cleaned_def replicate_append_same)
      moreover have "clean_seg True (take (length R - k) R) ''..'' = take (length R - Suc k) R"
      proof (cases "take (length R - k) R = []")
        case True
        then show ?thesis by (auto simp: clean_seg_def)
      next
        case False
        then have "last (take (length R - k) R) \<noteq> ''..''" using R by (metis last_in_set plain_seg_def)
        then show ?thesis using False by (simp add: clean_seg_def butlast_take)
      qed
      ultimately show ?thesis using f up Nil
        by (intro exI [of _ "Suc k"] exI [of _ "[]"]) simp
    qed
  qed
qed

lemma abs_segs_plain: "\<forall>s \<in> set (abs_segs p). plain_seg s"
  using clean_segs_cleaned [of True p] by (auto simp: abs_segs_def cleaned_def)

lemma abs_segs_clean: "IsAbs p \<Longrightarrow> PathClean p = ''/'' @ Join (abs_segs p) ''/''"
  by (cases p) (simp_all add: PathClean_def abs_segs_def)

lemma Join_no_climb:
  assumes "cleaned False k m acc" "acc \<noteq> []" "Join acc ''/'' \<noteq> ''..''" "\<not> HasPrefix (Join acc ''/'') ''../''"
  shows "k = 0"
proof (rule ccontr)
  assume "k \<noteq> 0"
  then obtain rest where "acc = ''..'' # rest" using assms(1) by (cases k) (auto simp: cleaned_def)
  then show False using assms(3,4) by (cases rest) auto
qed

lemma slash_prefix_segs:
  assumes "\<forall>s \<in> set R. plain_seg s" "\<forall>s \<in> set S. plain_seg s" "R \<noteq> []"
    and "HasPrefix (Join S ''/'') (Join R ''/'' @ ''/'')"
  shows "\<exists>rest. S = R @ rest"
proof -
  obtain t where t: "Join S ''/'' = Join R ''/'' @ CHR ''/'' # t"
    using assms(4) by (auto simp: HasPrefix_iff)
  then have "S \<noteq> []" by auto
  then have "S = Split (Join R ''/'' @ CHR ''/'' # t) CHR ''/''"
    using Split_Join [of S "CHR ''/''"] assms(2) t by (metis plain_seg_def)
  also have "\<dots> = R @ Split t CHR ''/''"
    using Split_Join [of R "CHR ''/''"] assms(1,3) by (simp add: Split_append plain_seg_def)
  finally show ?thesis by blast
qed

lemma stays_inside:
  assumes "\<not> leavesWorkspace cwd p" "TrimSpace p \<noteq> ''''"
    and "IsAbs (TrimSpace cwd)"
  shows "\<exists>rest. abs_segs (resolve (TrimSpace cwd) (TrimSpace p)) = abs_segs (TrimSpace cwd) @ rest"
proof (cases "IsAbs (TrimSpace p)")
  case True
  let ?R = "abs_segs (TrimSpace cwd)" and ?S = "abs_segs (TrimSpace p)"
  have tilde: "\<not> HasPrefix (TrimSpace p) ''~''" using True by (cases "TrimSpace p") auto
  have "PathClean (TrimSpace cwd) \<noteq> ''/''" and cases:
    "PathClean (TrimSpace p) = PathClean (TrimSpace cwd) \<or>
     HasPrefix (PathClean (TrimSpace p)) (PathClean (TrimSpace cwd) @ ''/'')"
    using assms True tilde by (auto simp: leavesWorkspace_def Let_def split: if_splits)
  then have R: "?R \<noteq> []" using abs_segs_clean [OF assms(3)] by auto
  from cases have "?S = ?R \<or> (\<exists>rest. ?S = ?R @ rest)"
  proof
    assume "PathClean (TrimSpace p) = PathClean (TrimSpace cwd)"
    then have J: "Join ?S ''/'' = Join ?R ''/''"
      using abs_segs_clean [OF True] abs_segs_clean [OF assms(3)] by simp
    have "?S \<noteq> []"
    proof
      assume "?S = []"
      then have "Split (Join ?R ''/'') CHR ''/'' = [[]]" using J by simp
      then have "?R = [[]]" using Split_Join [of ?R "CHR ''/''"] R abs_segs_plain plain_seg_def by metis
      then show False using abs_segs_plain [of "TrimSpace cwd"] by (simp add: plain_seg_def)
    qed
    then show ?thesis
      using Split_Join [of ?R "CHR ''/''"] Split_Join [of ?S "CHR ''/''"] R J abs_segs_plain plain_seg_def
      by metis
  next
    assume "HasPrefix (PathClean (TrimSpace p)) (PathClean (TrimSpace cwd) @ ''/'')"
    then have "HasPrefix (Join ?S ''/'') (Join ?R ''/'' @ ''/'')"
      using abs_segs_clean [OF True] abs_segs_clean [OF assms(3)] by simp
    then show ?thesis using slash_prefix_segs [OF abs_segs_plain abs_segs_plain R] by blast
  qed
  then show ?thesis using True by (auto simp: resolve_def)
next
  case False
  let ?R = "abs_segs (TrimSpace cwd)" and ?ss = "Split (TrimSpace p) CHR ''/''"
  obtain k m where c: "cleaned False k m (clean_segs False ?ss)"
    and f: "foldl (clean_seg True) ?R ?ss = take (length ?R - k) ?R @ m"
    using relative_from [OF abs_segs_plain, of ?ss] Split_no_sep by blast
  have "k = 0"
  proof (cases "clean_segs False ?ss = []")
    case True
    then show ?thesis using c by (simp add: cleaned_def)
  next
    case ne: False
    then have "PathClean (TrimSpace p) = Join (clean_segs False ?ss) ''/''"
      using assms(2) False by (simp add: PathClean_def)
    then have "Join (clean_segs False ?ss) ''/'' \<noteq> ''..''" "\<not> HasPrefix (Join (clean_segs False ?ss) ''/'') ''../''"
      using assms False by (auto simp: leavesWorkspace_def Let_def split: if_splits)
    then show ?thesis using Join_no_climb [OF c ne] by simp
  qed
  moreover have "abs_segs (TrimSpace cwd @ ''/'' @ TrimSpace p) = foldl (clean_seg True) ?R ?ss"
    by (simp add: abs_segs_def clean_segs_def Split_append)
  ultimately show ?thesis using f False by (simp add: resolve_def)
qed

lemma relative_back:
  assumes "IsAbs ws" "IsAbs p" "PathClean ws \<noteq> ''/''" "PathClean p = PathClean ws @ ''/'' @ t"
  shows "abs_segs (ws @ ''/'' @ t) = abs_segs p"
proof -
  let ?R = "abs_segs ws" and ?S = "abs_segs p"
  have R: "?R \<noteq> []" using assms(1,3) abs_segs_clean by auto
  have J: "Join ?S ''/'' = Join ?R ''/'' @ CHR ''/'' # t"
    using assms abs_segs_clean by simp
  then have "?S \<noteq> []" by auto
  then have "?S = Split (Join ?R ''/'' @ CHR ''/'' # t) CHR ''/''"
    using Split_Join [of ?S "CHR ''/''"] J abs_segs_plain plain_seg_def by metis
  also have "\<dots> = ?R @ Split t CHR ''/''"
    using Split_Join [of ?R "CHR ''/''"] abs_segs_plain R by (simp add: Split_append plain_seg_def)
  finally have S: "?S = ?R @ Split t CHR ''/''" .
  then have "\<forall>s \<in> set (Split t CHR ''/''). plain_seg s" using abs_segs_plain [of p] by auto
  then have "foldl (clean_seg True) ?R (Split t CHR ''/'') = ?R @ Split t CHR ''/''"
    by (rule foldl_clean_plain)
  then show ?thesis using S by (simp add: abs_segs_def clean_segs_def Split_append)
qed

section \<open>Lemmas on snapshots\<close>

definition effects_at :: "FileEffect list \<Rightarrow> string \<Rightarrow> FileEffect list" where
  "effects_at es p = filter (\<lambda>e. cleanWorkspacePath (fe_Path e) = p) es"

text \<open>The newest effect on a path: the last in action order.\<close>

definition newest :: "FileEffect list \<Rightarrow> string \<Rightarrow> FileEffect" where
  "newest effects p = last (effects_at (sort_key fe_Order effects) p)"

definition has_content :: "FileEffect \<Rightarrow> bool" where
  "has_content e \<longleftrightarrow> fe_FileId e \<noteq> '''' \<and> fe_Omitted e = ''''"

lemma foldl_recordLatest:
  "p \<noteq> '''' \<Longrightarrow> foldl recordLatest Map.empty es p =
     (if effects_at es p = [] then None else Some ((last (effects_at es p))\<lparr>fe_Path := p\<rparr>))"
  by (induction es rule: rev_induct) (auto simp: recordLatest_def effects_at_def Let_def)

lemma effectPaths_set:
  "set (effectPaths effects) = (\<lambda>e. cleanWorkspacePath (fe_Path e)) ` set effects - {''''}"
  by (auto simp: effectPaths_def)

lemma effectPaths_sorted: "sorted (effectPaths effects)" "distinct (effectPaths effects)"
  by (simp_all add: effectPaths_def)

lemma latest_newest:
  assumes "p \<in> set (effectPaths effects)"
  shows "foldl recordLatest Map.empty (sort_key fe_Order effects) p = Some ((newest effects p)\<lparr>fe_Path := p\<rparr>)"
proof -
  have "effects_at (sort_key fe_Order effects) p \<noteq> []" "p \<noteq> ''''"
    using assms by (auto simp: effectPaths_set effects_at_def filter_empty_conv)
  then show ?thesis by (simp add: foldl_recordLatest newest_def)
qed

definition content_at :: "(string \<rightharpoonup> FileEffect) \<Rightarrow> string \<Rightarrow> bool" where
  "content_at latest p = has_content (the (latest p))"

lemma snapshotFiles_Inr:
  "snapshotFiles latest ps = Inr fs \<longleftrightarrow>
     (\<forall>p \<in> set ps. content_at latest p) \<and>
     fs = map (\<lambda>p. \<lparr>sf_Path = p, sf_FileId = fe_FileId (the (latest p))\<rparr>) ps"
proof (induction ps arbitrary: fs)
  case Nil
  show ?case by auto
next
  case (Cons p ps)
  show ?case
  proof (cases "snapshotFiles latest ps")
    case (Inl err)
    then have "\<not> (\<forall>p \<in> set ps. content_at latest p)" using Cons.IH by auto
    then show ?thesis using Inl by (simp add: Let_def)
  next
    case (Inr gs)
    then show ?thesis using Cons.IH [of gs]
      by (auto simp: Let_def content_at_def has_content_def)
  qed
qed

lemma snapshotFiles_Inl:
  "snapshotFiles latest ps = Inl (SnapshotOmittedError p why) \<longleftrightarrow>
     first_hit (\<lambda>p. \<not> content_at latest p) ps = Some p \<and> why = fe_Omitted (the (latest p))"
  by (induction ps) (auto simp: Let_def content_at_def has_content_def split: sum.splits)

definition snapshot_ok :: "Snapshot \<Rightarrow> bool" where
  "snapshot_ok s \<longleftrightarrow> (\<forall>f \<in> set (sn_Files s). sf_Path f \<noteq> '''' \<and> sf_FileId f \<noteq> '''') \<and>
     MinInt32 \<le> sn_UnrecordedCommands s \<and> sn_UnrecordedCommands s \<le> MaxInt32"

lemma parse_files:
  "\<forall>f \<in> set fs. sf_Path f \<noteq> '''' \<and> sf_FileId f \<noteq> '''' \<Longrightarrow>
   concat (map (parseFile \<circ> (jsonRead \<circ> (\<lambda>f. JObj [(''path'', JStr (sf_Path f)), (''fileId'', JStr (sf_FileId f))]))) fs) = fs"
  by (induction fs) (auto simp: parseFile_def Let_def)

lemma ParseSnapshot_row:
  "snapshot_ok s \<Longrightarrow> ParseSnapshot (jsonRead (JObj (SnapshotObject s))) = Some s"
  using parse_files [of "sn_Files s"]
  by (simp add: ParseSnapshot_def SnapshotObject_def snapshot_ok_def)

interpretation snapshot_row: stored_form "\<lambda>s. jsonRead (JObj (SnapshotObject s))"
    "\<lambda>v. case ParseSnapshot v of None \<Rightarrow> \<lparr>sn_Files = [], sn_UnrecordedCommands = 0\<rparr> | Some s \<Rightarrow> s"
    "\<lambda>s. s" snapshot_ok
  by unfold_locales (simp_all add: ParseSnapshot_row del: jsonRead.simps)

section \<open>Properties\<close>

text \<open>
  C30. A procedure sent to the workbench touches the workspace alone. When the target check lets an
  action replay on the workbench, every path it names, read from an absolute workspace,
  denotes the workspace or something below it, whatever dots and slashes it is written with;
  and the target chosen for a footprint always passes the check.
\<close>

theorem workbench_stays_inside:
  assumes "CheckTarget (ActionFootprint tool cwd paths) TargetWorkbench = None"
    and "p \<in> set paths" and "TrimSpace p \<noteq> ''''" and "IsAbs (TrimSpace cwd)"
  shows "(\<exists>rest. abs_segs (resolve (TrimSpace cwd) (TrimSpace p)) = abs_segs (TrimSpace cwd) @ rest) \<and>
    CheckTarget fp (ReplayTargetFor fp) = None"
proof
  have "\<not> leavesWorkspace cwd p"
    using assms(1,2) by (auto simp: CheckTarget_def ActionFootprint_def Let_def list_ex_iff split: if_splits)
  then show "\<exists>rest. abs_segs (resolve (TrimSpace cwd) (TrimSpace p)) = abs_segs (TrimSpace cwd) @ rest"
    using stays_inside assms(3,4) by blast
  show "CheckTarget fp (ReplayTargetFor fp) = None"
    by (simp add: CheckTarget_def ReplayTargetFor_def TargetWorkbench_def TargetMachine_def)
qed

theorem workbench_stays_inside_witness:
  "\<exists>rest. abs_segs (resolve ''/w/run1'' ''a/../b.txt'') = abs_segs ''/w/run1'' @ rest"
proof -
  have a: "CheckTarget (ActionFootprint ''fs_write'' ''/w/run1'' [''a/../b.txt'']) TargetWorkbench = None"
    by code_simp
  have t: "TrimSpace ''a/../b.txt'' = ''a/../b.txt''" "TrimSpace ''/w/run1'' = ''/w/run1''" by code_simp+
  show ?thesis using workbench_stays_inside [OF a, of "''a/../b.txt''" emptyFootprint] unfolding t by simp
qed

text \<open>
  A rebuilt workspace is complete or refused. The snapshot succeeds exactly when the newest
  recorded effect of every path has its content, and then lists every path once, in order, with
  that newest content; otherwise it is refused naming the first path, in path order, whose
  newest content was never recorded. What an older effect of a path said does not matter.
\<close>

theorem SnapshotOf_exact:
  "let ps = effectPaths effects
   in sorted ps \<and> distinct ps \<and>
      set ps = (\<lambda>e. cleanWorkspacePath (fe_Path e)) ` set effects - {''''} \<and>
      (SnapshotOf effects n = Inr snap \<longleftrightarrow>
         (\<forall>p. p \<in> set ps \<longrightarrow> has_content (newest effects p)) \<and>
         snap = \<lparr>sn_Files = map (\<lambda>p. \<lparr>sf_Path = p, sf_FileId = fe_FileId (newest effects p)\<rparr>) ps,
                 sn_UnrecordedCommands = n\<rparr>) \<and>
      (SnapshotOf effects n = Inl (SnapshotOmittedError p why) \<longleftrightarrow>
         (\<exists>a b. ps = a @ p # b \<and> (\<forall>q. q \<in> set a \<longrightarrow> has_content (newest effects q)) \<and>
            \<not> has_content (newest effects p) \<and> why = fe_Omitted (newest effects p)))"
proof -
  let ?ps = "effectPaths effects" and ?l = "foldl recordLatest Map.empty (sort_key fe_Order effects)"
  have l: "content_at ?l p = has_content (newest effects p)" "fe_FileId (the (?l p)) = fe_FileId (newest effects p)"
    "fe_Omitted (the (?l p)) = fe_Omitted (newest effects p)" if "p \<in> set ?ps" for p
    using latest_newest [OF that] by (simp_all add: content_at_def has_content_def)
  have files: "map (\<lambda>p. \<lparr>sf_Path = p, sf_FileId = fe_FileId (the (?l p))\<rparr>) ?ps =
      map (\<lambda>p. \<lparr>sf_Path = p, sf_FileId = fe_FileId (newest effects p)\<rparr>) ?ps"
    by (rule map_cong) (simp_all add: l)
  have ok: "SnapshotOf effects n = Inr snap \<longleftrightarrow>
      (\<forall>p \<in> set ?ps. has_content (newest effects p)) \<and>
      snap = \<lparr>sn_Files = map (\<lambda>p. \<lparr>sf_Path = p, sf_FileId = fe_FileId (newest effects p)\<rparr>) ?ps,
              sn_UnrecordedCommands = n\<rparr>"
  proof -
    have "SnapshotOf effects n = Inr snap \<longleftrightarrow>
        (\<exists>fs. snapshotFiles ?l ?ps = Inr fs \<and> snap = \<lparr>sn_Files = fs, sn_UnrecordedCommands = n\<rparr>)"
      by (auto simp: SnapshotOf_def Let_def split: sum.splits)
    then show ?thesis unfolding snapshotFiles_Inr files using l(1) by auto
  qed
  have err: "SnapshotOf effects n = Inl (SnapshotOmittedError p why) \<longleftrightarrow>
      (\<exists>a b. ?ps = a @ p # b \<and> (\<forall>q \<in> set a. has_content (newest effects q)) \<and>
         \<not> has_content (newest effects p) \<and> why = fe_Omitted (newest effects p))"
  proof -
    have "SnapshotOf effects n = Inl (SnapshotOmittedError p why) \<longleftrightarrow>
        snapshotFiles ?l ?ps = Inl (SnapshotOmittedError p why)"
      by (auto simp: SnapshotOf_def Let_def split: sum.splits)
    also have "\<dots> \<longleftrightarrow> first_hit (\<lambda>p. \<not> has_content (newest effects p)) ?ps = Some p \<and>
        why = fe_Omitted (newest effects p)"
    proof -
      have "first_hit (\<lambda>p. \<not> content_at ?l p) ps = first_hit (\<lambda>p. \<not> has_content (newest effects p)) ps"
        if "set ps \<subseteq> set ?ps" for ps
        using that by (induction ps) (auto simp: l(1))
      moreover have "p \<in> set ?ps" if "first_hit P ?ps = Some p" for P
        using that by (auto simp: first_hit_Some)
      ultimately show ?thesis using l(3) unfolding snapshotFiles_Inl by auto
    qed
    also have "\<dots> \<longleftrightarrow> (\<exists>a b. ?ps = a @ p # b \<and> (\<forall>q \<in> set a. has_content (newest effects q)) \<and>
         \<not> has_content (newest effects p) \<and> why = fe_Omitted (newest effects p))"
      by (auto simp: first_hit_Some)
    finally show ?thesis .
  qed
  show ?thesis using ok err effectPaths_sorted effectPaths_set unfolding Let_def Ball_def by blast
qed

definition sample_effects :: "FileEffect list" where
  "sample_effects =
     [\<lparr>fe_Order = 2, fe_Path = ''./a.txt'', fe_FileId = ''f2'', fe_Omitted = ''''\<rparr>,
      \<lparr>fe_Order = 1, fe_Path = ''a.txt'', fe_FileId = '''', fe_Omitted = ''too large''\<rparr>]"

theorem SnapshotOf_exact_witness:
  "has_content (newest sample_effects ''a.txt'') \<and>
   SnapshotOf sample_effects 0 =
     Inr \<lparr>sn_Files = [\<lparr>sf_Path = ''a.txt'', sf_FileId = ''f2''\<rparr>], sn_UnrecordedCommands = 0\<rparr>"
proof -
  let ?snap = "\<lparr>sn_Files = [\<lparr>sf_Path = ''a.txt'', sf_FileId = ''f2''\<rparr>], sn_UnrecordedCommands = 0\<rparr>"
  have "SnapshotOf sample_effects 0 = Inr ?snap" by code_simp
  moreover have "''a.txt'' \<in> set (effectPaths sample_effects)" by code_simp
  ultimately show ?thesis
    using SnapshotOf_exact [of sample_effects 0 ?snap "''''" "''''"] unfolding Let_def by blast
qed

lemma Join_append: "a \<noteq> [] \<Longrightarrow> b \<noteq> [] \<Longrightarrow> Join (a @ b) sep = Join a sep @ sep @ Join b sep"
proof (induction a sep rule: Join.induct)
  case (2 x sep)
  then show ?case by (cases b) auto
qed auto

text \<open>
  A path written relative to the workspace still names the same file: an absolute path strictly
  below an absolute workspace becomes a relative path that, read from that workspace, denotes
  exactly the file the path did; any other absolute path is only cleaned, and cleaning twice
  changes nothing.
\<close>

theorem WorkspaceRelative_same_file:
  assumes "IsAbs (TrimSpace p)" and "IsAbs (TrimSpace ws)"
  shows "(if \<exists>rest. rest \<noteq> [] \<and> abs_segs (TrimSpace p) = abs_segs (TrimSpace ws) @ rest \<and> abs_segs (TrimSpace ws) \<noteq> []
     then \<not> IsAbs (WorkspaceRelative ws p) \<and>
       abs_segs (resolve (TrimSpace ws) (WorkspaceRelative ws p)) = abs_segs (TrimSpace p)
     else WorkspaceRelative ws p = PathClean (TrimSpace p)) \<and>
    PathClean (PathClean q) = PathClean q"
proof
  let ?ws = "TrimSpace ws" and ?p = "TrimSpace p"
  let ?R = "abs_segs ?ws" and ?S = "abs_segs ?p"
  have ne: "?p \<noteq> []" using assms(1) by auto
  show "if \<exists>rest. rest \<noteq> [] \<and> ?S = ?R @ rest \<and> ?R \<noteq> []
     then \<not> IsAbs (WorkspaceRelative ws p) \<and> abs_segs (resolve ?ws (WorkspaceRelative ws p)) = ?S
     else WorkspaceRelative ws p = PathClean ?p"
  proof (cases "\<exists>rest. rest \<noteq> [] \<and> ?S = ?R @ rest \<and> ?R \<noteq> []")
    case True
    then obtain rest where r: "rest \<noteq> []" "?S = ?R @ rest" "?R \<noteq> []" by blast
    have plain: "\<forall>s \<in> set rest. plain_seg s" using abs_segs_plain [of ?p] r(2) by simp
    then have hd: "\<not> IsAbs (Join rest ''/'')"
      using Join_hd [OF r(1), of "''/''"] r(1) by (cases rest; cases "hd rest"; cases "Join rest ''/''")
        (auto simp: plain_seg_def)
    have t: "PathClean ?p = PathClean ?ws @ ''/'' @ Join rest ''/''"
      using abs_segs_clean assms r by (simp add: Join_append)
    have c: "PathClean ?ws \<noteq> ''/''"
      using abs_segs_clean [OF assms(2)] r(3) abs_segs_plain [of ?ws] Join_hd [OF r(3), of "''/''"]
      by (cases ?R) (auto simp: plain_seg_def)
    have "HasPrefix (PathClean ?p) (PathClean ?ws @ ''/'')" unfolding HasPrefix_iff t by simp
    then have "WorkspaceRelative ws p = Join rest ''/''"
      using ne assms c t by (simp add: WorkspaceRelative_def Let_def TrimPrefix_def)
    then show ?thesis
      using True hd relative_back [OF assms(2,1) c t] by (simp add: resolve_def)
  next
    case False
    have "\<not> (PathClean ?ws \<noteq> ''/'' \<and> HasPrefix (PathClean ?p) (PathClean ?ws @ ''/''))"
    proof
      assume "PathClean ?ws \<noteq> ''/'' \<and> HasPrefix (PathClean ?p) (PathClean ?ws @ ''/'')"
      then have R: "?R \<noteq> []" and "HasPrefix (Join ?S ''/'') (Join ?R ''/'' @ ''/'')"
        using abs_segs_clean assms by auto
      then obtain rest where S: "?S = ?R @ rest"
        using slash_prefix_segs [OF abs_segs_plain abs_segs_plain R] by blast
      then have "rest = []" using False R by blast
      then show False using S \<open>HasPrefix (Join ?S ''/'') (Join ?R ''/'' @ ''/'')\<close>
        by (auto simp: HasPrefix_iff)
    qed
    then have "WorkspaceRelative ws p = PathClean ?p" using ne assms by (auto simp: WorkspaceRelative_def Let_def)
    then show ?thesis unfolding if_not_P [OF False] .
  qed
qed (rule PathClean_idem)

theorem WorkspaceRelative_same_file_witness:
  "abs_segs (resolve ''/w'' (WorkspaceRelative ''/w'' ''/w/./a'')) = abs_segs ''/w/./a''"
proof -
  have t: "TrimSpace ''/w/./a'' = ''/w/./a''" "TrimSpace ''/w'' = ''/w''" by code_simp+
  have "IsAbs (TrimSpace ''/w/./a'')" "IsAbs (TrimSpace ''/w'')" unfolding t by simp_all
  moreover have "abs_segs ''/w/./a'' = abs_segs ''/w'' @ [''a'']" "abs_segs ''/w'' \<noteq> []" by code_simp+
  ultimately show ?thesis
    using WorkspaceRelative_same_file [of "''/w/./a''" "''/w''" "''x''"] unfolding t by auto
qed

text \<open>
  A snapshot survives its stored form, also through a row whose numbers come back as floats.
\<close>

theorem Snapshot_roundtrip:
  assumes "snapshot_ok s"
  shows "ParseSnapshot (jsonRead (JObj (SnapshotObject s))) = Some s"
  by (rule ParseSnapshot_row [OF assms])

theorem Snapshot_roundtrip_witness:
  "ParseSnapshot (jsonRead (JObj (SnapshotObject \<lparr>sn_Files = [], sn_UnrecordedCommands = 3\<rparr>))) =
     Some \<lparr>sn_Files = [], sn_UnrecordedCommands = 3\<rparr>"
  by (rule Snapshot_roundtrip) (simp add: snapshot_ok_def MinInt32_def MaxInt32_def)

end
