(* ===== verification/Approval.thy ===== *)
theory Approval
  imports Symptom Workspace "HOL-Library.Multiset"
begin

text \<open>
  Human gates (component/work/approval.go, approval_routing.go, approval_procedure.go,
  approval_guidance.go, progress_feedback.go and the park of inference.go): the row an approval is,
  the digest of the thing approved, and the check made before a decision is acted on.
  \<open>sha\<close> is the hexadecimal sha256 of a byte string and \<open>marshal\<close> the bytes written for a value that
  is not an object (its JSON, or its Go syntax when it has none); both are parameters.
\<close>

section \<open>The digest of an artifact\<close>

definition nul :: char where "nul = CHR 0x00"

lemma size_sort_key [termination_simp]:
  "size_list f (sort_key k xs) = size_list f xs"
proof -
  have "size_list f ys = sum_mset (image_mset f (mset ys)) + length ys" for ys :: "'a list"
    by (induction ys) auto
  then show ?thesis by (simp add: mset_sort)
qed

text \<open>\<open>canonical marshal kvs\<close> writes the entries of an object whose keys are in order.\<close>

function canonical :: "(any \<Rightarrow> string) \<Rightarrow> (string \<times> any) list \<Rightarrow> string" where
  "canonical marshal [] = []"
| "canonical marshal ((k, v) # kvs) =
     k @ [nul] @
     (case v of
        JObj nested \<Rightarrow> canonical marshal (sort_key fst nested)
      | _ \<Rightarrow> marshal v @ [nul]) @
     canonical marshal kvs"
  by pat_completeness auto

termination canonical
  by (relation "measure (\<lambda>(marshal, kvs). size_list (size_prod (\<lambda>_. 0) size) kvs)")
    (auto simp: size_sort_key)

definition writeCanonical :: "(any \<Rightarrow> string) \<Rightarrow> (string \<times> any) list \<Rightarrow> string" where
  "writeCanonical marshal m = canonical marshal (sort_key fst m)"

definition ArtifactHash :: "(string \<Rightarrow> string) \<Rightarrow> (any \<Rightarrow> string) \<Rightarrow> (string \<times> any) list \<Rightarrow> string" where
  "ArtifactHash sha marshal subject = sha (writeCanonical marshal subject)"

definition HumanQuestionID ::
  "(string \<Rightarrow> string) \<Rightarrow> (any \<Rightarrow> string) \<Rightarrow> string \<Rightarrow> string \<Rightarrow> string \<Rightarrow> string \<Rightarrow> string \<Rightarrow> string" where
  "HumanQuestionID sha marshal runID stepKey kind artifactHash rerunRequestID =
     (let identity = [(''run'', JStr runID), (''step'', JStr stepKey), (''question'', JStr artifactHash),
            (''kind'', JStr kind)];
          identity = (if rerunRequestID \<noteq> '''' then identity @ [(''rerunRequestId'', JStr rerunRequestID)]
                      else identity)
      in ''question-'' @ take 32 (ArtifactHash sha marshal identity))"

section \<open>Approval rows\<close>

definition ApprovalKindSideEffect :: string where "ApprovalKindSideEffect = ''sideEffect''"
definition ApprovalKindScopeElevation :: string where "ApprovalKindScopeElevation = ''scopeElevation''"
definition ApprovalKindBudget :: string where "ApprovalKindBudget = ''budget''"
definition ApprovalKindSkillMint :: string where "ApprovalKindSkillMint = ''skillMint''"
definition ApprovalKindInferenceUnavailable :: string where
  "ApprovalKindInferenceUnavailable = ''inferenceUnavailable''"
definition ApprovalKindRoutingReview :: string where "ApprovalKindRoutingReview = ''routingReview''"
definition ApprovalKindProcedurePromotion :: string where
  "ApprovalKindProcedurePromotion = ''procedurePromotion''"

lemmas approval_kind_defs = ApprovalKindSideEffect_def ApprovalKindScopeElevation_def
  ApprovalKindBudget_def ApprovalKindSkillMint_def ApprovalKindInferenceUnavailable_def
  ApprovalKindRoutingReview_def ApprovalKindProcedurePromotion_def ApprovalKindPlanReview_def
  ApprovalKindFeedback_def

text \<open>The options are the list of objects a card shows.\<close>

record ApprovalRequest =
  ar_RunId :: string
  ar_StepKey :: string
  ar_Kind :: string
  ar_Subject :: "(string \<times> any) list"
  ar_ArtifactHash :: string
  ar_Question :: string
  ar_Options :: "any list"
  ar_Evidence :: Evidence
  ar_RequestedAt :: instant
  ar_ExpiresAt :: instant

definition option_of :: "string \<Rightarrow> string \<Rightarrow> any" where
  "option_of label value = JObj [(''label'', JStr label), (''value'', JStr value)]"

definition newApproval ::
  "(string \<Rightarrow> string) \<Rightarrow> (any \<Rightarrow> string) \<Rightarrow> string \<Rightarrow> string \<Rightarrow> string \<Rightarrow> (string \<times> any) list \<Rightarrow> Evidence \<Rightarrow>
   instant \<Rightarrow> duration \<Rightarrow> ApprovalRequest" where
  "newApproval sha marshal kind runId stepKey subject ev now ttl =
     \<lparr>ar_RunId = runId, ar_StepKey = stepKey, ar_Kind = kind, ar_Subject = subject,
      ar_ArtifactHash = ArtifactHash sha marshal subject, ar_Question = '''', ar_Options = [],
      ar_Evidence = ev, ar_RequestedAt = now, ar_ExpiresAt = (if ttl > 0 then now + ttl else 0)\<rparr>"

definition SideEffectApproval ::
  "(string \<Rightarrow> string) \<Rightarrow> (any \<Rightarrow> string) \<Rightarrow> string \<Rightarrow> string \<Rightarrow> string \<Rightarrow> Evidence \<Rightarrow> (string \<times> any) list \<Rightarrow>
   instant \<Rightarrow> duration \<Rightarrow> ApprovalRequest" where
  "SideEffectApproval sha marshal runId stepKey artifactHash ev subject now ttl =
     (newApproval sha marshal ApprovalKindSideEffect runId stepKey subject ev now ttl)
       \<lparr>ar_ArtifactHash := artifactHash\<rparr>"

definition PlanReviewApproval ::
  "(string \<Rightarrow> string) \<Rightarrow> (any \<Rightarrow> string) \<Rightarrow> string \<Rightarrow> string \<Rightarrow> string \<Rightarrow> any list \<Rightarrow> Evidence \<Rightarrow>
   instant \<Rightarrow> duration \<Rightarrow> ApprovalRequest" where
  "PlanReviewApproval sha marshal runId stepKey artifactHash patches ev now ttl =
     (let a = newApproval sha marshal ApprovalKindPlanReview runId stepKey [(''patches'', JArr patches)] ev now ttl
      in if artifactHash \<noteq> '''' then a\<lparr>ar_ArtifactHash := artifactHash\<rparr> else a)"

definition FeedbackApproval ::
  "(string \<Rightarrow> string) \<Rightarrow> (any \<Rightarrow> string) \<Rightarrow> string \<Rightarrow> string \<Rightarrow> string \<Rightarrow> any list \<Rightarrow> Evidence \<Rightarrow>
   instant \<Rightarrow> duration \<Rightarrow> ApprovalRequest" where
  "FeedbackApproval sha marshal runId stepKey question options ev now ttl =
     (newApproval sha marshal ApprovalKindFeedback runId stepKey
        [(''question'', JStr question), (''options'', JArr options)] ev now ttl)
       \<lparr>ar_Question := question, ar_Options := options\<rparr>"

definition FailureAnswerRetry :: string where "FailureAnswerRetry = ''retry''"
definition FailureAnswerAbandon :: string where "FailureAnswerAbandon = ''abandon''"

fun symptom_word :: "Symptom \<Rightarrow> string" where
  "symptom_word SymptomNone = ''''"
| "symptom_word SymptomTransient = ''transient''"
| "symptom_word SymptomEnvironment = ''environment''"
| "symptom_word SymptomContract = ''contract''"
| "symptom_word SymptomPlan = ''plan''"
| "symptom_word SymptomHuman = ''human''"
| "symptom_word (SymptomOther s) = s"

definition FailureSubject :: "Symptom \<Rightarrow> string \<Rightarrow> string \<Rightarrow> (string \<times> any) list" where
  "FailureSubject symptom stepKey errorMessage =
     [(''symptom'', JStr (symptom_word symptom)), (''stepKey'', JStr stepKey),
      (''errorMessage'', JStr errorMessage)]"

definition FailureApproval ::
  "(string \<Rightarrow> string) \<Rightarrow> (any \<Rightarrow> string) \<Rightarrow> string \<Rightarrow> string \<Rightarrow> string \<Rightarrow> Symptom \<Rightarrow> string \<Rightarrow> string \<Rightarrow> Evidence \<Rightarrow>
   instant \<Rightarrow> duration \<Rightarrow> ApprovalRequest" where
  "FailureApproval sha marshal kind runId stepKey symptom errorMessage question ev now ttl =
     (let a = newApproval sha marshal kind runId stepKey (FailureSubject symptom stepKey errorMessage) ev now ttl;
          label = (if symptom = SymptomPlan then ''Revise plan'' else ''Retry'')
      in a\<lparr>ar_Question := question,
           ar_Options := [option_of label FailureAnswerRetry, option_of ''Abandon'' FailureAnswerAbandon]\<rparr>)"

definition offers :: "any list \<Rightarrow> string \<Rightarrow> bool" where
  "offers options value =
     list_ex (\<lambda>o1. case o1 of JObj m \<Rightarrow> asStr (getf m ''value'') = value | _ \<Rightarrow> False) options"

definition AnswerAbandons :: "any list \<Rightarrow> (string \<times> any) list \<Rightarrow> bool" where
  "AnswerAbandons options answer =
     (if asStr (getf answer ''value'') \<noteq> FailureAnswerAbandon then False
      else offers options FailureAnswerAbandon)"

definition IsFailureQuestion :: "any list \<Rightarrow> bool" where
  "IsFailureQuestion options \<longleftrightarrow> offers options FailureAnswerRetry \<and> offers options FailureAnswerAbandon"

section \<open>Acting on a decision\<close>

definition CurrentArtifactHash ::
  "(string \<Rightarrow> string) \<Rightarrow> (any \<Rightarrow> string) \<Rightarrow> string \<Rightarrow> string \<Rightarrow> (string \<times> any) list \<Rightarrow> string" where
  "CurrentArtifactHash sha marshal kind storedHash subject =
     (if kind = ApprovalKindSideEffect \<or> kind = ApprovalKindScopeElevation \<or> kind = ApprovalKindSkillMint
      then storedHash
      else if subject = [] then storedHash
      else ArtifactHash sha marshal subject)"

definition LegacyFailureHashes ::
  "(string \<Rightarrow> string) \<Rightarrow> (any \<Rightarrow> string) \<Rightarrow> (string \<times> any) list \<Rightarrow> string list \<Rightarrow> string list" where
  "LegacyFailureHashes sha marshal subject runIds =
     map (\<lambda>runId. ArtifactHash sha marshal
       [(''runId'', JStr runId), (''stepKey'', JStr (asStr (getf subject ''stepKey''))),
        (''error'', JStr (asStr (getf subject ''errorMessage''))),
        (''symptom'', JStr (asStr (getf subject ''symptom'')))]) runIds"

datatype resume_error =
    ErrApprovalPending
  | ErrApprovalRejected
  | UnknownDecision string
  | ErrArtifactChanged string string

definition short :: "string \<Rightarrow> string" where
  "short h = (if length h > 12 then take 12 h else h)"

definition ResumeAllowed :: "string \<Rightarrow> string \<Rightarrow> string \<Rightarrow> resume_error option" where
  "ResumeAllowed approvedHash currentHash decision =
     (if decision = '''' then Some ErrApprovalPending
      else if decision = ''rejected'' then Some ErrApprovalRejected
      else if decision \<noteq> ''approved'' \<and> decision \<noteq> ''answered'' then Some (UnknownDecision decision)
      else if approvedHash \<noteq> currentHash
        then Some (ErrArtifactChanged (short approvedHash) (short currentHash))
      else None)"

definition IsModelCallCheckpoint :: "(string \<times> any) list \<Rightarrow> bool" where
  "IsModelCallCheckpoint subject \<longleftrightarrow>
     getf subject ''providerFailure'' = JStr ''model_call_ceiling'' \<or>
     getf subject ''providerFailure'' = JStr ''context_capacity''"

section \<open>Other builders\<close>

definition ApprovalAcceptsGuidance :: "string \<Rightarrow> (string \<times> any) list \<Rightarrow> any list \<Rightarrow> bool" where
  "ApprovalAcceptsGuidance kind subject options =
     (if asStr (getf subject ''reviewType'') \<noteq> '''' then False
      else if kind = ApprovalKindBudget \<or> getf subject ''continuationAllowed'' = JBool False then False
      else if IsFailureQuestion options then True
      else kind = ApprovalKindFeedback \<or> kind = ApprovalKindScopeElevation \<or> kind = ApprovalKindSideEffect)"

record RoutingProposal =
  pr_ModelId :: string
  pr_Level :: string
  pr_Week :: string
  pr_Direction :: string
  pr_RuleName :: string
  pr_RuleSource :: string
  pr_Reason :: string
  pr_Calls :: int
  pr_StructuredFailures :: int

definition RoutingReviewApproval ::
  "(string \<Rightarrow> string) \<Rightarrow> (any \<Rightarrow> string) \<Rightarrow> RoutingProposal \<Rightarrow> instant \<Rightarrow> duration \<Rightarrow> ApprovalRequest" where
  "RoutingReviewApproval sha marshal p now ttl =
     (let subject = [(''modelId'', JStr (pr_ModelId p)), (''level'', JStr (pr_Level p)),
            (''week'', JStr (pr_Week p)), (''direction'', JStr (pr_Direction p)),
            (''ruleName'', JStr (pr_RuleName p)), (''ruleSource'', JStr (pr_RuleSource p)),
            (''calls'', JInt (pr_Calls p)), (''structuredFailures'', JInt (pr_StructuredFailures p))];
          a = newApproval sha marshal ApprovalKindRoutingReview '''' '''' subject
            \<lparr>ev_Tier = ''evidence'', ev_Reason = Said (pr_Reason p), ev_RuleId = '''',
             ev_Source = EvidenceSourceOther ''routingEvidenceFold''\<rparr> now ttl
      in a\<lparr>ar_Question := pr_Reason p,
           ar_Options := [option_of ''Add the rule'' ''approved'', option_of ''Leave routing as it is'' ''rejected'']\<rparr>)"

datatype approval_error = ApprovalNeedsKind | ErrApprovalNeedsRun string

definition ValidateApprovalKind :: "ApprovalRequest \<Rightarrow> approval_error option" where
  "ValidateApprovalKind a =
     (if TrimSpace (ar_Kind a) = '''' then Some ApprovalNeedsKind
      else if ar_Kind a = ApprovalKindRoutingReview then None
      else if TrimSpace (ar_RunId a) = '''' then Some (ErrApprovalNeedsRun (ar_Kind a))
      else None)"

record DoorReport =
  dr_Door :: string
  dr_Name :: string
  dr_Reason :: string
  dr_Considered :: "(string \<times> string) list"

definition DoorAsMap :: "DoorReport \<Rightarrow> any" where
  "DoorAsMap d =
     (let out = [(''door'', JStr (dr_Door d)), (''name'', JStr (dr_Name d)), (''reason'', JStr (dr_Reason d))]
      in if dr_Considered d = [] then JObj out
         else JObj (out @ [(''considered'', JArr (map (\<lambda>(k, r). JObj [(''subject'', JStr k), (''reason'', JStr r)])
                (sort_key fst (dr_Considered d))))]))"

definition inferenceReason :: "string \<Rightarrow> string" where
  "inferenceReason code =
     (if code = RefusalCeilingReached
        then ''a paid provider could have served this call, and the cost ceiling for this process has been reached''
      else if code = RefusalNoLocalModel then ''the policy named a local model and no machine can serve it''
      else if code = RefusalNoApp
        then ''the policy named a subscription app and no machine has one allowed, signed in and online''
      else ''every door to a model is shut: no local model, no signed-in app, and no paid provider this run may reach'')"

definition inferenceQuestion :: "string \<Rightarrow> string" where
  "inferenceQuestion code =
     (if code = RefusalCeilingReached then ''Raise the cost ceiling so this run can use a paid provider?''
      else ''No model is reachable. Use a paid provider for this run?'')"

definition InferenceUnavailableApproval ::
  "(string \<Rightarrow> string) \<Rightarrow> (any \<Rightarrow> string) \<Rightarrow> string \<Rightarrow> string \<Rightarrow> string \<Rightarrow> DoorReport list \<Rightarrow> instant \<Rightarrow> duration \<Rightarrow>
   ApprovalRequest" where
  "InferenceUnavailableApproval sha marshal runId stepKey code doors now ttl =
     (let subject = [(''code'', JStr code), (''doors'', JArr (map DoorAsMap doors))];
          ev = \<lparr>ev_Tier = ''environment'', ev_Reason = Said (inferenceReason code),
                ev_RuleId = ''inference.'' @ code, ev_Source = EvidenceSourceRules\<rparr>;
          a = newApproval sha marshal ApprovalKindInferenceUnavailable runId stepKey subject ev now ttl
      in a\<lparr>ar_Question := inferenceQuestion code,
           ar_Options := [option_of ''Use a paid provider for this run'' ''approved'',
             option_of ''Stop this run'' ''rejected'']\<rparr>)"

text \<open>
  An error as the park reads it: what a refusal in its chain reports, if there is one, and its
  message. \<open>None\<close> is no error.
\<close>

definition DoorsFrom :: "((string \<times> DoorReport list) option \<times> string) option \<Rightarrow> (string \<times> DoorReport list) option" where
  "DoorsFrom err =
     (case err of
        None \<Rightarrow> None
      | Some (Some report, _) \<Rightarrow> Some report
      | Some (None, message) \<Rightarrow> map_option (\<lambda>code. (code, [])) (InferenceRefusalCode message))"

section \<open>The promotion of a learned procedure\<close>

record PromotionProposal =
  pp_OwnerUserId :: string
  pp_ConstructId :: string
  pp_ConstructName :: string
  pp_ProcedureHash :: string
  pp_ShadowRunId :: string
  pp_ShadowMatches :: int
  pp_DistinctBindings :: "(string \<times> int) list"
  pp_RecordedFrom :: "(string \<times> any) list"
  pp_Title :: string
  pp_Target :: string
  pp_DryEvidence :: bool

definition promotionTarget :: "string \<Rightarrow> ReplayTarget" where
  "promotionTarget s = (if s = TargetMachine \<or> s = TargetWorkbench then s else '''')"

definition timesPhrase :: "int \<Rightarrow> string" where
  "timesPhrase n = (if n = 1 then ''once'' else itoa n @ '' times'')"

definition streakPhrase :: "int \<Rightarrow> string" where
  "streakPhrase n = (if n = 1 then ''once'' else itoa n @ '' consecutive times'')"

definition bindingsPhrase :: "int \<Rightarrow> string" where
  "bindingsPhrase n = (if n = 1 then ''1 distinct binding'' else itoa n @ '' distinct bindings'')"

definition quote_char :: char where "quote_char = CHR 0x22"

definition promotionSubjectName :: "PromotionProposal \<Rightarrow> string" where
  "promotionSubjectName p =
     (let t = Join (FieldsFunc is_space (pp_Title p)) '' ''; n = TrimSpace (pp_ConstructName p)
      in if t \<noteq> '''' then [quote_char] @ t @ [quote_char]
         else if n \<noteq> '''' then n
         else ''this learned procedure'')"

definition promotionQuestion :: "PromotionProposal \<Rightarrow> ReplayTarget \<Rightarrow> string" where
  "promotionQuestion p target =
     (let lead = ''Promote '' @ promotionSubjectName p @ '' to canary? It matched the app '' @
            timesPhrase (pp_ShadowMatches p);
          q = (if target = TargetMachine
               then lead @ '', and would now run on your machine with the app standing by.''
               else if target = TargetWorkbench
               then lead @ '', and would now run in the workbench, a sandbox in your cluster, with the app standing by.''
               else lead @ '' beside it, and would now run for real with the app standing by.'')
      in if pp_DryEvidence p
         then q @ '' Those matches compared the commands it would run with the app's own; it has not run by itself yet.''
         else q)"

definition promotionReason :: "PromotionProposal \<Rightarrow> string" where
  "promotionReason p =
     (if pp_DistinctBindings p = []
      then ''matched the app '' @ streakPhrase (pp_ShadowMatches p) @ '' in shadow, with no parameter to vary''
      else let fewest = foldl (\<lambda>f (_, n). if f < 0 \<or> n < f then n else f) (- 1) (pp_DistinctBindings p)
           in ''matched the app '' @ streakPhrase (pp_ShadowMatches p) @ '' in shadow, across at least '' @
              bindingsPhrase fewest @ '' of every parameter'')"

definition ProcedurePromotionApproval ::
  "(string \<Rightarrow> string) \<Rightarrow> (any \<Rightarrow> string) \<Rightarrow> PromotionProposal \<Rightarrow> instant \<Rightarrow> ApprovalRequest" where
  "ProcedurePromotionApproval sha marshal p requestedAt =
     (let target = promotionTarget (pp_Target p);
          subject = [(''constructId'', JStr (pp_ConstructId p)), (''constructName'', JStr (pp_ConstructName p)),
            (''procedureHash'', JStr (pp_ProcedureHash p)), (''title'', JStr (pp_Title p)),
            (''shadowMatches'', JInt (pp_ShadowMatches p)),
            (''distinctBindings'', JObj (map (\<lambda>(i, n). (i, JInt n)) (pp_DistinctBindings p))),
            (''recordedFrom'', JObj (pp_RecordedFrom p)), (''target'', JStr target),
            (''dryEvidence'', JBool (pp_DryEvidence p))];
          a = newApproval sha marshal ApprovalKindProcedurePromotion (pp_ShadowRunId p) '''' subject
            \<lparr>ev_Tier = ''evidence'', ev_Reason = Said (promotionReason p), ev_RuleId = ''ladder.promotion'',
             ev_Source = EvidenceSourceRules\<rparr> requestedAt 0
      in a\<lparr>ar_ArtifactHash := pp_ProcedureHash p, ar_Question := promotionQuestion p target,
           ar_Options := [option_of ''Promote to canary'' ''approved'', option_of ''Keep it in shadow'' ''rejected'']\<rparr>)"

section \<open>Lemmas\<close>

lemma sort_key_unique:
  assumes "distinct (map fst m)" "mset m = mset m'"
  shows "sort_key fst m = sort_key fst m'"
proof -
  have d: "distinct (map fst m')" using assms by (metis mset_eq_imp_distinct_iff mset_map)
  have s: "set m = set m'" using assms(2) by (rule mset_eq_setD)
  show ?thesis
  proof (rule map_sorted_distinct_set_unique)
    show "inj_on fst (set (sort_key fst m) \<union> set (sort_key fst m'))"
      using assms(1) s by (simp add: distinct_map)
    show "distinct (map fst (sort_key fst m))" "distinct (map fst (sort_key fst m'))"
      using assms(1) d by (metis distinct_sort distinct_map set_sort)+
  qed (simp_all add: s)
qed

text \<open>An artifact whose values are no objects and whose keys and encodings carry no zero byte.\<close>

definition flat_artifact :: "(any \<Rightarrow> string) \<Rightarrow> (string \<times> any) list \<Rightarrow> bool" where
  "flat_artifact marshal m \<longleftrightarrow>
     (\<forall>(k, v) \<in> set m. nul \<notin> set k \<and> nul \<notin> set (marshal v) \<and> (\<forall>o1. v \<noteq> JObj o1))"

lemma canonical_leaf:
  "(\<forall>o1. v \<noteq> JObj o1) \<Longrightarrow>
   canonical marshal ((k, v) # kvs) = k @ nul # (marshal v @ nul # canonical marshal kvs)"
  by (cases v) auto

lemma canonical_flat_inj:
  "flat_artifact marshal a \<Longrightarrow> flat_artifact marshal b \<Longrightarrow> canonical marshal a = canonical marshal b \<Longrightarrow>
   map (\<lambda>(k, v). (k, marshal v)) a = map (\<lambda>(k, v). (k, marshal v)) b"
proof (induction a arbitrary: b)
  case Nil
  then show ?case
  proof (cases b)
    case (Cons kv b')
    obtain k v where "kv = (k, v)" by (cases kv)
    then show ?thesis using Nil.prems Cons by (simp add: canonical_leaf flat_artifact_def)
  qed simp
next
  case (Cons kv a)
  obtain k v where kv: "kv = (k, v)" by (cases kv)
  have flat: "nul \<notin> set k" "nul \<notin> set (marshal v)" "\<forall>o1. v \<noteq> JObj o1" "flat_artifact marshal a"
    using Cons.prems(1) kv by (auto simp: flat_artifact_def)
  show ?case
  proof (cases b)
    case Nil
    then show ?thesis using Cons.prems(3) canonical_leaf [OF flat(3), of marshal k a] kv by simp
  next
    case B: (Cons kv' b')
    obtain k' v' where kv': "kv' = (k', v')" by (cases kv')
    have flat': "nul \<notin> set k'" "nul \<notin> set (marshal v')" "\<forall>o1. v' \<noteq> JObj o1" "flat_artifact marshal b'"
      using Cons.prems(2) B kv' by (auto simp: flat_artifact_def)
    have eq: "k @ nul # (marshal v @ nul # canonical marshal a) =
        k' @ nul # (marshal v' @ nul # canonical marshal b')"
      using Cons.prems(3) canonical_leaf [OF flat(3), of marshal k a] canonical_leaf [OF flat'(3), of marshal k' b']
      by (simp add: kv kv' B)
    then have "k = k'" and "marshal v @ nul # canonical marshal a = marshal v' @ nul # canonical marshal b'"
      using append_sep_cancel [OF flat(1) flat'(1) eq] by simp_all
    then have "marshal v = marshal v'" "canonical marshal a = canonical marshal b'"
      using append_sep_cancel [OF flat(2) flat'(2)] by simp_all
    then show ?thesis using Cons.IH [OF flat(4) flat'(4)] \<open>k = k'\<close> by (simp add: kv kv' B)
  qed
qed

lemma flat_artifact_sort: "flat_artifact marshal (sort_key fst m) = flat_artifact marshal m"
  by (simp add: flat_artifact_def)

lemma map_of_sort_key: "distinct (map fst m) \<Longrightarrow> map_of (sort_key fst m) = map_of m"
proof -
  assume d: "distinct (map fst m)"
  then have "distinct (map fst (sort_key fst m))" by (metis distinct_map distinct_sort set_sort)
  then show ?thesis using d by (metis map_of_inject_set set_sort)
qed

lemma writeCanonical_flat:
  assumes "flat_artifact marshal a" "flat_artifact marshal b" "distinct (map fst a)" "distinct (map fst b)"
    and "writeCanonical marshal a = writeCanonical marshal b"
  shows "map_option marshal (map_of a k) = map_option marshal (map_of b k)"
proof -
  let ?f = "map (\<lambda>(k, v). (k, marshal v))"
  have "?f (sort_key fst a) = ?f (sort_key fst b)"
    using canonical_flat_inj assms by (simp add: flat_artifact_sort writeCanonical_def)
  then have "map_of (?f (sort_key fst a)) k = map_of (?f (sort_key fst b)) k" by simp
  then show ?thesis
    by (simp add: map_of_map map_of_sort_key [OF assms(3)] map_of_sort_key [OF assms(4)])
qed

lemmas builder_defs = newApproval_def FailureApproval_def FeedbackApproval_def
  InferenceUnavailableApproval_def RoutingReviewApproval_def SideEffectApproval_def
  PlanReviewApproval_def

section \<open>Properties\<close>


fun plain_json :: "any \<Rightarrow> string" where
  "plain_json (JStr s) = s"
| "plain_json _ = ''null''"


text \<open>
  Every approval as raised can be decided. For each builder of the failure path, of feedback,
  of an inference park, of a routing review and of a side effect, the digest on the row is the one
  the decide side computes from the stored subject, however the stored object orders its keys, so
  an approval or an answer is let through as long as nothing changed.
\<close>

theorem builders_decidable:
  assumes "decision \<in> {''approved'', ''answered''}"
    and "a \<in> {FailureApproval sha marshal kind runId stepKey symptom msg question ev now ttl,
              FeedbackApproval sha marshal runId stepKey question options ev now ttl,
              InferenceUnavailableApproval sha marshal runId stepKey code doors now ttl,
              RoutingReviewApproval sha marshal p now ttl,
              SideEffectApproval sha marshal runId stepKey correlation ev subject now ttl,
              PlanReviewApproval sha marshal runId stepKey '''' patches ev now ttl}"
    and "mset stored = mset (ar_Subject a)"
  shows "ResumeAllowed (ar_ArtifactHash a)
    (CurrentArtifactHash sha marshal (ar_Kind a) (ar_ArtifactHash a) stored) decision = None"
proof -
  have "CurrentArtifactHash sha marshal (ar_Kind a) (ar_ArtifactHash a) stored = ar_ArtifactHash a"
  proof (cases "ar_Kind a = ApprovalKindSideEffect")
    case True
    then show ?thesis by (simp add: CurrentArtifactHash_def)
  next
    case False
    then have "distinct (map fst (ar_Subject a))" "ar_ArtifactHash a = ArtifactHash sha marshal (ar_Subject a)"
      using assms(2) by (auto simp: builder_defs FailureSubject_def Let_def approval_kind_defs)
    then have "ArtifactHash sha marshal stored = ar_ArtifactHash a"
      using sort_key_unique [of "ar_Subject a" stored] assms(3) by (simp add: ArtifactHash_def writeCanonical_def)
    then show ?thesis by (simp add: CurrentArtifactHash_def)
  qed
  then show ?thesis using assms(1) by (auto simp: ResumeAllowed_def)
qed

theorem builders_decidable_witness:
  "\<exists>a :: ApprovalRequest. ResumeAllowed (ar_ArtifactHash a)
     (CurrentArtifactHash rev plain_json (ar_Kind a) (ar_ArtifactHash a) (rev (ar_Subject a))) ''answered'' = None"
proof -
  let ?ev = "\<lparr>ev_Tier = ''t'', ev_Reason = Said ''r'', ev_RuleId = '''', ev_Source = EvidenceSourceRules\<rparr>"
  let ?a = "FeedbackApproval rev plain_json ''run'' ''step'' ''why?'' [] ?ev 1 0"
  have "ResumeAllowed (ar_ArtifactHash ?a)
     (CurrentArtifactHash rev plain_json (ar_Kind ?a) (ar_ArtifactHash ?a) (rev (ar_Subject ?a))) ''answered'' = None"
    by (rule builders_decidable [where runId = "''run''" and stepKey = "''step''" and question = "''why?''"
        and options = "[]" and ev = ?ev and now = 1 and ttl = 0]) auto
  then show ?thesis by blast
qed


end
