(* ===== verification/Topics.thy ===== *)
theory Topics
  imports Prelude
begin

text \<open>
  Topics of the event bus and the patterns that select them (component/events/pattern.go): the
  wildcard match of dot-separated segments, pattern normalisation, the patterns of a structured
  graph subscription, and the topics built for a concept or a bundle with their inverses. The glob
  inside one segment is \<^verbatim>\<open>path.Match\<close>, modelled on single-byte characters with its chunk-by-chunk
  scan; a malformed glob matches nothing.
\<close>

section \<open>Globs inside a segment\<close>

datatype glob_tok = GLit char | GAny | GStar | GRange bool "(char \<times> char) list"

definition getEsc :: "string \<Rightarrow> (char \<times> string) option" where
  "getEsc chunk =
     (case chunk of
        [] \<Rightarrow> None
      | c # cs \<Rightarrow>
          if c = CHR ''-'' \<or> c = CHR '']'' then None
          else if c = CHR 0x5C then
            (case cs of d # e # es \<Rightarrow> Some (d, e # es) | _ \<Rightarrow> None)
          else (case cs of [] \<Rightarrow> None | _ \<Rightarrow> Some (c, cs)))"

lemma getEsc_shorter: "getEsc chunk = Some (c, rest) \<Longrightarrow> length rest < length chunk"
  by (auto simp: getEsc_def split: list.splits if_splits)

function parseRange :: "nat \<Rightarrow> string \<Rightarrow> ((char \<times> char) list \<times> string) option" where
  "parseRange n chunk =
     (if 0 < n \<and> HasPrefix chunk '']'' then Some ([], tl chunk)
      else case getEsc chunk of
             None \<Rightarrow> None
           | Some (lo, c1) \<Rightarrow>
               if HasPrefix c1 ''-'' then
                 (case getEsc (tl c1) of
                    None \<Rightarrow> None
                  | Some (hi, c2) \<Rightarrow>
                      map_option (\<lambda>(rs, rest). ((lo, hi) # rs, rest)) (parseRange (n + 1) c2))
               else map_option (\<lambda>(rs, rest). ((lo, lo) # rs, rest)) (parseRange (n + 1) c1))"
  by pat_completeness auto
termination
  by (relation "measure (length \<circ> snd)")
    (auto dest!: getEsc_shorter simp: HasPrefix_iff)

declare parseRange.simps [simp del]

lemma parseRange_shorter: "parseRange n chunk = Some (rs, rest) \<Longrightarrow> length rest \<le> length chunk"
proof (induction "length chunk" arbitrary: n chunk rs rest rule: less_induct)
  case less
  then show ?case
  proof (cases "0 < n \<and> HasPrefix chunk '']''")
    case True
    then show ?thesis using less.prems by (subst (asm) parseRange.simps) auto
  next
    case False
    then obtain lo c1 where lo: "getEsc chunk = Some (lo, c1)"
      using less.prems by (subst (asm) parseRange.simps) (auto split: option.splits)
    note short = getEsc_shorter [OF lo]
    show ?thesis
    proof (cases "HasPrefix c1 ''-''")
      case True
      then obtain hi c2 qs where c2: "getEsc (tl c1) = Some (hi, c2)" "parseRange (n + 1) c2 = Some (qs, rest)"
        using less.prems lo False by (subst (asm) parseRange.simps) (auto split: option.splits)
      have "length c2 < length chunk" using getEsc_shorter [OF c2(1)] short by simp
      then show ?thesis using less.hyps [OF _ c2(2)] by simp
    next
      case nodash: False
      then obtain qs where "parseRange (n + 1) c1 = Some (qs, rest)"
        using less.prems lo False by (subst (asm) parseRange.simps) (auto split: option.splits)
      then show ?thesis using short less.hyps [of c1 "n + 1" qs rest] by simp
    qed
  qed
qed

function parseGlob :: "string \<Rightarrow> glob_tok list option" where
  "parseGlob [] = Some []"
| "parseGlob (c # cs) =
     (if c = CHR ''*'' then map_option (Cons GStar) (parseGlob cs)
      else if c = CHR ''?'' then map_option (Cons GAny) (parseGlob cs)
      else if c = CHR 0x5C then
        (case cs of [] \<Rightarrow> None | d # ds \<Rightarrow> map_option (Cons (GLit d)) (parseGlob ds))
      else if c = CHR ''['' then
        (let negated = HasPrefix cs ''^''; body = (if negated then tl cs else cs)
         in case parseRange 0 body of
              None \<Rightarrow> None
            | Some (rs, rest) \<Rightarrow> map_option (Cons (GRange negated rs)) (parseGlob rest))
      else map_option (Cons (GLit c)) (parseGlob cs))"
  by pat_completeness auto
termination
  by (relation "measure length")
    (auto dest!: parseRange_shorter simp: HasPrefix_iff split: if_splits)

definition tok_char :: "glob_tok \<Rightarrow> char \<Rightarrow> bool" where
  "tok_char t c =
     (case t of
        GLit d \<Rightarrow> d = c
      | GAny \<Rightarrow> c \<noteq> CHR ''/''
      | GRange negated rs \<Rightarrow>
          list_ex (\<lambda>(lo, hi). (of_char lo :: nat) \<le> of_char c \<and> (of_char c :: nat) \<le> of_char hi) rs \<noteq> negated
      | GStar \<Rightarrow> False)"

fun matchChunk :: "glob_tok list \<Rightarrow> string \<Rightarrow> string option" where
  "matchChunk [] s = Some s"
| "matchChunk (t # ts) [] = None"
| "matchChunk (t # ts) (c # s) = (if tok_char t c then matchChunk ts s else None)"

definition chunkAt :: "glob_tok list \<Rightarrow> glob_tok list \<Rightarrow> string \<Rightarrow> string option" where
  "chunkAt chunk rest name =
     (case matchChunk chunk name of
        None \<Rightarrow> None
      | Some t \<Rightarrow> if t = [] \<or> rest \<noteq> [] then Some t else None)"

fun skipChunk :: "glob_tok list \<Rightarrow> glob_tok list \<Rightarrow> string \<Rightarrow> string option" where
  "skipChunk chunk rest [] = None"
| "skipChunk chunk rest (c # name) =
     (if c = CHR ''/'' then None
      else case chunkAt chunk rest name of
             Some t \<Rightarrow> Some t
           | None \<Rightarrow> skipChunk chunk rest name)"

lemma scan_shorter:
  "length (dropWhile (\<lambda>x. x \<noteq> GStar) (dropWhile (\<lambda>x. x = GStar) (t # ts))) < Suc (length ts)"
  using length_dropWhile_le [of "\<lambda>x. x \<noteq> GStar" "dropWhile (\<lambda>x. x = GStar) ts"]
    length_dropWhile_le [of "\<lambda>x. x = GStar" ts] length_dropWhile_le [of "\<lambda>x. x \<noteq> GStar" ts]
  by (cases "t = GStar") simp_all

function matchGlob :: "glob_tok list \<Rightarrow> string \<Rightarrow> bool" where
  "matchGlob [] name = (name = [])"
| "matchGlob (t # ts) name =
     (let star = (t = GStar);
          body = dropWhile (\<lambda>x. x = GStar) (t # ts);
          chunk = takeWhile (\<lambda>x. x \<noteq> GStar) body;
          rest = dropWhile (\<lambda>x. x \<noteq> GStar) body
      in if star \<and> chunk = [] then CHR ''/'' \<notin> set name
         else case chunkAt chunk rest name of
                Some u \<Rightarrow> matchGlob rest u
              | None \<Rightarrow>
                  if star then (case skipChunk chunk rest name of
                                  Some u \<Rightarrow> matchGlob rest u
                                | None \<Rightarrow> False)
                  else False)"
  by pat_completeness auto
termination
  by (relation "measure (\<lambda>(ts, name). length ts)") (simp_all add: scan_shorter del: dropWhile.simps)

declare matchGlob.simps(2) [simp del]

definition PathMatch :: "string \<Rightarrow> string \<Rightarrow> bool" where
  "PathMatch pattern name = (case parseGlob pattern of None \<Rightarrow> False | Some ts \<Rightarrow> matchGlob ts name)"

section \<open>Matching a topic\<close>

definition matchSegment :: "string \<Rightarrow> string \<Rightarrow> bool" where
  "matchSegment part seg =
     (if part = ''*'' then True
      else if CHR ''*'' \<in> set part \<or> CHR ''?'' \<in> set part then PathMatch part seg
      else seg = part)"

fun matchParts :: "string list \<Rightarrow> string list \<Rightarrow> bool" where
  "matchParts [] topic = (topic = [])"
| "matchParts (part # pattern) topic =
     (if part = ''#'' then
        pattern = [] \<or> list_ex (\<lambda>skip. matchParts pattern (drop skip topic)) [0..<Suc (length topic)]
      else case topic of
             [] \<Rightarrow> False
           | seg # topic' \<Rightarrow> matchSegment part seg \<and> matchParts pattern topic')"

definition Match :: "string \<Rightarrow> string \<Rightarrow> bool" where
  "Match pattern topic =
     (if pattern = ''#'' then True
      else if pattern = '''' \<or> topic = '''' then pattern = topic
      else if pattern = topic then True
      else matchParts (Split pattern (CHR ''.'')) (Split topic (CHR ''.'')))"

section \<open>Normalising a pattern\<close>

text \<open>\<^verbatim>\<open>strings.ReplaceAll\<close> of two dots by one: the string is scanned from the left, without overlap.\<close>

fun replaceDots :: "string \<Rightarrow> string" where
  "replaceDots (a # b # s) =
     (if a = CHR ''.'' \<and> b = CHR ''.'' then CHR ''.'' # replaceDots s else a # replaceDots (b # s))"
| "replaceDots s = s"

lemma length_replaceDots: "length (replaceDots s) \<le> length s"
  by (induction s rule: replaceDots.induct) auto

lemma replaceDots_shorter: "Contains s ''..'' \<Longrightarrow> length (replaceDots s) < length s"
proof (induction s rule: replaceDots.induct)
  case (1 a b s)
  then show ?case using length_replaceDots [of s] by (auto simp: less_Suc_eq_le)
qed auto

function collapseDots :: "string \<Rightarrow> string" where
  "collapseDots s = (if Contains s ''..'' then collapseDots (replaceDots s) else s)"
  by pat_completeness auto
termination
  by (relation "measure length") (simp_all add: replaceDots_shorter)

declare collapseDots.simps [simp del]

definition trimDots :: "string \<Rightarrow> string" where
  "trimDots s = rev (dropWhile (\<lambda>c. c = CHR ''.'') (rev (dropWhile (\<lambda>c. c = CHR ''.'') s)))"

definition NormalizePattern :: "string \<Rightarrow> string" where
  "NormalizePattern pattern =
     (let pattern = TrimSpace pattern
      in if pattern = '''' then ''#''
         else let pattern = trimDots (collapseDots pattern)
              in if pattern = '''' then ''#'' else pattern)"

section \<open>Topics of concepts and bundles\<close>

definition TopicGraphNode :: string where "TopicGraphNode = ''graph.node''"
definition TopicGraphNodeCreated :: string where "TopicGraphNodeCreated = ''graph.node.created''"
definition TopicGraphNodeDeleted :: string where "TopicGraphNodeDeleted = ''graph.node.deleted''"
definition TopicGraphNodeUpdated :: string where "TopicGraphNodeUpdated = ''graph.node.updated''"
definition TopicCacheInvalidate :: string where "TopicCacheInvalidate = ''cache.invalidate''"
definition TopicAuthoringPromote :: string where "TopicAuthoringPromote = ''authoring.promote''"
definition TopicAuthoringDemote :: string where "TopicAuthoringDemote = ''authoring.demote''"
definition TopicAuthoringArm :: string where "TopicAuthoringArm = ''authoring.arm''"
definition TopicAuthoringDisarm :: string where "TopicAuthoringDisarm = ''authoring.disarm''"
definition TopicProvidersReload :: string where "TopicProvidersReload = ''providers.reload''"

lemmas topic_defs = TopicGraphNode_def TopicGraphNodeCreated_def TopicGraphNodeDeleted_def
  TopicGraphNodeUpdated_def TopicCacheInvalidate_def TopicAuthoringPromote_def
  TopicAuthoringDemote_def TopicAuthoringArm_def TopicAuthoringDisarm_def TopicProvidersReload_def

definition GraphSubscriptionPatterns :: "string \<Rightarrow> string list \<Rightarrow> string list" where
  "GraphSubscriptionPatterns concept actions =
     (let conceptSeg = (if TrimSpace concept = '''' then ''#'' else TrimSpace concept)
      in if actions = [] then [TopicGraphNode @ ''.*.'' @ conceptSeg]
         else map (\<lambda>action. TopicGraphNode @ ''.'' @ action @ ''.'' @ conceptSeg) actions)"

definition BuildTopicWithConcept :: "string \<Rightarrow> string \<Rightarrow> string" where
  "BuildTopicWithConcept baseTopic concept =
     (let concept = TrimSpace concept
      in if concept = '''' then baseTopic else baseTopic @ ''.'' @ concept)"

definition TopicNodeCreated :: "string \<Rightarrow> string" where
  "TopicNodeCreated conceptId = BuildTopicWithConcept TopicGraphNodeCreated conceptId"

definition TopicNodeUpdated :: "string \<Rightarrow> string" where
  "TopicNodeUpdated conceptId = BuildTopicWithConcept TopicGraphNodeUpdated conceptId"

definition TopicNodeDeleted :: "string \<Rightarrow> string" where
  "TopicNodeDeleted conceptId = BuildTopicWithConcept TopicGraphNodeDeleted conceptId"

text \<open>The shared inverse: the trimmed remainder after the base and a dot, unless it is empty.\<close>

definition bundleFromTopic :: "string \<Rightarrow> string \<Rightarrow> string option" where
  "bundleFromTopic base topic =
     (let prefix = base @ ''.''
      in if \<not> HasPrefix topic prefix then None
         else let bundleId = TrimSpace (drop (length prefix) topic)
              in if bundleId = '''' then None else Some bundleId)"

fun conceptFromBases :: "string list \<Rightarrow> string \<Rightarrow> string option" where
  "conceptFromBases [] topic = None"
| "conceptFromBases (base # bases) topic =
     (let prefix = base @ ''.''
      in if HasPrefix topic prefix
         then (let concept = TrimSpace (drop (length prefix) topic)
               in if concept = '''' then None else Some concept)
         else conceptFromBases bases topic)"

definition ConceptFromGraphNodeTopic :: "string \<Rightarrow> string option" where
  "ConceptFromGraphNodeTopic topic =
     conceptFromBases [TopicGraphNodeCreated, TopicGraphNodeUpdated, TopicGraphNodeDeleted] topic"

definition TopicCacheInvalidateForConcept :: "string \<Rightarrow> string" where
  "TopicCacheInvalidateForConcept conceptId = BuildTopicWithConcept TopicCacheInvalidate conceptId"

definition ConceptFromCacheInvalidateTopic :: "string \<Rightarrow> string option" where
  "ConceptFromCacheInvalidateTopic topic = bundleFromTopic TopicCacheInvalidate topic"

definition TopicAuthoringPromoteForBundle :: "string \<Rightarrow> string" where
  "TopicAuthoringPromoteForBundle bundleId = BuildTopicWithConcept TopicAuthoringPromote bundleId"

definition BundleFromAuthoringPromoteTopic :: "string \<Rightarrow> string option" where
  "BundleFromAuthoringPromoteTopic topic = bundleFromTopic TopicAuthoringPromote topic"

definition TopicAuthoringDemoteForBundle :: "string \<Rightarrow> string" where
  "TopicAuthoringDemoteForBundle bundleId = BuildTopicWithConcept TopicAuthoringDemote bundleId"

definition BundleFromAuthoringDemoteTopic :: "string \<Rightarrow> string option" where
  "BundleFromAuthoringDemoteTopic topic = bundleFromTopic TopicAuthoringDemote topic"

definition TopicAuthoringArmForBundle :: "string \<Rightarrow> string" where
  "TopicAuthoringArmForBundle bundleId = BuildTopicWithConcept TopicAuthoringArm bundleId"

definition BundleFromAuthoringArmTopic :: "string \<Rightarrow> string option" where
  "BundleFromAuthoringArmTopic topic = bundleFromTopic TopicAuthoringArm topic"

definition TopicAuthoringDisarmForBundle :: "string \<Rightarrow> string" where
  "TopicAuthoringDisarmForBundle bundleId = BuildTopicWithConcept TopicAuthoringDisarm bundleId"

definition BundleFromAuthoringDisarmTopic :: "string \<Rightarrow> string option" where
  "BundleFromAuthoringDisarmTopic topic = bundleFromTopic TopicAuthoringDisarm topic"

definition TopicProvidersReloadFor :: "string \<Rightarrow> string" where
  "TopicProvidersReloadFor requestId = BuildTopicWithConcept TopicProvidersReload requestId"

section \<open>Lemmas: matching\<close>

text \<open>
  What a pattern means: its parts are assigned consecutive blocks of the topic's segments, any
  block to \<^verbatim>\<open>#\<close> and exactly one segment to any other part.
\<close>

definition part_block :: "string \<Rightarrow> string list \<Rightarrow> bool" where
  "part_block part block \<longleftrightarrow> part = ''#'' \<or> (\<exists>seg. block = [seg] \<and> matchSegment part seg)"

definition covers :: "string list \<Rightarrow> string list \<Rightarrow> bool" where
  "covers pattern topic \<longleftrightarrow> (\<exists>blocks. topic = concat blocks \<and> list_all2 part_block pattern blocks)"

lemma covers_Nil: "covers [] topic \<longleftrightarrow> topic = []"
  by (auto simp: covers_def)

lemma covers_Cons:
  "covers (part # pattern) topic \<longleftrightarrow>
     (\<exists>block rest. topic = block @ rest \<and> part_block part block \<and> covers pattern rest)"
proof
  assume "covers (part # pattern) topic"
  then show "\<exists>block rest. topic = block @ rest \<and> part_block part block \<and> covers pattern rest"
    unfolding covers_def list_all2_Cons1 by force
next
  assume "\<exists>block rest. topic = block @ rest \<and> part_block part block \<and> covers pattern rest"
  then obtain block blocks where "topic = concat (block # blocks)"
    "list_all2 part_block (part # pattern) (block # blocks)"
    unfolding covers_def by auto
  then show "covers (part # pattern) topic" unfolding covers_def by blast
qed

lemma drop_block: "(\<exists>skip \<le> length topic. P (drop skip topic)) \<longleftrightarrow> (\<exists>block rest. topic = block @ rest \<and> P rest)"
  by (metis append_eq_conv_conj append_take_drop_id length_append le_add1)

lemma matchParts_exact: "matchParts pattern topic \<longleftrightarrow> covers pattern topic"
proof (induction pattern topic rule: matchParts.induct)
  case (1 topic)
  show ?case by (simp add: covers_Nil)
next
  case (2 part pattern topic)
  show ?case
  proof (cases "part = ''#''")
    case True
    have "\<forall>skip \<le> length topic. matchParts pattern (drop skip topic) = covers pattern (drop skip topic)"
      using "2.IH"(1) [OF True] by (simp add: less_Suc_eq_le del: upt_Suc)
    then have "matchParts (part # pattern) topic \<longleftrightarrow>
        pattern = [] \<or> (\<exists>skip \<le> length topic. covers pattern (drop skip topic))"
      using True by (auto simp: list_ex_iff less_Suc_eq_le simp del: upt_Suc)
    also have "\<dots> \<longleftrightarrow> (\<exists>block rest. topic = block @ rest \<and> covers pattern rest)"
      unfolding drop_block by (auto simp: covers_Nil)
    finally show ?thesis using True by (simp add: covers_Cons part_block_def)
  next
    case False
    have "covers (part # pattern) topic \<longleftrightarrow>
        (\<exists>seg rest. topic = seg # rest \<and> matchSegment part seg \<and> covers pattern rest)"
      by (simp only: covers_Cons part_block_def False HOL.simp_thms) (metis append_Cons append_Nil)
    then show ?thesis using "2.IH"(2) [OF False] False by (cases topic) simp_all
  qed
qed

text \<open>A name without dots or wildcards, as concept ids, verbs and bundle ids are.\<close>

definition plain_name :: "string \<Rightarrow> bool" where
  "plain_name s \<longleftrightarrow> s \<noteq> '''' \<and> s \<noteq> ''#'' \<and> TrimSpace s = s \<and>
     CHR ''.'' \<notin> set s \<and> CHR ''*'' \<notin> set s \<and> CHR ''?'' \<notin> set s"

lemma matchSegment_plain: "plain_name s \<Longrightarrow> matchSegment s seg \<longleftrightarrow> seg = s"
  by (auto simp: matchSegment_def plain_name_def)

lemma matchParts_plain:
  "plain_name s \<Longrightarrow> matchParts (s # ps) (t # ts) \<longleftrightarrow> t = s \<and> matchParts ps ts"
  by (auto simp: matchSegment_plain plain_name_def)

section \<open>Lemmas: normalisation\<close>

lemma Split_append_sep: "Split (a @ sep # b) sep = Split a sep @ Split b sep"
  by (induction a) (auto split: list.splits)

definition segments :: "string \<Rightarrow> string list" where
  "segments s = filter (\<lambda>w. w \<noteq> []) (Split s (CHR ''.''))"

definition same_segs :: "string \<Rightarrow> string \<Rightarrow> bool" where
  "same_segs x y \<longleftrightarrow> hd (Split x (CHR ''.'')) = hd (Split y (CHR ''.'')) \<and>
     filter (\<lambda>w. w \<noteq> []) (tl (Split x (CHR ''.''))) = filter (\<lambda>w. w \<noteq> []) (tl (Split y (CHR ''.'')))"

lemma segments_hd_tl:
  "segments x = (if hd (Split x (CHR ''.'')) = [] then [] else [hd (Split x (CHR ''.''))]) @
     filter (\<lambda>w. w \<noteq> []) (tl (Split x (CHR ''.'')))"
proof -
  obtain w ws where "Split x (CHR ''.'') = w # ws" by (meson Split_nonempty neq_Nil_conv)
  then show ?thesis by (simp add: segments_def)
qed

lemma same_segs_segments: "same_segs x y \<Longrightarrow> segments x = segments y"
  by (simp only: segments_hd_tl same_segs_def)

lemma same_segs_Cons: "same_segs x y \<Longrightarrow> same_segs (a # x) (a # y)"
proof (cases "a = CHR ''.''")
  case True
  assume "same_segs x y"
  then show ?thesis using True same_segs_segments [of x y] by (simp add: same_segs_def segments_def)
next
  case False
  have S: "Split (a # x) (CHR ''.'') = (a # hd (Split x (CHR ''.''))) # tl (Split x (CHR ''.''))" for x
    using False by (cases "Split x (CHR ''.'')") auto
  assume "same_segs x y"
  then show ?thesis unfolding same_segs_def S by simp
qed

lemma same_segs_replaceDots: "same_segs (replaceDots s) s"
proof (induction s rule: replaceDots.induct)
  case (1 a b s)
  show ?case
  proof (cases "a = CHR ''.'' \<and> b = CHR ''.''")
    case True
    have "same_segs (CHR ''.'' # replaceDots s) (CHR ''.'' # CHR ''.'' # s)"
      using same_segs_segments [OF "1.IH"(1) [OF True]] by (simp add: same_segs_def segments_def)
    then show ?thesis using True by simp
  next
    case False
    then have "replaceDots (a # b # s) = a # replaceDots (b # s)" by auto
    then show ?thesis using same_segs_Cons [OF "1.IH"(2) [OF False]] by simp
  qed
qed (simp_all add: same_segs_def)

lemma segments_replaceDots: "segments (replaceDots s) = segments s"
  by (rule same_segs_segments) (rule same_segs_replaceDots)

lemma collapseDots_segments: "segments (collapseDots s) = segments s"
proof (induction s rule: collapseDots.induct)
  case (1 s)
  then show ?case by (subst collapseDots.simps) (simp add: segments_replaceDots)
qed

lemma collapseDots_single: "\<not> Contains (collapseDots s) ''..''"
  by (induction s rule: collapseDots.induct) (subst collapseDots.simps, simp)

lemma segments_dot [simp]: "segments (CHR ''.'' # s) = segments s" "segments (s @ ''.'') = segments s"
  using Split_append_sep [of s "CHR ''.''" "[]"] by (simp_all add: segments_def)

lemma segments_trimDots: "segments (trimDots s) = segments s"
proof -
  have lead: "segments (dropWhile (\<lambda>c. c = CHR ''.'') s) = segments s" for s
    by (induction s) auto
  have trail: "segments (rev (dropWhile (\<lambda>c. c = CHR ''.'') (rev s))) = segments s" for s
    by (induction s rule: rev_induct) auto
  show ?thesis unfolding trimDots_def using lead trail by simp
qed

lemma hd_Split_empty: "hd (Split s sep) = [] \<longleftrightarrow> s = [] \<or> hd s = sep"
  by (cases s) (auto split: list.splits)

lemma tl_Split_empty:
  "[] \<in> set (tl (Split s (CHR ''.''))) \<Longrightarrow> (\<exists>a. s = a @ ''.'') \<or> Contains s ''..''"
proof (induction s)
  case (Cons c s)
  show ?case
  proof (cases "c = CHR ''.''")
    case True
    then have "hd (Split s (CHR ''.'')) = [] \<or> [] \<in> set (tl (Split s (CHR ''.'')))"
      using Cons.prems by (cases "Split s (CHR ''.'')") auto
    then show ?thesis
    proof
      assume "hd (Split s (CHR ''.'')) = []"
      then have "s = [] \<or> (\<exists>t. s = CHR ''.'' # t)" unfolding hd_Split_empty by (cases s) auto
      then show ?thesis using True by auto
    next
      assume "[] \<in> set (tl (Split s (CHR ''.'')))"
      then show ?thesis using Cons.IH by (auto simp: append_Cons [symmetric] simp del: append_Cons)
    qed
  next
    case False
    then have "[] \<in> set (tl (Split s (CHR ''.'')))"
      using Cons.prems by (cases "Split s (CHR ''.'')") auto
    then show ?thesis using Cons.IH by (auto simp: append_Cons [symmetric] simp del: append_Cons)
  qed
qed simp

lemma trimDots_ends:
  "trimDots s = c # t \<Longrightarrow> c \<noteq> CHR ''.''" "trimDots s \<noteq> a @ ''.''" "\<exists>a b. s = a @ trimDots s @ b"
proof -
  define u where "u = dropWhile (\<lambda>c. c = CHR ''.'') s"
  have t: "trimDots s = rev (dropWhile (\<lambda>c. c = CHR ''.'') (rev u))" by (simp add: trimDots_def u_def)
  have u: "u = trimDots s @ rev (takeWhile (\<lambda>c. c = CHR ''.'') (rev u))"
    unfolding t by (metis rev_append rev_rev_ident takeWhile_dropWhile_id)
  have "s = takeWhile (\<lambda>c. c = CHR ''.'') s @ u" by (simp add: u_def)
  then show "\<exists>a b. s = a @ trimDots s @ b" using u by metis
  show "trimDots s = c # t \<Longrightarrow> c \<noteq> CHR ''.''"
    using u hd_dropWhile [of "\<lambda>c. c = CHR ''.''" s] u_def by (metis append_Cons list.distinct(1) list.sel(1))
  show "trimDots s \<noteq> a @ ''.''"
  proof
    assume "trimDots s = a @ ''.''"
    then have "dropWhile (\<lambda>c. c = CHR ''.'') (rev u) = CHR ''.'' # rev a"
      unfolding t by (metis rev_rev_ident rev.simps rev_append append.simps append_Nil)
    then show False by (metis (mono_tags, lifting) hd_dropWhile list.distinct(1) list.sel(1))
  qed
qed

lemma tidy_segments:
  assumes "\<not> Contains s ''..''" and "trimDots s \<noteq> []"
  shows "trimDots s = Join (segments s) ''.''"
proof -
  let ?t = "trimDots s"
  have "\<not> Contains ?t ''..''" using assms(1) trimDots_ends(3) [of s] Contains_append by metis
  then have "[] \<notin> set (tl (Split ?t (CHR ''.'')))" using tl_Split_empty [of ?t] trimDots_ends(2) [of s] by blast
  moreover have "hd (Split ?t (CHR ''.'')) \<noteq> []"
    using assms(2) trimDots_ends(1) [of s] by (auto simp: hd_Split_empty neq_Nil_conv)
  ultimately have "[] \<notin> set (Split ?t (CHR ''.''))" by (cases "Split ?t (CHR ''.'')") auto
  then have "segments ?t = Split ?t (CHR ''.'')" by (auto simp: segments_def filter_id_conv)
  then show ?thesis using Join_Split [of ?t "CHR ''.''"] segments_trimDots [of s] by simp
qed

lemma NormalizePattern_segments:
  "NormalizePattern p =
     (if segments (TrimSpace p) = [] then ''#'' else Join (segments (TrimSpace p)) ''.'')"
proof -
  let ?c = "collapseDots (TrimSpace p)"
  have seg: "segments (trimDots ?c) = segments (TrimSpace p)"
    by (simp add: segments_trimDots collapseDots_segments)
  show ?thesis
  proof (cases "trimDots ?c = []")
    case True
    then have "segments (TrimSpace p) = []" using seg by (simp add: segments_def)
    then show ?thesis using True by (simp add: NormalizePattern_def Let_def)
  next
    case False
    then have j: "trimDots ?c = Join (segments (TrimSpace p)) ''.''"
      using tidy_segments [OF collapseDots_single] by (simp add: collapseDots_segments)
    moreover have "segments (TrimSpace p) \<noteq> []" using j False by auto
    moreover have "TrimSpace p \<noteq> []" using calculation(2) by (auto simp: segments_def)
    ultimately show ?thesis using False by (simp add: NormalizePattern_def Let_def)
  qed
qed

section \<open>Lemmas: built topics\<close>

lemma TrimSpace_idem: "TrimSpace (TrimSpace s) = TrimSpace s"
proof -
  define u where "u = dropWhile is_space s"
  have "rev (dropWhile is_space (rev u)) = [] \<or> \<not> is_space (hd (rev (dropWhile is_space (rev u))))"
  proof (cases "dropWhile is_space (rev u) = []")
    case False
    then have "hd (rev (dropWhile is_space (rev u))) = hd u"
      by (metis append_is_Nil_conv hd_append2 rev_append rev_is_Nil_conv rev_rev_ident takeWhile_dropWhile_id)
    moreover have "u \<noteq> []" using False by auto
    ultimately show ?thesis using hd_dropWhile [of is_space s] u_def by simp
  qed simp
  then have "dropWhile is_space (TrimSpace s) = TrimSpace s"
    unfolding TrimSpace_def u_def [symmetric] by (metis dropWhile_eq_self_iff)
  then show ?thesis
    unfolding TrimSpace_def [of "TrimSpace s"] by (simp add: TrimSpace_def)
qed

lemma bundleFromTopic_Build:
  "bundleFromTopic base (BuildTopicWithConcept base c) =
     (if TrimSpace c = [] then None else Some (TrimSpace c))"
proof (cases "TrimSpace c = []")
  case True
  have "\<not> HasPrefix base (base @ ''.'')" by (auto simp: HasPrefix_iff)
  then show ?thesis using True by (simp add: bundleFromTopic_def BuildTopicWithConcept_def Let_def)
next
  case False
  have "HasPrefix (base @ ''.'' @ TrimSpace c) (base @ ''.'')"
    by (metis HasPrefix_append append.assoc)
  then show ?thesis
    using False by (simp add: bundleFromTopic_def BuildTopicWithConcept_def Let_def TrimSpace_idem)
qed

lemma Split_node_topic:
  "CHR ''.'' \<notin> set v \<Longrightarrow> Split (TopicGraphNode @ ''.'' @ v @ ''.'' @ c) (CHR ''.'') =
     [''graph'', ''node'', v] @ Split c (CHR ''.'')"
  by (simp add: TopicGraphNode_def Split_Cons_free)

lemma TrimSpace_ends:
  assumes "s = c # t" "\<not> is_space c" "s = u @ [d]" "\<not> is_space d"
  shows "TrimSpace s = s"
  using assms by (simp add: TrimSpace_def) (metis dropWhile.simps(2) rev.simps(2) rev_eq_Cons_iff rev_rev_ident)

lemma plain_last:
  assumes "plain_name s" shows "\<exists>u d. s = u @ [d] \<and> \<not> is_space d"
proof -
  have ne: "s \<noteq> []" and tr: "TrimSpace s = s" using assms by (simp_all add: plain_name_def)
  have "dropWhile is_space (rev (dropWhile is_space s)) = rev s"
    using tr unfolding TrimSpace_def by (metis rev_rev_ident)
  then have "\<not> is_space (hd (rev s))"
    using ne by (metis hd_dropWhile rev_is_Nil_conv)
  then show ?thesis using ne by (metis append_butlast_last_id hd_rev)
qed

lemma NormalizePattern_node:
  assumes "v \<noteq> []" "CHR ''.'' \<notin> set v" "c = ''#'' \<or> plain_name c"
  shows "NormalizePattern (TopicGraphNode @ ''.'' @ v @ ''.'' @ c) = TopicGraphNode @ ''.'' @ v @ ''.'' @ c"
proof -
  let ?p = "TopicGraphNode @ ''.'' @ v @ ''.'' @ c"
  have "\<exists>u d. c = u @ [d] \<and> \<not> is_space d"
    using assms(3) plain_last [of c] by (auto simp: is_space_def)
  then obtain u d where "?p = (TopicGraphNode @ ''.'' @ v @ ''.'' @ u) @ [d]" "\<not> is_space d" by auto
  then have trim: "TrimSpace ?p = ?p"
    by (intro TrimSpace_ends [of ?p "CHR ''g''" "tl ?p" _ d]) (simp_all add: TopicGraphNode_def is_space_def)
  have free: "CHR ''.'' \<notin> set c" "c \<noteq> []" using assms(3) by (auto simp: plain_name_def)
  have sp: "Split ?p (CHR ''.'') = [''graph'', ''node'', v, c]"
    using Split_node_topic [OF assms(2), of c] free by (simp add: Split_free)
  then have "segments ?p = Split ?p (CHR ''.'')" using assms(1) free by (simp add: segments_def)
  then show ?thesis
    using trim sp Join_Split [of ?p "CHR ''.''"] by (simp add: NormalizePattern_segments)
qed

lemma plain_hash [simp]: "\<not> plain_name ''#''" "\<not> plain_name ''*''" "\<not> plain_name []"
  by (simp_all add: plain_name_def)

lemma Match_node:
  assumes "v = ''*'' \<or> plain_name v" "c = ''#'' \<or> plain_name c" "plain_name verb" "plain_name concept"
  shows "Match (TopicGraphNode @ ''.'' @ v @ ''.'' @ c) (TopicGraphNode @ ''.'' @ verb @ ''.'' @ concept) \<longleftrightarrow>
    (v = ''*'' \<or> v = verb) \<and> (c = ''#'' \<or> c = concept)"
proof -
  let ?p = "TopicGraphNode @ ''.'' @ v @ ''.'' @ c"
  let ?t = "TopicGraphNode @ ''.'' @ verb @ ''.'' @ concept"
  have free: "CHR ''.'' \<notin> set v" "CHR ''.'' \<notin> set c" "CHR ''.'' \<notin> set verb" "CHR ''.'' \<notin> set concept"
    using assms by (auto simp: plain_name_def)
  then have sp: "Split ?p (CHR ''.'') = [''graph'', ''node'', v, c]"
    and st: "Split ?t (CHR ''.'') = [''graph'', ''node'', verb, concept]"
    using Split_node_topic [of v c] Split_node_topic [of verb concept] by (simp_all add: Split_free)
  have base: "plain_name ''graph''" "plain_name ''node''"
    by (simp_all add: plain_name_def TrimSpace_def is_space_def)
  have one: "matchParts [c] [concept] \<longleftrightarrow> c = ''#'' \<or> c = concept"
    using assms(2) by (cases "c = ''#''") (auto simp: matchParts_plain simp del: matchParts.simps(2), simp)
  have two: "matchParts [v, c] [verb, concept] \<longleftrightarrow> (v = ''*'' \<or> v = verb) \<and> (c = ''#'' \<or> c = concept)"
  proof (cases "v = ''*''")
    case True
    then have "matchParts [v, c] [verb, concept] \<longleftrightarrow> matchParts [c] [concept]"
      by (simp add: matchSegment_def)
    then show ?thesis using one True by simp
  next
    case False
    then have "plain_name v" using assms(1) by simp
    then have "matchParts [v, c] [verb, concept] \<longleftrightarrow> verb = v \<and> matchParts [c] [concept]"
      by (rule matchParts_plain)
    then show ?thesis using one False by auto
  qed
  have "matchParts (Split ?p (CHR ''.'')) (Split ?t (CHR ''.'')) \<longleftrightarrow>
      (v = ''*'' \<or> v = verb) \<and> (c = ''#'' \<or> c = concept)"
    unfolding sp st matchParts_plain [OF base(1)] matchParts_plain [OF base(2)] two by simp
  moreover have "?p = ?t \<Longrightarrow> v = verb \<and> c = concept"
    using append_sep_cancel [of "CHR ''.''" v verb c concept] free by simp
  ultimately show ?thesis by (auto simp: Match_def TopicGraphNode_def)
qed

section \<open>Properties\<close>

text \<open>
  C33. A pattern selects exactly the topics it describes. A non-empty pattern other than the lone
  \<^verbatim>\<open>#\<close>, against a non-empty topic, matches exactly when the topic is the pattern itself or the
  topic's segments can be cut into consecutive blocks, one for each part of the pattern: any block
  for \<^verbatim>\<open>#\<close>, a single segment that the part's glob accepts for every other. The lone \<^verbatim>\<open>#\<close> matches
  everything, and an empty pattern only the empty topic.
\<close>

theorem Match_exact:
  "Match pattern topic \<longleftrightarrow>
     pattern = ''#'' \<or> pattern = topic \<or>
     (pattern \<noteq> '''' \<and> topic \<noteq> '''' \<and>
      (\<exists>blocks. Split topic (CHR ''.'') = concat blocks \<and>
         list_all2 part_block (Split pattern (CHR ''.'')) blocks))"
  unfolding Match_def matchParts_exact covers_def by auto

text \<open>
  Normalising a pattern keeps its segments and drops the empty ones: the result is the non-empty
  dot-separated segments of the trimmed pattern joined by single dots, or \<^verbatim>\<open>#\<close> when there are none.
  The loop that replaces double dots therefore ends on every pattern.
\<close>

theorem NormalizePattern_exact:
  "NormalizePattern p =
     (let ws = filter (\<lambda>w. w \<noteq> []) (Split (TrimSpace p) (CHR ''.''))
      in if ws = [] then ''#'' else Join ws ''.'')"
  using NormalizePattern_segments [of p] by (simp add: segments_def Let_def)

text \<open>
  A structured subscription receives what it asked for, once. For a concept and action verbs
  without dots or wildcards, and a change of a row of some such concept, the patterns composed by
  the server and normalised by the bus match the change's topic exactly when the verb was asked
  for (or none was named) and the concept was (or none was); with distinct verbs, one pattern
  matches it and no other. Reading the topic back gives the concept.
\<close>

theorem subscription_exact:
  assumes "concept = '''' \<or> plain_name concept" and "\<forall>a \<in> set actions. plain_name a" and "distinct actions"
    and "verb \<in> {''created'', ''updated'', ''deleted''}" and "plain_name row"
  shows "length (filter (\<lambda>p. Match (NormalizePattern p) (BuildTopicWithConcept (TopicGraphNode @ ''.'' @ verb) row))
             (GraphSubscriptionPatterns concept actions)) =
      (if (actions = [] \<or> verb \<in> set actions) \<and> (concept = '''' \<or> concept = row) then 1 else 0) \<and>
    ConceptFromGraphNodeTopic (BuildTopicWithConcept (TopicGraphNode @ ''.'' @ verb) row) = Some row"
proof
  let ?t = "BuildTopicWithConcept (TopicGraphNode @ ''.'' @ verb) row"
  define seg where "seg = (if concept = '''' then ''#'' else concept)"
  have row: "TrimSpace row = row" "row \<noteq> []" using assms(5) by (simp_all add: plain_name_def)
  then have t: "?t = TopicGraphNode @ ''.'' @ verb @ ''.'' @ row"
    by (simp add: BuildTopicWithConcept_def Let_def)
  have verb: "plain_name verb" using assms(4) by (auto simp: plain_name_def TrimSpace_def is_space_def)
  have seg: "seg = ''#'' \<or> plain_name seg" using assms(1) by (auto simp: seg_def)
  have m: "Match (NormalizePattern (TopicGraphNode @ ''.'' @ v @ ''.'' @ seg)) ?t \<longleftrightarrow>
      (v = ''*'' \<or> v = verb) \<and> (concept = '''' \<or> concept = row)"
    if "v = ''*'' \<or> plain_name v" for v
  proof -
    have v: "v \<noteq> []" "CHR ''.'' \<notin> set v" using that by (auto simp: plain_name_def)
    have "seg = ''#'' \<or> seg = row \<longleftrightarrow> concept = '''' \<or> concept = row"
      using assms(1,5) by (auto simp: seg_def)
    then show ?thesis
      unfolding t NormalizePattern_node [OF v seg] Match_node [OF that seg verb assms(5)] by simp
  qed
  have ps: "GraphSubscriptionPatterns concept actions =
      map (\<lambda>v. TopicGraphNode @ ''.'' @ v @ ''.'' @ seg) (if actions = [] then [''*''] else actions)"
    using assms(1) by (auto simp: GraphSubscriptionPatterns_def seg_def plain_name_def)
  let ?vs = "if actions = [] then [''*''] else actions"
  have "filter (\<lambda>p. Match (NormalizePattern p) ?t) (GraphSubscriptionPatterns concept actions) =
      map (\<lambda>v. TopicGraphNode @ ''.'' @ v @ ''.'' @ seg)
        (filter (\<lambda>v. (v = ''*'' \<or> v = verb) \<and> (concept = '''' \<or> concept = row)) ?vs)"
  proof -
    have "\<forall>v \<in> set ?vs. v = ''*'' \<or> plain_name v" using assms(2) by auto
    then show ?thesis unfolding ps filter_map o_def using m
      by (intro arg_cong [where f = "map _"] filter_cong) blast+
  qed
  moreover have "length (filter (\<lambda>v. (v = ''*'' \<or> v = verb) \<and> (concept = '''' \<or> concept = row)) ?vs) =
      (if (actions = [] \<or> verb \<in> set actions) \<and> (concept = '''' \<or> concept = row) then 1 else 0)"
  proof (cases "actions = []")
    case False
    have "filter (\<lambda>v. v = ''*'' \<or> v = verb) actions = filter (\<lambda>v. v = verb) actions"
      using assms(2) by (intro filter_cong) auto
    moreover have "length (filter (\<lambda>v. v = verb) actions) = (if verb \<in> set actions then 1 else 0)"
      using assms(3) by (induction actions) auto
    ultimately show ?thesis using False by (cases "concept = '''' \<or> concept = row") simp_all
  qed simp
  ultimately show "length (filter (\<lambda>p. Match (NormalizePattern p) ?t) (GraphSubscriptionPatterns concept actions)) =
      (if (actions = [] \<or> verb \<in> set actions) \<and> (concept = '''' \<or> concept = row) then 1 else 0)"
    by simp
  show "ConceptFromGraphNodeTopic ?t = Some row"
    using assms(4) row unfolding t
    by (auto simp: ConceptFromGraphNodeTopic_def topic_defs Let_def)
qed

theorem subscription_exact_witness:
  "length (filter (\<lambda>p. Match (NormalizePattern p) (BuildTopicWithConcept (TopicGraphNode @ ''.'' @ ''updated'') ''v1:a:b''))
      (GraphSubscriptionPatterns ''v1:a:b'' [''created'', ''updated''])) = 1"
proof -
  have "plain_name ''v1:a:b''" "plain_name ''created''" "plain_name ''updated''"
    by (simp_all add: plain_name_def TrimSpace_def is_space_def)
  then show ?thesis
    using subscription_exact [of "''v1:a:b''" "[''created'', ''updated'']" "''updated''" "''v1:a:b''"] by simp
qed

end
