(* ===== verification/Bus.thy ===== *)
theory Bus
  imports Topics
begin

text \<open>
  The in-memory event bus (component/events/bus.go). A subscription is an object shared between the
  bus's map and the publishers that have already collected it, so the model keeps every subscription
  ever made in a store and the map holds its index; a closed one stays in the store with its flag
  set. Handlers are opaque values of a type variable, a nil handler is \<open>None\<close>. \<^verbatim>\<open>Publish\<close> collects the
  matching subscriptions and starts one delivery for each; a delivery is a step of its own, so
  anything may happen between the two. Logging is left out.
\<close>

section \<open>State and operations\<close>

record 'h subscription =
  sub_id :: string
  sub_name :: string
  sub_pattern :: string
  sub_handler :: "'h option"
  sub_closed :: bool

record 'h Bus =
  bus_store :: "'h subscription list"
  bus_subscriptions :: "(string \<times> nat) list"
  bus_nextId :: nat
  bus_closed :: bool

definition NewBus :: "'h Bus" where
  "NewBus = \<lparr>bus_store = [], bus_subscriptions = [], bus_nextId = 0, bus_closed = False\<rparr>"

text \<open>\<^verbatim>\<open>strconv.FormatUint(id, 36)\<close>.\<close>

definition digit36 :: "nat \<Rightarrow> char" where
  "digit36 n = (if n < 10 then char_of (48 + n) else char_of (87 + n))"

fun FormatUint36 :: "nat \<Rightarrow> string" where
  "FormatUint36 n = (if n < 36 then [digit36 n] else FormatUint36 (n div 36) @ [digit36 (n mod 36)])"

declare FormatUint36.simps [simp del]

definition generateId :: "'h Bus \<Rightarrow> string \<times> 'h Bus" where
  "generateId b = (let n = (bus_nextId b + 1) mod 2 ^ 64 in (FormatUint36 n, b\<lparr>bus_nextId := n\<rparr>))"

definition map_put :: "string \<Rightarrow> nat \<Rightarrow> (string \<times> nat) list \<Rightarrow> (string \<times> nat) list" where
  "map_put k v m = (k, v) # filter (\<lambda>e. fst e \<noteq> k) m"

definition Subscribe :: "'h Bus \<Rightarrow> string \<Rightarrow> 'h option \<Rightarrow> string \<Rightarrow> 'h Bus \<times> string option" where
  "Subscribe b pattern handler name =
     (if handler = None \<or> bus_closed b then (b, None)
      else let pattern = NormalizePattern pattern;
               (newId, b) = generateId b;
               sub = \<lparr>sub_id = newId, sub_name = name, sub_pattern = pattern, sub_handler = handler, sub_closed = False\<rparr>
           in (b\<lparr>bus_store := bus_store b @ [sub],
                 bus_subscriptions := map_put newId (length (bus_store b)) (bus_subscriptions b)\<rparr>, Some newId))"

definition closeAt :: "'h subscription list \<Rightarrow> nat \<Rightarrow> 'h subscription list" where
  "closeAt store i = (if i < length store then store[i := (store ! i)\<lparr>sub_closed := True\<rparr>] else store)"

definition unsubscribe :: "'h Bus \<Rightarrow> string \<Rightarrow> 'h Bus" where
  "unsubscribe b subId =
     (if subId = '''' then b
      else case map_of (bus_subscriptions b) subId of
             None \<Rightarrow> b
           | Some i \<Rightarrow> b\<lparr>bus_store := closeAt (bus_store b) i,
                         bus_subscriptions := filter (\<lambda>e. fst e \<noteq> subId) (bus_subscriptions b)\<rparr>)"

definition CloseBus :: "'h Bus \<Rightarrow> 'h Bus" where
  "CloseBus b =
     (if bus_closed b then b
      else b\<lparr>bus_closed := True, bus_store := foldl closeAt (bus_store b) (map snd (bus_subscriptions b)),
             bus_subscriptions := []\<rparr>)"

definition SubscriberCount :: "'h Bus \<Rightarrow> nat" where
  "SubscriberCount b = length (bus_subscriptions b)"

text \<open>The subscriptions one \<^verbatim>\<open>Publish\<close> collects, in the order the map is walked, and one delivery.\<close>

definition collect :: "'h Bus \<Rightarrow> string \<Rightarrow> nat list" where
  "collect b topic =
     (if bus_closed b then []
      else filter (\<lambda>i. \<not> sub_closed (bus_store b ! i) \<and> Match (sub_pattern (bus_store b ! i)) topic)
             (map snd (bus_subscriptions b)))"

definition deliverEvent :: "'h Bus \<Rightarrow> nat \<Rightarrow> 'h option" where
  "deliverEvent b i = (if sub_closed (bus_store b ! i) then None else sub_handler (bus_store b ! i))"

section \<open>The bus as a machine\<close>

text \<open>
  What clients do to a bus over time. The function \<^verbatim>\<open>Subscribe\<close> returns closes over the id it made;
  \<open>BusUnsubscribe k\<close> calls the function returned by the \<open>k\<close>-th successful \<^verbatim>\<open>Subscribe\<close>, whose id is
  in the store, and does nothing when there was none.
\<close>

datatype 'h bus_op =
    BusSubscribe string "'h option" string
  | BusUnsubscribe nat
  | BusClose

fun bus_app :: "'h Bus \<Rightarrow> 'h bus_op \<Rightarrow> 'h Bus" where
  "bus_app b (BusSubscribe pattern handler name) = fst (Subscribe b pattern handler name)"
| "bus_app b (BusUnsubscribe k) =
     (if k < length (bus_store b) then unsubscribe b (sub_id (bus_store b ! k)) else b)"
| "bus_app b BusClose = CloseBus b"

text \<open>
  The contract: a set of live subscriptions, each with the number it was made under, the segments
  it asked for and its handler. There are no ids, no maps and no flags on shared objects.
\<close>

record 'h bus_spec =
  spec_made :: nat
  spec_live :: "(nat \<times> string \<times> 'h) set"
  spec_closed :: bool

fun spec_app :: "'h bus_spec \<Rightarrow> 'h bus_op \<Rightarrow> 'h bus_spec" where
  "spec_app s (BusSubscribe pattern handler name) =
     (case handler of
        None \<Rightarrow> s
      | Some h \<Rightarrow> if spec_closed s then s
                 else s\<lparr>spec_made := spec_made s + 1,
                        spec_live := insert (spec_made s, NormalizePattern pattern, h) (spec_live s)\<rparr>)"
| "spec_app s (BusUnsubscribe k) = s\<lparr>spec_live := {x \<in> spec_live s. fst x \<noteq> k}\<rparr>"
| "spec_app s BusClose = s\<lparr>spec_closed := True, spec_live := {}\<rparr>"

definition spec_init :: "'h bus_spec" where
  "spec_init = \<lparr>spec_made = 0, spec_live = {}, spec_closed = False\<rparr>"

section \<open>Lemmas: identifiers\<close>

definition digit36_val :: "char \<Rightarrow> nat" where
  "digit36_val c = (let n = of_char c in if n < 58 then n - 48 else n - 87)"

lemma digit36_val [simp]: "n < 36 \<Longrightarrow> digit36_val (digit36 n) = n"
  by (auto simp: digit36_val_def digit36_def Let_def)

definition val36 :: "string \<Rightarrow> nat" where
  "val36 s = foldl (\<lambda>acc c. 36 * acc + digit36_val c) 0 s"

lemma val36_Format: "val36 (FormatUint36 n) = n"
proof (induction n rule: FormatUint36.induct)
  case (1 n)
  show ?case
  proof (cases "n < 36")
    case True
    then show ?thesis by (subst FormatUint36.simps) (simp add: val36_def)
  next
    case False
    have "val36 (s @ [c]) = 36 * val36 s + digit36_val c" for s c by (simp add: val36_def)
    then show ?thesis using 1 False by (subst FormatUint36.simps) simp
  qed
qed

lemma FormatUint36_inj [simp]: "FormatUint36 m = FormatUint36 n \<longleftrightarrow> m = n"
  by (metis val36_Format)

lemma FormatUint36_nonempty [simp]: "FormatUint36 n \<noteq> []"
  by (subst FormatUint36.simps) simp

section \<open>Lemmas: the store\<close>

lemma closeAt_length [simp]: "length (closeAt store i) = length store"
  by (simp add: closeAt_def)

lemma closeAt_nth:
  "j < length store \<Longrightarrow>
   closeAt store i ! j = (if i = j then (store ! j)\<lparr>sub_closed := True\<rparr> else store ! j)"
  by (auto simp: closeAt_def)

lemma foldl_closeAt_length [simp]: "length (foldl closeAt store is) = length store"
  by (induction "is" arbitrary: store) auto

lemma foldl_closeAt_nth:
  "j < length store \<Longrightarrow>
   foldl closeAt store is ! j = (if j \<in> set is then (store ! j)\<lparr>sub_closed := True\<rparr> else store ! j)"
  by (induction "is" arbitrary: store) (auto simp: closeAt_nth)

text \<open>
  The state of a bus that has made fewer than \<open>2 ^ 64\<close> subscriptions: the map holds exactly the
  open subscriptions of the store, each under the id of its index.
\<close>

definition live_at :: "'h Bus \<Rightarrow> nat \<Rightarrow> bool" where
  "live_at b i \<longleftrightarrow> i < length (bus_store b) \<and> \<not> sub_closed (bus_store b ! i)"

definition bus_inv :: "'h Bus \<Rightarrow> bool" where
  "bus_inv b \<longleftrightarrow>
     bus_nextId b = length (bus_store b) \<and> bus_nextId b < 2 ^ 64 \<and>
     (\<forall>i < length (bus_store b). sub_id (bus_store b ! i) = FormatUint36 (i + 1) \<and>
        sub_handler (bus_store b ! i) \<noteq> None) \<and>
     distinct (map fst (bus_subscriptions b)) \<and>
     set (bus_subscriptions b) = {(FormatUint36 (i + 1), i) | i. live_at b i} \<and>
     (bus_closed b \<longrightarrow> bus_subscriptions b = [])"

lemmas bus_invD = bus_inv_def [THEN iffD1]
lemmas bus_invI = bus_inv_def [THEN iffD2, OF conjI, OF _ conjI, OF _ _ conjI, OF _ _ _ conjI, OF _ _ _ _ conjI]

definition live_subs :: "'h Bus \<Rightarrow> (nat \<times> string \<times> 'h) set" where
  "live_subs b =
     (\<lambda>i. (i, sub_pattern (bus_store b ! i), the (sub_handler (bus_store b ! i)))) ` {i. live_at b i}"

definition bus_rel :: "'h Bus \<Rightarrow> 'h bus_spec \<Rightarrow> bool" where
  "bus_rel b s \<longleftrightarrow> bus_inv b \<and> spec_made s = length (bus_store b) \<and> spec_live s = live_subs b \<and>
     spec_closed s = bus_closed b"

lemma live_at_snoc:
  "live_at (b\<lparr>bus_store := bus_store b @ [sub], bus_subscriptions := m, bus_nextId := n\<rparr>) i \<longleftrightarrow>
     live_at b i \<or> (i = length (bus_store b) \<and> \<not> sub_closed sub)"
  by (auto simp: live_at_def nth_append)

lemma bus_rel_Subscribe:
  assumes "bus_rel b s" and "bus_nextId b < 2 ^ 64 - 1"
  shows "bus_rel (fst (Subscribe b pattern handler name)) (spec_app s (BusSubscribe pattern handler name))"
proof (cases "handler = None \<or> bus_closed b")
  case True
  then show ?thesis using assms(1) by (auto simp: Subscribe_def bus_rel_def split: option.splits)
next
  case False
  then obtain h where h: "handler = Some h" "\<not> bus_closed b" by auto
  let ?n = "length (bus_store b)"
  define sub where "sub = \<lparr>sub_id = FormatUint36 (?n + 1), sub_name = name,
     sub_pattern = NormalizePattern pattern, sub_handler = handler, sub_closed = False\<rparr>"
  define m where "m = map_put (FormatUint36 (?n + 1)) ?n (bus_subscriptions b)"
  have inv: "bus_inv b" and n: "bus_nextId b = ?n" using assms(1) by (simp_all add: bus_rel_def bus_inv_def)
  have "(?n + 1) mod 2 ^ 64 = ?n + 1" using assms(2) n by simp
  then have b': "fst (Subscribe b pattern handler name) =
      b\<lparr>bus_store := bus_store b @ [sub], bus_subscriptions := m, bus_nextId := ?n + 1\<rparr>"
    using h n by (simp add: Subscribe_def generateId_def Let_def sub_def m_def)
  have keys: "set (bus_subscriptions b) = {(FormatUint36 (i + 1), i) | i. live_at b i}"
    using inv by (simp add: bus_inv_def)
  then have fresh: "filter (\<lambda>e. fst e \<noteq> FormatUint36 (?n + 1)) (bus_subscriptions b) = bus_subscriptions b"
    by (auto simp: filter_id_conv live_at_def)
  have m: "m = (FormatUint36 (?n + 1), ?n) # bus_subscriptions b"
    unfolding m_def map_put_def fresh by simp
  have "bus_inv (fst (Subscribe b pattern handler name))"
    unfolding b'
  proof (rule bus_invI)
    show "\<forall>i<length (bus_store (b\<lparr>bus_store := bus_store b @ [sub], bus_subscriptions := m, bus_nextId := ?n + 1\<rparr>)).
        sub_id (bus_store (b\<lparr>bus_store := bus_store b @ [sub], bus_subscriptions := m, bus_nextId := ?n + 1\<rparr>) ! i) =
          FormatUint36 (i + 1) \<and>
        sub_handler (bus_store (b\<lparr>bus_store := bus_store b @ [sub], bus_subscriptions := m, bus_nextId := ?n + 1\<rparr>) ! i) \<noteq> None"
      using bus_invD [OF inv] h by (simp add: nth_append less_Suc_eq sub_def)
    have "FormatUint36 (?n + 1) \<notin> fst ` set (bus_subscriptions b)"
      unfolding keys by (auto simp: live_at_def)
    then show "distinct (map fst (bus_subscriptions (b\<lparr>bus_store := bus_store b @ [sub], bus_subscriptions := m, bus_nextId := ?n + 1\<rparr>)))"
      using bus_invD [OF inv] by (simp add: m)
    have "\<not> sub_closed sub" by (simp add: sub_def)
    then show "set (bus_subscriptions (b\<lparr>bus_store := bus_store b @ [sub], bus_subscriptions := m, bus_nextId := ?n + 1\<rparr>)) =
        {(FormatUint36 (i + 1), i) | i.
          live_at (b\<lparr>bus_store := bus_store b @ [sub], bus_subscriptions := m, bus_nextId := ?n + 1\<rparr>) i}"
      unfolding live_at_snoc by (auto simp: m keys)
  qed (use assms(2) n h in simp_all)
  moreover have "live_subs (fst (Subscribe b pattern handler name)) =
      insert (?n, NormalizePattern pattern, h) (live_subs b)"
  proof -
    have "{i. live_at (fst (Subscribe b pattern handler name)) i} = insert ?n {i. live_at b i}"
      unfolding b' live_at_snoc by (auto simp: sub_def)
    moreover have "bus_store (fst (Subscribe b pattern handler name)) ! i = bus_store b ! i" if "live_at b i" for i
      using that by (simp add: b' nth_append live_at_def)
    moreover have "bus_store (fst (Subscribe b pattern handler name)) ! ?n = sub" by (simp add: b')
    ultimately show ?thesis
      unfolding live_subs_def using h
      by (simp add: sub_def)
  qed
  ultimately show ?thesis using assms(1) h b' by (simp add: bus_rel_def)
qed

lemma bus_rel_unsubscribe:
  assumes "bus_rel b s"
  shows "bus_rel (bus_app b (BusUnsubscribe k)) (spec_app s (BusUnsubscribe k))"
proof (cases "live_at b k")
  case False
  have inv: "bus_inv b" and live: "spec_live s = live_subs b" using assms by (simp_all add: bus_rel_def)
  have "map_of (bus_subscriptions b) (FormatUint36 (k + 1)) = None"
    using inv False unfolding bus_inv_def by (auto simp: map_of_eq_None_iff)
  then have "bus_app b (BusUnsubscribe k) = b"
    using inv by (auto simp: unsubscribe_def bus_inv_def)
  moreover have "{x \<in> live_subs b. fst x \<noteq> k} = live_subs b" using False by (auto simp: live_subs_def)
  ultimately show ?thesis using assms live by (simp add: bus_rel_def)
next
  case True
  have inv: "bus_inv b" and live: "spec_live s = live_subs b" using assms by (simp_all add: bus_rel_def)
  have sid: "sub_id (bus_store b ! k) = FormatUint36 (k + 1)" and k: "k < length (bus_store b)"
    using inv True by (simp_all add: bus_inv_def live_at_def)
  have "map_of (bus_subscriptions b) (FormatUint36 (k + 1)) = Some k"
    using inv True unfolding bus_inv_def by (auto intro: map_of_is_SomeI)
  then have b': "bus_app b (BusUnsubscribe k) = b\<lparr>bus_store := closeAt (bus_store b) k,
      bus_subscriptions := filter (\<lambda>e. fst e \<noteq> FormatUint36 (k + 1)) (bus_subscriptions b)\<rparr>"
    using k by (simp add: unsubscribe_def sid)
  have la: "live_at (bus_app b (BusUnsubscribe k)) i \<longleftrightarrow> live_at b i \<and> i \<noteq> k" for i
    unfolding b' by (auto simp: live_at_def closeAt_nth split: if_splits)
  have "bus_inv (bus_app b (BusUnsubscribe k))"
  proof (rule bus_invI, goal_cases)
    case 3
    then show ?case unfolding b' using bus_invD [OF inv] by (simp add: closeAt_nth)
  next
    case 4
    then show ?case unfolding b' using bus_invD [OF inv] by (simp add: distinct_map_filter)
  next
    case 5
    have "set (bus_subscriptions b) = {(FormatUint36 (i + 1), i) | i. live_at b i}"
      using inv by (simp add: bus_inv_def)
    then show ?case unfolding la unfolding b' by auto
  qed (unfold b', use bus_invD [OF inv] in simp_all)
  moreover have "live_subs (bus_app b (BusUnsubscribe k)) = {x \<in> live_subs b. fst x \<noteq> k}"
  proof -
    have "{i. live_at (bus_app b (BusUnsubscribe k)) i} = {i. live_at b i} - {k}" using la by blast
    moreover have "bus_store (bus_app b (BusUnsubscribe k)) ! i = bus_store b ! i"
      if "i \<in> {i. live_at b i} - {k}" for i
      unfolding b' using that by (simp add: closeAt_nth live_at_def)
    ultimately show ?thesis unfolding live_subs_def by (auto cong: image_cong)
  qed
  ultimately show ?thesis using assms live unfolding bus_rel_def unfolding b' by simp
qed

lemma bus_rel_close:
  assumes "bus_rel b s"
  shows "bus_rel (CloseBus b) (spec_app s BusClose)"
proof -
  have inv: "bus_inv b" using assms by (simp add: bus_rel_def)
  have none: "\<not> live_at (CloseBus b) i" for i
  proof (cases "bus_closed b")
    case True
    then have "set (bus_subscriptions b) = {}" using inv by (simp add: bus_inv_def)
    then show ?thesis using True inv by (auto simp: CloseBus_def bus_inv_def)
  next
    case False
    have keys: "set (bus_subscriptions b) = {(FormatUint36 (i + 1), i) | i. live_at b i}"
      using inv by (simp add: bus_inv_def)
    have "i \<in> snd ` set (bus_subscriptions b)" if "live_at b i"
      unfolding keys using that by (intro image_eqI [of _ _ "(FormatUint36 (i + 1), i)"]) simp_all
    then show ?thesis
      using False by (auto simp: CloseBus_def live_at_def foldl_closeAt_nth split: if_splits)
  qed
  have "bus_inv (CloseBus b)"
    using inv none by (cases "bus_closed b") (auto simp: bus_inv_def CloseBus_def foldl_closeAt_nth)
  then show ?thesis using assms none by (auto simp: bus_rel_def live_subs_def CloseBus_def)
qed

interpretation bus: simulation bus_app spec_app bus_rel "\<lambda>b e. bus_nextId b < 2 ^ 64 - 1"
proof
  fix b :: "'h Bus" and s e
  assume "bus_rel b s" "bus_nextId b < 2 ^ 64 - 1"
  then show "bus_rel (bus_app b e) (spec_app s e)"
    by (cases e) (simp_all only: bus_app.simps(1,3) bus_rel_Subscribe bus_rel_unsubscribe bus_rel_close)
qed

lemma bus_nextId_step: "bus_nextId b < 2 ^ 64 \<Longrightarrow> bus_nextId (bus_app b e) \<le> bus_nextId b + 1"
  by (cases e)
    (auto simp: Subscribe_def generateId_def unsubscribe_def CloseBus_def Let_def split: option.splits)

lemma bus_run_ok:
  "bus_nextId b + length ops < 2 ^ 64 \<Longrightarrow> run_ok bus_app (\<lambda>b e. bus_nextId b < 2 ^ 64 - 1) b ops"
proof (induction ops arbitrary: b)
  case (Cons e ops)
  then show ?case using bus_nextId_step [of b e] by simp
qed simp

lemma bus_rel_init: "bus_rel NewBus spec_init"
  by (simp add: bus_rel_def bus_inv_def NewBus_def spec_init_def live_subs_def live_at_def)

lemma bus_rel_run:
  "length ops < 2 ^ 64 \<Longrightarrow> bus_rel (foldl bus_app NewBus ops) (foldl spec_app spec_init ops)"
  using bus.sim_run [OF bus_rel_init bus_run_ok [of NewBus ops]] by (simp add: NewBus_def)

lemma bus_subs_live:
  assumes "bus_inv b"
  shows "set (map snd (bus_subscriptions b)) = {i. live_at b i}" "distinct (map snd (bus_subscriptions b))"
proof -
  have keys: "set (bus_subscriptions b) = {(FormatUint36 (i + 1), i) | i. live_at b i}"
    using assms by (simp add: bus_inv_def)
  show "set (map snd (bus_subscriptions b)) = {i. live_at b i}"
    unfolding set_map keys by force
  have "distinct (bus_subscriptions b)"
    using assms by (simp add: bus_inv_def distinct_map)
  moreover have "inj_on snd (set (bus_subscriptions b))" unfolding keys by (auto simp: inj_on_def)
  ultimately show "distinct (map snd (bus_subscriptions b))" by (simp add: distinct_map)
qed

lemma collect_live:
  assumes "bus_inv b"
  shows "distinct (collect b topic)"
    "i \<in> set (collect b topic) \<longleftrightarrow> live_at b i \<and> Match (sub_pattern (bus_store b ! i)) topic"
proof -
  show "distinct (collect b topic)"
    using bus_subs_live(2) [OF assms] by (simp add: collect_def)
  have "bus_closed b \<Longrightarrow> \<not> live_at b i"
    using bus_subs_live(1) [OF assms] assms by (auto simp: bus_inv_def)
  then show "i \<in> set (collect b topic) \<longleftrightarrow> live_at b i \<and> Match (sub_pattern (bus_store b ! i)) topic"
    using bus_subs_live(1) [OF assms] by (auto simp: collect_def live_at_def simp del: set_map)
qed

lemma deliverEvent_live:
  assumes "bus_inv b" and "i < length (bus_store b)"
  shows "deliverEvent b i = Some h \<longleftrightarrow> (\<exists>p. (i, p, h) \<in> live_subs b)"
proof -
  have "sub_handler (bus_store b ! i) \<noteq> None" using assms by (simp add: bus_inv_def)
  then show ?thesis using assms(2) by (auto simp: deliverEvent_def live_subs_def live_at_def image_iff)
qed

lemma bus_store_grows: "length (bus_store b) \<le> length (bus_store (foldl bus_app b ops))"
proof (induction ops arbitrary: b)
  case (Cons e ops)
  have "length (bus_store b) \<le> length (bus_store (bus_app b e))"
    by (cases e) (auto simp: Subscribe_def generateId_def unsubscribe_def CloseBus_def Let_def split: option.splits)
  also have "\<dots> \<le> length (bus_store (foldl bus_app b (e # ops)))" using Cons.IH by simp
  finally show ?case .
qed simp

lemma sample_patterns:
  "NormalizePattern ''a.*'' = ''a.*''" "NormalizePattern ''b'' = ''b''"
  "Match ''a.*'' ''a.b''" "\<not> Match ''b'' ''a.b''"
  by (simp_all add: NormalizePattern_def TrimSpace_def is_space_def collapseDots.simps trimDots_def
      Match_def matchSegment_def)

lemmas sample_bus_defs = sample_patterns NewBus_def Subscribe_def generateId_def map_put_def Let_def

section \<open>Properties\<close>



text \<open>
  C34. A cancelled subscription is never called again. Take a delivery that a publish started, and
  anything that happens on the bus before the delivery runs: its handler is called exactly when its
  subscription is still live at that moment, and then it is the handler subscribed.
\<close>

theorem late_delivery_exact:
  assumes "i \<in> set (collect (foldl bus_app NewBus ops) topic)" and "length (ops @ later) < 2 ^ 64"
  shows "deliverEvent (foldl bus_app NewBus (ops @ later)) i = Some h \<longleftrightarrow>
    (\<exists>p. (i, p, h) \<in> spec_live (foldl spec_app spec_init (ops @ later)))"
proof -
  let ?b = "foldl bus_app NewBus (ops @ later)"
  have rel: "bus_rel ?b (foldl spec_app spec_init (ops @ later))" using bus_rel_run assms(2) by blast
  have "bus_inv (foldl bus_app NewBus ops)" using bus_rel_run [of ops] assms(2) by (simp add: bus_rel_def)
  then have "i < length (bus_store (foldl bus_app NewBus ops))"
    using assms(1) collect_live(2) by (auto simp: live_at_def)
  then have "i < length (bus_store ?b)"
    using bus_store_grows [of "foldl bus_app NewBus ops" later] by simp
  then show ?thesis using rel deliverEvent_live [of ?b i h] by (simp add: bus_rel_def)
qed

theorem late_delivery_exact_witness:
  "deliverEvent (foldl bus_app NewBus ([BusSubscribe ''a.*'' (Some (7 :: nat)) ''x''] @ [BusUnsubscribe 0])) 0 \<noteq> Some 7"
proof -
  let ?ops = "[BusSubscribe ''a.*'' (Some (7 :: nat)) ''x'']"
  have "0 \<in> set (collect (foldl bus_app NewBus ?ops) ''a.b'')"
    by (simp add: collect_def sample_bus_defs)
  then show ?thesis
    using late_delivery_exact [of 0 ?ops "''a.b''" "[BusUnsubscribe 0]" 7] by (simp add: spec_init_def)
qed

end
