(* ===== verification/Breaker.thy ===== *)
theory Breaker
  imports Prelude
begin

text \<open>
  The circuit breaker of authored automations (component/automations/authored_breaker.go): one
  small state machine per pair of an owner and an automation, kept in a map under a key made of
  both. The clock is an argument of the operation that reads it; the call of \<^verbatim>\<open>onTrip\<close> is the
  information returned.
\<close>

section \<open>State and operations\<close>

record BreakerTripInfo =
  ti_Owner :: string
  ti_Automation :: string
  ti_BundleId :: string
  ti_Version :: int
  ti_Failures :: int
  ti_LastError :: string
  ti_TrippedAt :: instant

record BreakerSubject =
  su_Owner :: string
  su_Automation :: string
  su_BundleId :: string
  su_Version :: int

record breakerState =
  bk_consecutiveFailures :: int
  bk_open :: bool
  bk_lastError :: string
  bk_trippedAt :: instant

record AuthoredBreaker =
  ab_threshold :: int
  ab_states :: "string \<Rightarrow> breakerState option"

definition DefaultBreakerThreshold :: int where "DefaultBreakerThreshold = 5"

definition NewAuthoredBreaker :: "int \<Rightarrow> AuthoredBreaker" where
  "NewAuthoredBreaker threshold =
     \<lparr>ab_threshold = (if threshold \<le> 0 then DefaultBreakerThreshold else threshold), ab_states = Map.empty\<rparr>"

definition breakerKey :: "string \<Rightarrow> string \<Rightarrow> string" where
  "breakerKey owner name = owner @ CHR 0x00 # name"

definition Allow :: "AuthoredBreaker \<Rightarrow> string \<Rightarrow> string \<Rightarrow> bool" where
  "Allow b owner name =
     (case ab_states b (breakerKey owner name) of None \<Rightarrow> True | Some st \<Rightarrow> \<not> bk_open st)"

definition IsOpen :: "AuthoredBreaker \<Rightarrow> string \<Rightarrow> string \<Rightarrow> bool" where
  "IsOpen b owner name =
     (case ab_states b (breakerKey owner name) of None \<Rightarrow> False | Some st \<Rightarrow> bk_open st)"

definition RecordSuccess :: "AuthoredBreaker \<Rightarrow> string \<Rightarrow> string \<Rightarrow> AuthoredBreaker" where
  "RecordSuccess b owner name =
     (let key = breakerKey owner name
      in case ab_states b key of
           None \<Rightarrow> b
         | Some st \<Rightarrow>
             if bk_open st then b
             else b\<lparr>ab_states := (ab_states b)(key \<mapsto> st\<lparr>bk_consecutiveFailures := 0\<rparr>)\<rparr>)"

definition zeroBreakerState :: breakerState where
  "zeroBreakerState = \<lparr>bk_consecutiveFailures = 0, bk_open = False, bk_lastError = '''', bk_trippedAt = 0\<rparr>"

definition RecordFailure ::
  "AuthoredBreaker \<Rightarrow> BreakerSubject \<Rightarrow> string \<Rightarrow> instant \<Rightarrow> AuthoredBreaker \<times> bool \<times> BreakerTripInfo option" where
  "RecordFailure b subject errMsg now =
     (let key = breakerKey (su_Owner subject) (su_Automation subject);
          st = (case ab_states b key of None \<Rightarrow> zeroBreakerState | Some st \<Rightarrow> st);
          b = b\<lparr>ab_states := (ab_states b)(key \<mapsto> st)\<rparr>
      in if bk_open st then (b, False, None)
         else let st = st\<lparr>bk_consecutiveFailures := bk_consecutiveFailures st + 1, bk_lastError := errMsg\<rparr>;
                  tripped = bk_consecutiveFailures st \<ge> ab_threshold b
              in if tripped
                 then (b\<lparr>ab_states := (ab_states b)(key \<mapsto> st\<lparr>bk_open := True, bk_trippedAt := now\<rparr>)\<rparr>, True,
                       Some \<lparr>ti_Owner = su_Owner subject, ti_Automation = su_Automation subject,
                             ti_BundleId = su_BundleId subject, ti_Version = su_Version subject,
                             ti_Failures = bk_consecutiveFailures st, ti_LastError = errMsg, ti_TrippedAt = now\<rparr>)
                 else (b\<lparr>ab_states := (ab_states b)(key \<mapsto> st)\<rparr>, False, None))"

definition Reset :: "AuthoredBreaker \<Rightarrow> string \<Rightarrow> string \<Rightarrow> AuthoredBreaker" where
  "Reset b owner name = b\<lparr>ab_states := (ab_states b)(breakerKey owner name := None)\<rparr>"

section \<open>Histories\<close>

datatype breaker_op =
    OpSuccess string string
  | OpFailure BreakerSubject string instant
  | OpReset string string

fun breaker_app :: "AuthoredBreaker \<Rightarrow> breaker_op \<Rightarrow> AuthoredBreaker" where
  "breaker_app b (OpSuccess owner name) = RecordSuccess b owner name"
| "breaker_app b (OpFailure subject errMsg now) = fst (RecordFailure b subject errMsg now)"
| "breaker_app b (OpReset owner name) = Reset b owner name"

fun op_pair :: "breaker_op \<Rightarrow> string \<times> string" where
  "op_pair (OpSuccess owner name) = (owner, name)"
| "op_pair (OpFailure subject errMsg now) = (su_Owner subject, su_Automation subject)"
| "op_pair (OpReset owner name) = (owner, name)"

fun is_failure :: "breaker_op \<Rightarrow> bool" where
  "is_failure (OpFailure subject errMsg now) = True"
| "is_failure _ = False"

fun is_reset :: "breaker_op \<Rightarrow> bool" where
  "is_reset (OpReset owner name) = True"
| "is_reset _ = False"

text \<open>A run of \<open>t\<close> failures with no success or reset among them, and no reset after it.\<close>

definition struck_out :: "int \<Rightarrow> breaker_op list \<Rightarrow> bool" where
  "struck_out t own \<longleftrightarrow>
     (\<exists>us fs vs. own = us @ fs @ vs \<and> t \<le> int (length fs) \<and> list_all is_failure fs \<and> \<not> list_ex is_reset vs)"

definition streak :: "breaker_op list \<Rightarrow> int" where
  "streak own = int (length (takeWhile is_failure (rev own)))"

section \<open>Lemmas\<close>

lemma breakerKey_inj:
  "CHR 0x00 \<notin> set o1 \<Longrightarrow> CHR 0x00 \<notin> set o2 \<Longrightarrow>
   breakerKey o1 n1 = breakerKey o2 n2 \<longleftrightarrow> o1 = o2 \<and> n1 = n2"
  unfolding breakerKey_def using append_sep_cancel [of "CHR 0x00" o1 o2 n1 n2] by auto

lemma streak_snoc [simp]: "streak (own @ [x]) = (if is_failure x then streak own + 1 else 0)"
  by (simp add: streak_def)

lemma streak_fails:
  "0 \<le> n \<Longrightarrow> n \<le> streak own \<longleftrightarrow> (\<exists>us fs. own = us @ fs \<and> int (length fs) = n \<and> list_all is_failure fs)"
proof (induction own arbitrary: n rule: rev_induct)
  case (snoc x own)
  show ?case
  proof (cases "n = 0")
    case False
    have "(\<exists>us fs. own @ [x] = us @ fs \<and> int (length fs) = n \<and> list_all is_failure fs) \<longleftrightarrow>
        is_failure x \<and> (\<exists>us fs. own = us @ fs \<and> int (length fs) = n - 1 \<and> list_all is_failure fs)"
    proof
      assume "\<exists>us fs. own @ [x] = us @ fs \<and> int (length fs) = n \<and> list_all is_failure fs"
      then obtain us fs where "own @ [x] = us @ fs" "int (length fs) = n" "list_all is_failure fs" by blast
      moreover from this obtain gs where "fs = gs @ [x]"
        using False by (metis append_butlast_last_id last_appendR last_snoc length_0_conv of_nat_0)
      ultimately have "is_failure x" "own = us @ gs" "int (length gs) = n - 1" "list_all is_failure gs" by auto
      then show "is_failure x \<and> (\<exists>us fs. own = us @ fs \<and> int (length fs) = n - 1 \<and> list_all is_failure fs)"
        by blast
    next
      assume "is_failure x \<and> (\<exists>us fs. own = us @ fs \<and> int (length fs) = n - 1 \<and> list_all is_failure fs)"
      then obtain us fs where "is_failure x" "own = us @ fs" "int (length fs) = n - 1" "list_all is_failure fs" by blast
      then show "\<exists>us fs. own @ [x] = us @ fs \<and> int (length fs) = n \<and> list_all is_failure fs"
        by (intro exI [of _ us] exI [of _ "fs @ [x]"]) simp
    qed
    then show ?thesis using snoc.IH [of "n - 1"] snoc.prems False by auto
  qed (auto simp: streak_def)
qed (auto simp: streak_def)

lemma struck_out_snoc:
  assumes "1 \<le> t"
  shows "struck_out t (own @ [x]) \<longleftrightarrow> \<not> is_reset x \<and> (struck_out t own \<or> t \<le> streak (own @ [x]))"
proof
  assume "struck_out t (own @ [x])"
  then obtain us fs vs where d: "own @ [x] = us @ fs @ vs" "t \<le> int (length fs)" "list_all is_failure fs"
    "\<not> list_ex is_reset vs" unfolding struck_out_def by blast
  show "\<not> is_reset x \<and> (struck_out t own \<or> t \<le> streak (own @ [x]))"
  proof (cases vs rule: rev_cases)
    case Nil
    then have "int (length fs) \<le> streak (own @ [x])" using d streak_fails [of "int (length fs)" "own @ [x]"] by auto
    moreover have "is_failure x" using calculation assms d(2) by (auto split: if_splits)
    ultimately show ?thesis using d(2) by (cases x) auto
  next
    case (snoc ws y)
    then have "own = us @ fs @ ws" "y = x" using d(1) by simp_all
    then show ?thesis using d snoc unfolding struck_out_def by auto
  qed
next
  assume R: "\<not> is_reset x \<and> (struck_out t own \<or> t \<le> streak (own @ [x]))"
  then show "struck_out t (own @ [x])"
  proof (cases "struck_out t own")
    case True
    then obtain us fs vs where "own = us @ fs @ vs" "t \<le> int (length fs)" "list_all is_failure fs"
      "\<not> list_ex is_reset vs" unfolding struck_out_def by blast
    then show ?thesis unfolding struck_out_def using R
      by (intro exI [of _ us] exI [of _ fs] exI [of _ "vs @ [x]"]) simp
  next
    case False
    then obtain us fs where "own @ [x] = us @ fs" "int (length fs) = t" "list_all is_failure fs"
      using R assms streak_fails [of t "own @ [x]"] by auto
    then show ?thesis unfolding struck_out_def by (intro exI [of _ us] exI [of _ fs] exI [of _ "[]"]) simp
  qed
qed

lemma threshold_kept [simp]: "ab_threshold (breaker_app b e) = ab_threshold b"
  by (cases e) (auto simp: RecordSuccess_def RecordFailure_def Reset_def Let_def split: option.splits)

text \<open>The state kept for one pair, seen as a function of the operations on that pair alone.\<close>

definition pair_rel :: "int \<Rightarrow> breakerState option \<Rightarrow> breaker_op list \<Rightarrow> bool" where
  "pair_rel t st own \<longleftrightarrow>
     (case st of
        None \<Rightarrow> \<not> struck_out t own \<and> streak own = 0
      | Some s \<Rightarrow> bk_open s = struck_out t own \<and> (\<not> bk_open s \<longrightarrow> bk_consecutiveFailures s = streak own))"

lemma pair_step_other:
  assumes "CHR 0x00 \<notin> set owner" "CHR 0x00 \<notin> set (fst (op_pair e))" "op_pair e \<noteq> (owner, name)"
  shows "ab_states (breaker_app b e) (breakerKey owner name) = ab_states b (breakerKey owner name)"
proof -
  have "breakerKey (fst (op_pair e)) (snd (op_pair e)) \<noteq> breakerKey owner name"
    using assms by (auto simp: breakerKey_inj)
  then show ?thesis
    by (cases e) (auto simp: RecordSuccess_def RecordFailure_def Reset_def Let_def split: option.splits)
qed

lemma pair_step_own:
  assumes "pair_rel t (ab_states b (breakerKey owner name)) own" "op_pair e = (owner, name)"
    "ab_threshold b = t" "1 \<le> t"
  shows "pair_rel t (ab_states (breaker_app b e) (breakerKey owner name)) (own @ [e])"
  using assms
  by (cases e)
    (auto simp: pair_rel_def struck_out_snoc RecordSuccess_def RecordFailure_def Reset_def Let_def zeroBreakerState_def
      split: option.splits if_splits)

lemma pair_rel_run:
  assumes "CHR 0x00 \<notin> set owner" "\<forall>e \<in> set es. CHR 0x00 \<notin> set (fst (op_pair e))" "t = ab_threshold (NewAuthoredBreaker n)"
  shows "ab_threshold (foldl breaker_app (NewAuthoredBreaker n) es) = t \<and>
    pair_rel t (ab_states (foldl breaker_app (NewAuthoredBreaker n) es) (breakerKey owner name))
      (filter (\<lambda>e. op_pair e = (owner, name)) es)"
  using assms(2)
proof (induction es rule: rev_induct)
  case Nil
  have "1 \<le> t" using assms(3) by (simp add: NewAuthoredBreaker_def DefaultBreakerThreshold_def)
  then show ?case using assms(3) by (auto simp: NewAuthoredBreaker_def pair_rel_def struck_out_def streak_def)
next
  case (snoc e es)
  have t: "1 \<le> t" using assms(3) by (simp add: NewAuthoredBreaker_def DefaultBreakerThreshold_def)
  show ?case
  proof (cases "op_pair e = (owner, name)")
    case True
    then show ?thesis using snoc pair_step_own [OF _ True _ t] by simp
  next
    case False
    then show ?thesis using snoc pair_step_other [OF assms(1) _ False] by simp
  qed
qed

section \<open>Properties\<close>

text \<open>
  C23. The breaker trips on its own automation's failures alone, and only then. Over any history of
  successes, failures and re-activations of any automations, with no owner holding a NUL byte, the
  breaker of one pair is open exactly when the operations on that pair hold a run of consecutive
  failures as long as the threshold with no re-activation after it. What other automations do,
  and successes after the trip, change nothing.
\<close>

theorem breaker_opens_exactly:
  assumes "CHR 0x00 \<notin> set owner" and "\<forall>e \<in> set es. CHR 0x00 \<notin> set (fst (op_pair e))"
  shows "(IsOpen (foldl breaker_app (NewAuthoredBreaker n) es) owner name \<longleftrightarrow>
      struck_out (if n \<le> 0 then 5 else n) (filter (\<lambda>e. op_pair e = (owner, name)) es)) \<and>
    (Allow (foldl breaker_app (NewAuthoredBreaker n) es) owner name \<longleftrightarrow>
      \<not> IsOpen (foldl breaker_app (NewAuthoredBreaker n) es) owner name)"
proof
  show "IsOpen (foldl breaker_app (NewAuthoredBreaker n) es) owner name \<longleftrightarrow>
      struck_out (if n \<le> 0 then 5 else n) (filter (\<lambda>e. op_pair e = (owner, name)) es)"
    using pair_rel_run [OF assms refl, of n name]
    by (auto simp: pair_rel_def IsOpen_def NewAuthoredBreaker_def DefaultBreakerThreshold_def split: option.splits)
  show "Allow (foldl breaker_app (NewAuthoredBreaker n) es) owner name \<longleftrightarrow>
      \<not> IsOpen (foldl breaker_app (NewAuthoredBreaker n) es) owner name"
    by (simp add: Allow_def IsOpen_def split: option.splits)
qed

definition bad_run :: breaker_op where
  "bad_run = OpFailure \<lparr>su_Owner = ''ana'', su_Automation = ''a'', su_BundleId = ''b1'', su_Version = 1\<rparr> ''boom'' 1"

theorem breaker_opens_exactly_witness:
  "IsOpen (foldl breaker_app (NewAuthoredBreaker 2) [bad_run, OpSuccess ''bob'' ''a'', bad_run]) ''ana'' ''a'' \<and>
   \<not> IsOpen (foldl breaker_app (NewAuthoredBreaker 2) [bad_run, OpSuccess ''ana'' ''a'', bad_run]) ''ana'' ''a''"
proof -
  have "struck_out 2 [bad_run, bad_run]"
    unfolding struck_out_def
    by (intro exI [of _ "[]"] exI [of _ "[bad_run, bad_run]"]) (simp add: bad_run_def)
  moreover have "\<not> struck_out 2 [bad_run, OpSuccess ''ana'' ''a'', bad_run]"
  proof -
    have "\<not> struck_out 2 []" by (auto simp: struck_out_def)
    then show ?thesis
      using struck_out_snoc [of 2 "[bad_run, OpSuccess ''ana'' ''a'']" bad_run]
        struck_out_snoc [of 2 "[bad_run]" "OpSuccess ''ana'' ''a''"] struck_out_snoc [of 2 "[]" bad_run]
      by (simp add: streak_def bad_run_def)
  qed
  ultimately show ?thesis
    using breaker_opens_exactly [of "''ana''" "[bad_run, OpSuccess ''bob'' ''a'', bad_run]" 2 "''a''"]
      breaker_opens_exactly [of "''ana''" "[bad_run, OpSuccess ''ana'' ''a'', bad_run]" 2 "''a''"]
    by (simp add: bad_run_def)
qed

end
