(* ===== verification/LoopGuard.thy ===== *)
theory LoopGuard
  imports Symptom
begin

text \<open>
  The run-time loop protection of automations: an event's causal lineage (component/events/cause.go,
  with the wire forms of cause_proto.go and component/node/eventbridge.go), the bound a fire is held
  to and the cause it runs under (component/automations/loop_runtime.go and the three lines of
  executor.go that compose them), and the lineage a journal keeps (journal_loop.go, the trigger of
  journal.go). A \<^verbatim>\<open>context.Context\<close> is the cause it carries, if any; the fingerprint engine and
  \<^verbatim>\<open>strconv.ParseFloat\<close> are parameters.
\<close>

section \<open>Causes\<close>

record Link =
  lk_Automation :: string
  lk_RunId :: string

record Cause =
  ca_CausationId :: string
  ca_CorrelationId :: string
  ca_Depth :: int
  ca_Chain :: "Link list"

definition zeroCause :: Cause where
  "zeroCause = \<lparr>ca_CausationId = '''', ca_CorrelationId = '''', ca_Depth = 0, ca_Chain = []\<rparr>"

definition CauseIsZero :: "Cause \<Rightarrow> bool" where
  "CauseIsZero c \<longleftrightarrow> ca_CausationId c = '''' \<and> ca_CorrelationId c = '''' \<and> ca_Depth c = 0 \<and> ca_Chain c = []"

definition Next :: "Cause \<Rightarrow> string \<Rightarrow> string \<Rightarrow> string \<Rightarrow> Cause" where
  "Next c automation runId correlationId =
     \<lparr>ca_CausationId = runId, ca_CorrelationId = correlationId, ca_Depth = wrap64 (ca_Depth c + 1),
      ca_Chain = ca_Chain c @ [\<lparr>lk_Automation = automation, lk_RunId = runId\<rparr>]\<rparr>"

type_synonym cause_context = "Cause option"

definition ContextWithCause :: "cause_context \<Rightarrow> Cause \<Rightarrow> cause_context" where
  "ContextWithCause ctx c = Some c"

definition CauseFromContext :: "cause_context \<Rightarrow> Cause option" where
  "CauseFromContext ctx =
     (case ctx of None \<Rightarrow> None | Some c \<Rightarrow> if CauseIsZero c then None else Some c)"

section \<open>Wire and journal forms\<close>

record EventCause =
  ec_CausationId :: string
  ec_CorrelationId :: string
  ec_Depth :: int
  ec_Chain :: "Link list"

definition CauseToBusProto :: "Cause \<Rightarrow> EventCause option" where
  "CauseToBusProto c =
     (if CauseIsZero c then None
      else Some \<lparr>ec_CausationId = ca_CausationId c, ec_CorrelationId = ca_CorrelationId c,
                 ec_Depth = wrap32 (ca_Depth c), ec_Chain = ca_Chain c\<rparr>)"

definition CauseFromBusProto :: "EventCause option \<Rightarrow> Cause" where
  "CauseFromBusProto p =
     (case p of
        None \<Rightarrow> zeroCause
      | Some w \<Rightarrow> \<lparr>ca_CausationId = ec_CausationId w, ca_CorrelationId = ec_CorrelationId w,
                    ca_Depth = ec_Depth w, ca_Chain = ec_Chain w\<rparr>)"

text \<open>The mesh hop has its own, structurally equal message.\<close>

definition causeToProto :: "Cause \<Rightarrow> EventCause option" where
  "causeToProto c =
     (if CauseIsZero c then None
      else Some \<lparr>ec_CausationId = ca_CausationId c, ec_CorrelationId = ca_CorrelationId c,
                 ec_Depth = wrap32 (ca_Depth c), ec_Chain = ca_Chain c\<rparr>)"

definition causeFromProto :: "EventCause option \<Rightarrow> Cause" where
  "causeFromProto p =
     (case p of
        None \<Rightarrow> zeroCause
      | Some w \<Rightarrow> \<lparr>ca_CausationId = ec_CausationId w, ca_CorrelationId = ec_CorrelationId w,
                    ca_Depth = ec_Depth w, ca_Chain = ec_Chain w\<rparr>)"

text \<open>The JSON of a cause, by its field tags; every field but those of a link is omitted when empty.\<close>

definition linkObject :: "Link \<Rightarrow> any" where
  "linkObject l = JObj [(''automation'', JStr (lk_Automation l)), (''runId'', JStr (lk_RunId l))]"

definition causeObject :: "Cause \<Rightarrow> (string \<times> any) list" where
  "causeObject c =
     (if ca_CausationId c = '''' then [] else [(''causationId'', JStr (ca_CausationId c))]) @
     (if ca_CorrelationId c = '''' then [] else [(''correlationId'', JStr (ca_CorrelationId c))]) @
     (if ca_Depth c = 0 then [] else [(''depth'', JInt (ca_Depth c))]) @
     (if ca_Chain c = [] then [] else [(''chain'', JArr (map linkObject (ca_Chain c)))])"

definition linkFromMap :: "(string \<times> any) list \<Rightarrow> Link" where
  "linkFromMap m = \<lparr>lk_Automation = asStr (getf m ''automation''), lk_RunId = asStr (getf m ''runId'')\<rparr>"

fun causeDepth :: "(string \<Rightarrow> float64 option) \<Rightarrow> any \<Rightarrow> int" where
  "causeDepth parseFloat v =
     (let d = (case v of
            JFloat n \<Rightarrow> ClampFloat64 n
          | JInt n \<Rightarrow> n
          | JInt64 n \<Rightarrow> ClampInt64 n
          | JInt32 n \<Rightarrow> n
          | JNumber s \<Rightarrow> (case Atoi s of
                Some i \<Rightarrow> ClampInt64 i
              | None \<Rightarrow> (case parseFloat s of Some f \<Rightarrow> ClampFloat64 f | None \<Rightarrow> 0))
          | _ \<Rightarrow> 0)
      in if d < 0 then 0 else d)"

fun chainFrom :: "any list \<Rightarrow> Link list" where
  "chainFrom [] = []"
| "chainFrom (JObj link # entries) = linkFromMap link # chainFrom entries"
| "chainFrom (entry # entries) = chainFrom entries"

definition CauseFromMap :: "(string \<Rightarrow> float64 option) \<Rightarrow> (string \<times> any) list \<Rightarrow> Cause" where
  "CauseFromMap parseFloat m =
     (if m = [] then zeroCause
      else \<lparr>ca_CausationId = asStr (getf m ''causationId''), ca_CorrelationId = asStr (getf m ''correlationId''),
            ca_Depth = causeDepth parseFloat (getf m ''depth''),
            ca_Chain = (case getf m ''chain'' of JArr entries \<Rightarrow> chainFrom entries | _ \<Rightarrow> [])\<rparr>)"

section \<open>Events and their kinds\<close>

text \<open>
  A kind is its number. The two system kinds, 29 and 30, have no name of their own, as in the
  source.
\<close>

type_synonym EventKind = int

definition KindUnspecified :: EventKind where "KindUnspecified = 0"

definition kindNames :: "string list" where
  "kindNames =
     [''unspecified'', ''telemetry'', ''message'', ''graph_update'', ''si_event'',
      ''node_created'', ''node_deleted'', ''node_updated'', ''query_executed'',
      ''si_completion_started'', ''si_completion_finished'', ''si_completion_error'',
      ''session_opened'', ''session_closed'',
      ''automation_started'', ''automation_completed'', ''automation_failed'',
      ''automation_step_started'', ''automation_step_completed'', ''automation_step_failed'',
      ''tool_called'', ''tool_completed'', ''tool_failed'',
      ''cluster_node_registered'', ''cluster_node_deregistered'', ''cluster_node_health_changed'',
      ''spawn_requested'', ''spawn_completed'', ''spawn_failed'',
      ''unspecified'', ''unspecified'', ''cache_invalidate'', ''precondition_missed'',
      ''authoring_promote'', ''authoring_demote'', ''providers_reload'',
      ''automation_run_request'', ''automation_run_trace'', ''authoring_arm'', ''authoring_disarm'']"

definition KindString :: "EventKind \<Rightarrow> string" where
  "KindString k =
     (if 0 \<le> k \<and> k < int (length kindNames) then kindNames ! nat k else ''unspecified'')"

definition kindScanLimit :: nat where "kindScanLimit = 256"

definition kindNamed :: "string \<Rightarrow> EventKind" where
  "kindNamed name =
     (case first_hit (\<lambda>k. KindString k = name) (map int [0..<kindScanLimit]) of
        Some k \<Rightarrow> k
      | None \<Rightarrow> KindUnspecified)"

record Event =
  evt_Topic :: string
  evt_Kind :: EventKind
  evt_Payload :: "(string \<times> any) list"
  evt_Cause :: Cause

definition WithCause :: "Event \<Rightarrow> Cause \<Rightarrow> Event" where
  "WithCause e c = e\<lparr>evt_Cause := c\<rparr>"

section \<open>The bound on a fire\<close>

record LoopAutomation =
  au_Name :: string
  au_Loop :: "int option"

definition LoopStopDepth :: string where "LoopStopDepth = ''depth''"
definition LoopStopLoopBound :: string where "LoopStopLoopBound = ''loop_bound''"

record LoopRefusal =
  lr_Reason :: string
  lr_Automation :: string
  lr_Depth :: int
  lr_Cap :: int
  lr_Cause :: Cause

definition priorRuns :: "Cause \<Rightarrow> Link list" where
  "priorRuns run =
     (if ca_Chain run \<noteq> [] \<and> lk_RunId (last (ca_Chain run)) = ca_CausationId run
      then butlast (ca_Chain run) else ca_Chain run)"

definition chainText :: "Link list \<Rightarrow> string" where
  "chainText chain =
     (if chain = [] then ''(no run recorded)''
      else Join (map (\<lambda>l. lk_Automation l @ '' ('' @ lk_RunId l @ '')'') chain) '' -> '')"

definition refusalError :: "LoopRefusal \<Rightarrow> string" where
  "refusalError r =
     (let bound = (if lr_Reason r = LoopStopLoopBound
                   then ''past its @loop maxDepth of '' @ itoa (lr_Cap r) @ '' runs in one chain''
                   else ''past the cap of '' @ itoa (lr_Cap r))
      in TerminalLoopDepthExceeded @ '': '' @ lr_Automation r @ '' would run at depth '' @ itoa (lr_Depth r) @
         '', '' @ bound @ ''; chain: '' @ chainText (priorRuns (lr_Cause r)) @ '' ['' @
         TerminalLoopDepthExceeded @ '']'')"

text \<open>\<open>fromMap\<close> and \<open>mustFromMap\<close> are the fingerprint engine; the first fails on a payload with no JSON.\<close>

definition rootCorrelation ::
  "((string \<times> any) list \<Rightarrow> string option) \<Rightarrow> ((string \<times> any) list \<Rightarrow> string) \<Rightarrow> Event option \<Rightarrow> string" where
  "rootCorrelation fromMap mustFromMap ev =
     (case ev of
        None \<Rightarrow> ''''
      | Some e \<Rightarrow>
          ''evt-'' @
          (case fromMap [(''topic'', JStr (evt_Topic e)), (''kind'', JStr (KindString (evt_Kind e))),
                         (''payload'', JObj (evt_Payload e))] of
             Some fp \<Rightarrow> fp
           | None \<Rightarrow> mustFromMap [(''topic'', JStr (evt_Topic e)), (''kind'', JStr (KindString (evt_Kind e)))]))"

text \<open>\<open>corr\<close> is \<open>rootCorrelation\<close> at the engine in use.\<close>

definition runCause ::
  "(Event option \<Rightarrow> string) \<Rightarrow> cause_context \<Rightarrow> LoopAutomation option \<Rightarrow> string \<Rightarrow> Event option \<Rightarrow> Cause \<times> Cause" where
  "runCause corr ctx automation runId ev =
     (let parent = (case ev of
            Some e \<Rightarrow> if \<not> CauseIsZero (evt_Cause e) then evt_Cause e
                     else (case CauseFromContext ctx of Some c \<Rightarrow> c | None \<Rightarrow> zeroCause)
          | None \<Rightarrow> (case CauseFromContext ctx of Some c \<Rightarrow> c | None \<Rightarrow> zeroCause));
          correlation = (if ca_CorrelationId parent \<noteq> '''' then ca_CorrelationId parent
                         else if ev \<noteq> None then corr ev else runId);
          name = (case automation of None \<Rightarrow> '''' | Some a \<Rightarrow> au_Name a)
      in (parent, Next parent name runId correlation))"

definition loopBound :: "LoopAutomation option \<Rightarrow> Cause \<Rightarrow> int \<Rightarrow> LoopRefusal option" where
  "loopBound automation run cap =
     (case automation of
        None \<Rightarrow> None
      | Some a \<Rightarrow>
          if ca_Depth run > cap
          then Some \<lparr>lr_Reason = LoopStopDepth, lr_Automation = au_Name a, lr_Depth = ca_Depth run,
                     lr_Cap = cap, lr_Cause = run\<rparr>
          else (case au_Loop a of
                  None \<Rightarrow> None
                | Some maxDepth \<Rightarrow>
                    if maxDepth > 0 \<and>
                       int (length (filter (\<lambda>l. lk_Automation l = au_Name a) (priorRuns run))) \<ge> maxDepth
                    then Some \<lparr>lr_Reason = LoopStopLoopBound, lr_Automation = au_Name a,
                               lr_Depth = ca_Depth run, lr_Cap = maxDepth, lr_Cause = run\<rparr>
                    else None))"

definition contextWithRunCause :: "cause_context \<Rightarrow> Cause \<Rightarrow> Cause \<Rightarrow> LoopRefusal option \<Rightarrow> cause_context" where
  "contextWithRunCause ctx parent run refusal =
     (if refusal \<noteq> None then ContextWithCause ctx parent else ContextWithCause ctx run)"

definition maxChainDepthEnv :: string where "maxChainDepthEnv = ''MEMQL_AUTOMATION_MAX_CHAIN_DEPTH''"

definition defaultMaxChainDepth :: int where "defaultMaxChainDepth = 16"

definition envIntDefault :: "(string \<Rightarrow> string) \<Rightarrow> string \<Rightarrow> int \<Rightarrow> int" where
  "envIntDefault getenv key def =
     (let v = TrimSpace (getenv key)
      in if v = '''' then def else (case Atoi v of Some n \<Rightarrow> n | None \<Rightarrow> def))"

definition maxChainDepth :: "(string \<Rightarrow> string) \<Rightarrow> int" where
  "maxChainDepth getenv =
     (let n = envIntDefault getenv maxChainDepthEnv defaultMaxChainDepth
      in if n \<ge> 1 then n else defaultMaxChainDepth)"

text \<open>The lines of \<^verbatim>\<open>executeWithEvent\<close> that place a fire: its refusal, if any, and its context.\<close>

definition placeFire ::
  "(string \<Rightarrow> string) \<Rightarrow> (Event option \<Rightarrow> string) \<Rightarrow> cause_context \<Rightarrow> LoopAutomation \<Rightarrow> string \<Rightarrow> Event option \<Rightarrow>
   LoopRefusal option \<times> cause_context" where
  "placeFire getenv corr ctx automation runId ev =
     (let (parent, cause) = runCause corr ctx (Some automation) runId ev;
          refusal = loopBound (Some automation) cause (maxChainDepth getenv)
      in (refusal, contextWithRunCause ctx parent cause refusal))"

section \<open>The journal\<close>

definition loopRecord :: "LoopRefusal \<Rightarrow> (string \<times> any) list" where
  "loopRecord r =
     [(''reason'', JStr (lr_Reason r)), (''depth'', JInt (lr_Depth r)), (''cap'', JInt (lr_Cap r)),
      (''correlationId'', JStr (ca_CorrelationId (lr_Cause r))),
      (''chain'', JArr (map linkObject (priorRuns (lr_Cause r))))]"

text \<open>The trigger a run's row records, and the event and the cause rebuilt from it.\<close>

definition openRunTrigger :: "Event option \<Rightarrow> Cause \<Rightarrow> (string \<times> any) list option" where
  "openRunTrigger ev parent =
     map_option (\<lambda>e.
       [(''topic'', JStr (evt_Topic e)), (''kind'', JStr (KindString (evt_Kind e))),
        (''payload'', JObj (evt_Payload e))] @
       (if CauseIsZero parent then [] else [(''cause'', JObj (causeObject parent))])) ev"

definition journalTriggerEvent ::
  "(string \<Rightarrow> float64 option) \<Rightarrow> (string \<times> any) list option \<Rightarrow> Event option" where
  "journalTriggerEvent parseFloat trigger =
     map_option (\<lambda>m.
       \<lparr>evt_Topic = asStr (getf m ''topic''), evt_Kind = kindNamed (asStr (getf m ''kind'')),
        evt_Payload = asObj (getf m ''payload''),
        evt_Cause = CauseFromMap parseFloat (asObj (getf m ''cause''))\<rparr>) trigger"

definition journalRunCause ::
  "(string \<Rightarrow> float64 option) \<Rightarrow> (Event option \<Rightarrow> string) \<Rightarrow> cause_context \<Rightarrow> LoopAutomation option \<Rightarrow> string \<Rightarrow>
   (string \<times> any) list option \<Rightarrow> Cause" where
  "journalRunCause parseFloat corr ctx automation runId trigger =
     snd (runCause corr ctx automation runId (journalTriggerEvent parseFloat trigger))"

section \<open>Lemmas: transport\<close>

lemma CauseIsZero_iff: "CauseIsZero c \<longleftrightarrow> c = zeroCause"
  by (cases c) (auto simp: CauseIsZero_def zeroCause_def)

lemma zeroCause_simps [simp]:
  "ca_CausationId zeroCause = ''''" "ca_CorrelationId zeroCause = ''''" "ca_Depth zeroCause = 0"
  "ca_Chain zeroCause = []"
  by (simp_all add: zeroCause_def)

lemma linkFromMap_read: "linkFromMap (asObj (jsonRead (linkObject l))) = l"
  by (cases l) (simp add: linkFromMap_def linkObject_def)

lemma chainFrom_read: "chainFrom (map (jsonRead \<circ> linkObject) ls) = ls"
proof (induction ls)
  case (Cons l ls)
  obtain m where m: "jsonRead (linkObject l) = JObj m" by (simp add: linkObject_def)
  then have "linkFromMap m = l" using linkFromMap_read [of l] by simp
  then show ?case using m Cons by simp
qed simp

definition readObj :: "(string \<times> any) list \<Rightarrow> (string \<times> any) list" where
  "readObj m = asObj (jsonRead (JObj m))"

lemma getf_readObj: "getf (readObj m) k = jsonRead (getf m k)"
  by (induction m) (auto simp: readObj_def getf_def)

lemma readObj_empty [simp]: "readObj m = [] \<longleftrightarrow> m = []"
  by (simp add: readObj_def)

lemma CauseFromMap_read:
  assumes "0 \<le> ca_Depth c" "ca_Depth c \<le> MaxInt64"
  shows "CauseFromMap parseFloat (readObj (causeObject c)) = c"
proof (cases "causeObject c = []")
  case True
  then have "c = zeroCause" by (auto simp: causeObject_def CauseIsZero_iff [symmetric] CauseIsZero_def split: if_splits)
  then show ?thesis using True by (simp add: CauseFromMap_def readObj_def)
next
  case False
  have d: "causeDepth parseFloat (jsonRead (getf (causeObject c) ''depth'')) = ca_Depth c"
    using assms by (simp add: causeObject_def getf_append in64_nonneg_le del: ClampFloat64.simps)
  have "asStr (jsonRead (getf (causeObject c) ''causationId'')) = ca_CausationId c"
    "asStr (jsonRead (getf (causeObject c) ''correlationId'')) = ca_CorrelationId c"
    by (simp_all add: causeObject_def getf_append)
  moreover have "(case jsonRead (getf (causeObject c) ''chain'') of JArr entries \<Rightarrow> chainFrom entries | _ \<Rightarrow> []) = ca_Chain c"
    using chainFrom_read [of "ca_Chain c"] by (simp add: causeObject_def getf_append comp_def)
  ultimately show ?thesis using False d by (simp add: CauseFromMap_def getf_readObj)
qed

text \<open>The ways a cause travels from the run that carries it to a fire it causes.\<close>

datatype route = InProcess | BusHop | MeshHop | Journalled

fun transport :: "(string \<Rightarrow> float64 option) \<Rightarrow> route \<Rightarrow> Cause \<Rightarrow> Cause" where
  "transport parseFloat InProcess c = c"
| "transport parseFloat BusHop c = CauseFromBusProto (CauseToBusProto c)"
| "transport parseFloat MeshHop c = causeFromProto (causeToProto c)"
| "transport parseFloat Journalled c = CauseFromMap parseFloat (readObj (causeObject c))"

lemma transport_id:
  assumes "0 \<le> ca_Depth c" "ca_Depth c \<le> MaxInt32"
  shows "transport parseFloat r c = c"
proof -
  have "wrap32 (ca_Depth c) = ca_Depth c" using assms by (intro wrap32_id) (simp_all add: MinInt32_def)
  moreover have "ca_Depth c \<le> MaxInt64" using assms by (simp add: MaxInt32_def MaxInt64_def)
  ultimately show ?thesis
    using assms CauseFromMap_read [of c parseFloat]
    by (cases r) (auto simp: CauseFromBusProto_def CauseToBusProto_def causeFromProto_def causeToProto_def CauseIsZero_iff)
qed

section \<open>Lemmas: the bound\<close>

lemma priorRuns_Next [simp]: "priorRuns (Next c a r k) = ca_Chain c"
  by (simp add: priorRuns_def Next_def)

definition runs_of :: "string \<Rightarrow> Cause \<Rightarrow> int" where
  "runs_of a c = int (length (filter (\<lambda>l. lk_Automation l = a) (ca_Chain c)))"

text \<open>
  What is true of every cause in circulation: its depth is the number of runs it names, at most
  \<open>bound\<close>, and no bounded automation is named more often than its \<^verbatim>\<open>@loop\<close> allows.
\<close>

definition cause_ok :: "int \<Rightarrow> (string \<Rightarrow> int option) \<Rightarrow> Cause \<Rightarrow> bool" where
  "cause_ok bound loops c \<longleftrightarrow>
     ca_Depth c = int (length (ca_Chain c)) \<and> ca_Depth c \<le> bound \<and>
     (\<forall>a n. loops a = Some n \<and> n > 0 \<longrightarrow> runs_of a c \<le> n)"

lemma cause_ok_zero: "0 \<le> bound \<Longrightarrow> cause_ok bound loops zeroCause"
  by (simp add: cause_ok_def runs_of_def)

lemma cause_ok_Next:
  assumes ok: "cause_ok bound loops c" and "cap \<le> bound" and "bound < MaxInt64"
    and "au_Loop a = loops (au_Name a)"
    and adm: "loopBound (Some a) (Next c (au_Name a) r k) cap = None"
  shows "cause_ok bound loops (Next c (au_Name a) r k)"
proof -
  let ?n = "Next c (au_Name a) r k"
  have "in64 (ca_Depth c + 1)"
    using ok assms(3) by (simp add: cause_ok_def in64_def MinInt64_def)
  then have d: "ca_Depth ?n = ca_Depth c + 1" by (simp add: Next_def wrap64_id)
  have "ca_Depth ?n \<le> cap" using adm by (auto simp: loopBound_def split: if_splits)
  moreover have "runs_of b ?n \<le> n" if "loops b = Some n" "n > 0" for b n
  proof (cases "b = au_Name a")
    case True
    then have "runs_of b c < n"
      using adm that assms(4) by (auto simp: loopBound_def runs_of_def split: if_splits)
    then show ?thesis using True by (simp add: runs_of_def Next_def)
  next
    case False
    then have "runs_of b ?n = runs_of b c" by (simp add: runs_of_def Next_def)
    then show ?thesis using ok that by (simp add: cause_ok_def)
  qed
  ultimately show ?thesis using ok d assms(2) by (simp add: cause_ok_def Next_def)
qed

text \<open>
  The causes that can be met anywhere in a cluster: none at a root; the context a fire is placed
  under, whatever event and context it came with; and what any transport makes of one.
\<close>

definition context_cause :: "cause_context \<Rightarrow> Cause" where
  "context_cause ctx = (case ctx of None \<Rightarrow> zeroCause | Some c \<Rightarrow> c)"

definition event_cause :: "Event option \<Rightarrow> Cause" where
  "event_cause ev = (case ev of None \<Rightarrow> zeroCause | Some e \<Rightarrow> evt_Cause e)"

inductive carried :: "int \<Rightarrow> (string \<Rightarrow> int option) \<Rightarrow> Cause \<Rightarrow> bool" for bound loops where
  carried_root: "carried bound loops zeroCause"
| carried_fire: "carried bound loops (event_cause ev) \<Longrightarrow> carried bound loops (context_cause ctx) \<Longrightarrow>
    maxChainDepth getenv \<le> bound \<Longrightarrow> au_Loop a = loops (au_Name a) \<Longrightarrow>
    placeFire getenv corr ctx a runId ev = (refusal, ctx') \<Longrightarrow>
    carried bound loops (context_cause ctx')"
| carried_travel: "carried bound loops c \<Longrightarrow> carried bound loops (transport parseFloat r c)"

lemma runCause_parent:
  "fst (runCause corr ctx a runId ev) \<in> {event_cause ev, context_cause ctx, zeroCause}"
  by (auto simp: runCause_def Let_def event_cause_def context_cause_def CauseFromContext_def split: option.splits)

lemma runCause_Next:
  "runCause corr ctx (Some a) runId ev = (parent, run) \<Longrightarrow> \<exists>k. run = Next parent (au_Name a) runId k"
  by (auto simp: runCause_def Let_def)

lemma placeFire_cases:
  assumes "placeFire getenv corr ctx a runId ev = (refusal, ctx')"
  obtains parent k where "parent \<in> {event_cause ev, context_cause ctx, zeroCause}"
    and "refusal = loopBound (Some a) (Next parent (au_Name a) runId k) (maxChainDepth getenv)"
    and "context_cause ctx' = (if refusal = None then Next parent (au_Name a) runId k else parent)"
proof -
  obtain parent run where r: "runCause corr ctx (Some a) runId ev = (parent, run)" by (meson surj_pair)
  then obtain k where "run = Next parent (au_Name a) runId k" using runCause_Next by blast
  moreover have "parent \<in> {event_cause ev, context_cause ctx, zeroCause}"
    using runCause_parent [of corr ctx "Some a" runId ev] r by simp
  moreover have "refusal = loopBound (Some a) run (maxChainDepth getenv)"
    "context_cause ctx' = (if refusal = None then run else parent)"
    using assms r by (auto simp: placeFire_def contextWithRunCause_def ContextWithCause_def context_cause_def Let_def)
  ultimately show thesis using that by blast
qed

lemma carried_ok:
  assumes "carried bound loops c" and "0 \<le> bound" and "bound \<le> MaxInt32"
  shows "cause_ok bound loops c"
  using assms(1)
proof induction
  case carried_root
  then show ?case using assms(2) by (rule cause_ok_zero)
next
  case (carried_fire ev ctx getenv a corr runId refusal ctx')
  from placeFire_cases [OF carried_fire.hyps(5)] obtain parent k where
    p: "parent \<in> {event_cause ev, context_cause ctx, zeroCause}"
    and r: "refusal = loopBound (Some a) (Next parent (au_Name a) runId k) (maxChainDepth getenv)"
    and c: "context_cause ctx' = (if refusal = None then Next parent (au_Name a) runId k else parent)" .
  have ok: "cause_ok bound loops parent"
    using p carried_fire.IH cause_ok_zero [OF assms(2)] by auto
  have "bound < MaxInt64" using assms(3) by (simp add: MaxInt32_def MaxInt64_def)
  then show ?case
    using ok r c cause_ok_Next [OF ok carried_fire.hyps(3) _ carried_fire.hyps(4)] by auto
next
  case (carried_travel c parseFloat r)
  then have "0 \<le> ca_Depth c" "ca_Depth c \<le> MaxInt32" using assms(3) by (auto simp: cause_ok_def)
  then show ?case using carried_travel.IH transport_id by simp
qed

section \<open>Lemmas: cascades and resumption\<close>

text \<open>
  A cascade is a sequence of fires where each is triggered by an event the run before it published,
  after the event travelled by some route. It stops at the first refused fire.
\<close>

type_synonym fire = "route \<times> LoopAutomation \<times> string \<times> Event"

fun cascade ::
  "(string \<Rightarrow> float64 option) \<Rightarrow> (string \<Rightarrow> string) \<Rightarrow> (Event option \<Rightarrow> string) \<Rightarrow> Cause \<Rightarrow> fire list \<Rightarrow> Cause option" where
  "cascade parseFloat getenv corr c [] = Some c"
| "cascade parseFloat getenv corr c ((r, a, runId, e) # fires) =
     (case placeFire getenv corr None a runId (Some (WithCause e (transport parseFloat r c))) of
        (None, ctx) \<Rightarrow> cascade parseFloat getenv corr (context_cause ctx) fires
      | (Some refusal, ctx) \<Rightarrow> None)"

lemma maxChainDepth_pos: "1 \<le> maxChainDepth getenv"
  by (simp add: maxChainDepth_def defaultMaxChainDepth_def Let_def)

lemma cascade_step:
  assumes "0 \<le> ca_Depth c" "ca_Depth c \<le> MaxInt32"
    and "placeFire getenv corr None a runId (Some (WithCause e (transport parseFloat r c))) = (refusal, ctx)"
  shows "(refusal = None \<longrightarrow> ca_Depth (context_cause ctx) = ca_Depth c + 1 \<and> ca_Depth c < maxChainDepth getenv) \<and>
    (au_Loop a = None \<and> ca_Depth c < maxChainDepth getenv \<longrightarrow> refusal = None)"
proof -
  define c' where "c' = (if CauseIsZero c then zeroCause else c)"
  have c': "ca_Depth c' = ca_Depth c" by (simp add: c'_def CauseIsZero_iff)
  have p: "fst (runCause corr None (Some a) runId (Some (WithCause e (transport parseFloat r c)))) = c'"
    using transport_id [OF assms(1,2), of parseFloat r]
    by (simp add: runCause_def Let_def WithCause_def CauseFromContext_def c'_def)
  obtain k where run: "runCause corr None (Some a) runId (Some (WithCause e (transport parseFloat r c))) =
      (c', Next c' (au_Name a) runId k)"
    using p runCause_Next by (metis prod.collapse)
  have "in64 (ca_Depth c + 1)" using assms(1,2) by (simp add: in64_def MinInt64_def MaxInt64_def MaxInt32_def)
  then have d: "ca_Depth (Next c' (au_Name a) runId k) = ca_Depth c + 1"
    using c' by (simp add: Next_def wrap64_id)
  have ref: "refusal = loopBound (Some a) (Next c' (au_Name a) runId k) (maxChainDepth getenv)"
    and ctx: "refusal = None \<longrightarrow> context_cause ctx = Next c' (au_Name a) runId k"
    using assms(3) run
    by (auto simp: placeFire_def contextWithRunCause_def ContextWithCause_def context_cause_def Let_def)
  have "refusal = None \<longrightarrow> ca_Depth c < maxChainDepth getenv"
    using ref d by (auto simp: loopBound_def split: if_splits)
  moreover have "au_Loop a = None \<and> ca_Depth c < maxChainDepth getenv \<longrightarrow> refusal = None"
    using ref d by (auto simp: loopBound_def)
  ultimately show ?thesis using ctx d by auto
qed

lemma cascade_bound:
  assumes "maxChainDepth getenv \<le> MaxInt32"
  shows "0 \<le> ca_Depth c \<Longrightarrow> ca_Depth c \<le> maxChainDepth getenv \<Longrightarrow>
    (cascade parseFloat getenv corr c fires \<noteq> None \<longrightarrow> ca_Depth c + int (length fires) \<le> maxChainDepth getenv) \<and>
    ((\<forall>f \<in> set fires. au_Loop (fst (snd f)) = None) \<and> ca_Depth c + int (length fires) \<le> maxChainDepth getenv \<longrightarrow>
       cascade parseFloat getenv corr c fires \<noteq> None)"
proof (induction fires arbitrary: c)
  case (Cons f fires)
  obtain r a runId e where f: "f = (r, a, runId, e)" by (cases f) auto
  obtain refusal ctx where
    p: "placeFire getenv corr None a runId (Some (WithCause e (transport parseFloat r c))) = (refusal, ctx)"
    by (meson surj_pair)
  note step = cascade_step [OF Cons.prems(1) order_trans [OF Cons.prems(2) assms] p]
  show ?case
  proof (cases refusal)
    case None
    then have "ca_Depth (context_cause ctx) = ca_Depth c + 1" "ca_Depth c < maxChainDepth getenv"
      using step by simp_all
    then show ?thesis using Cons.IH [of "context_cause ctx"] Cons.prems(1) None p f by auto
  next
    case (Some x)
    then show ?thesis using step p f by auto
  qed
qed simp

lemma KindString_kindNamed: "KindString (kindNamed (KindString k)) = KindString k"
proof -
  have "\<exists>j \<in> set (map int [0..<kindScanLimit]). KindString j = KindString k"
  proof (cases "0 \<le> k \<and> k < int (length kindNames)")
    case True
    then have "k \<in> set (map int [0..<kindScanLimit])"
      by (auto simp: kindNames_def kindScanLimit_def image_iff intro: bexI [of _ "nat k"])
    then show ?thesis by blast
  next
    case False
    then have "KindString 0 = KindString k" by (auto simp: KindString_def kindNames_def)
    moreover have "0 \<in> set (map int [0..<kindScanLimit])" by (auto simp: kindScanLimit_def image_iff)
    ultimately show ?thesis by blast
  qed
  then have "first_hit (\<lambda>j. KindString j = KindString k) (map int [0..<kindScanLimit]) \<noteq> None"
    unfolding first_hit_None by blast
  then obtain j where j: "first_hit (\<lambda>j. KindString j = KindString k) (map int [0..<kindScanLimit]) = Some j"
    by blast
  then have "KindString j = KindString k" unfolding first_hit_Some by blast
  then show ?thesis by (simp add: kindNamed_def j)
qed

lemma journalTrigger_read:
  assumes "0 \<le> ca_Depth parent" "ca_Depth parent \<le> MaxInt64"
  shows "journalTriggerEvent parseFloat (map_option readObj (openRunTrigger (Some e) parent)) =
    Some \<lparr>evt_Topic = evt_Topic e, evt_Kind = kindNamed (KindString (evt_Kind e)),
      evt_Payload = readObj (evt_Payload e), evt_Cause = parent\<rparr>"
proof -
  have "CauseFromMap parseFloat (asObj (jsonRead (JObj (causeObject parent)))) = parent"
    using CauseFromMap_read [OF assms] by (simp add: readObj_def)
  moreover have "asObj (jsonRead (JObj (evt_Payload e))) = readObj (evt_Payload e)"
    by (simp add: readObj_def)
  ultimately show ?thesis
    by (auto simp: journalTriggerEvent_def openRunTrigger_def getf_readObj
        CauseIsZero_iff CauseFromMap_def [of _ "[]"])
qed

section \<open>Properties\<close>

text \<open>
  C13. No cause in circulation names more runs than the cap. Whatever fires, in whatever order, on
  whatever event and context, refused or admitted, and over any hop or journal: every cause met
  anywhere counts exactly the runs it names, at most the largest cap in use, and names each
  automation with a \<^verbatim>\<open>@loop\<close> at most as often as its maxDepth allows. A node boundary never
  resets the depth.
\<close>

theorem cause_chain_bounded:
  assumes "carried bound loops c" and "0 \<le> bound" and "bound \<le> MaxInt32"
  shows "ca_Depth c = int (length (ca_Chain c)) \<and> ca_Depth c \<le> bound \<and>
    (\<forall>a n. loops a = Some n \<and> n > 0 \<longrightarrow>
       int (length (filter (\<lambda>l. lk_Automation l = a) (ca_Chain c))) \<le> n) \<and>
    transport parseFloat r c = c"
proof -
  have ok: "cause_ok bound loops c" using assms by (rule carried_ok)
  then have "transport parseFloat r c = c" using assms(3) by (intro transport_id) (auto simp: cause_ok_def)
  then show ?thesis using ok by (auto simp: cause_ok_def runs_of_def)
qed

definition plain_automation :: "string \<Rightarrow> LoopAutomation" where
  "plain_automation name = \<lparr>au_Name = name, au_Loop = None\<rparr>"

definition root_event :: Event where
  "root_event = \<lparr>evt_Topic = ''t'', evt_Kind = 0, evt_Payload = [], evt_Cause = zeroCause\<rparr>"

lemma default_cap: "maxChainDepth (\<lambda>_. '''') = 16"
  by (simp add: maxChainDepth_def envIntDefault_def defaultMaxChainDepth_def)

lemmas sample_fire_defs = placeFire_def runCause_def contextWithRunCause_def ContextWithCause_def
  CauseFromContext_def loopBound_def Next_def CauseIsZero_def Let_def default_cap plain_automation_def
  root_event_def WithCause_def context_cause_def event_cause_def zeroCause_def

theorem cause_chain_bounded_witness:
  "let c = Next zeroCause ''a'' ''r1'' ''k'' in carried 16 (\<lambda>_. None) c \<and> ca_Depth c = 1 \<and>
     transport (\<lambda>_. None) MeshHop c = c"
proof -
  let ?c = "Next zeroCause ''a'' ''r1'' ''k''"
  have "event_cause (Some root_event) = zeroCause" "context_cause None = zeroCause"
    by (simp_all add: sample_fire_defs)
  moreover have "placeFire (\<lambda>_. '''') (\<lambda>_. ''k'') None (plain_automation ''a'') ''r1'' (Some root_event) = (None, Some ?c)"
    by (simp add: sample_fire_defs wrap64_def)
  moreover have "context_cause (Some ?c) = ?c" by (simp add: context_cause_def)
  ultimately have c: "carried 16 (\<lambda>_. None) ?c"
    using carried_fire [of 16 "\<lambda>_. None" "Some root_event" None "\<lambda>_. ''''" "plain_automation ''a''" "\<lambda>_. ''k''" "''r1''" None "Some ?c"]
      carried_root by (simp add: default_cap plain_automation_def)
  then show ?thesis
    using cause_chain_bounded [OF c, of "\<lambda>_. None" MeshHop]
    by (simp add: MaxInt32_def Next_def Let_def wrap64_def del: transport.simps)
qed

text \<open>
  C12. Every cascade ends, and not too early. When each run fires on an event of the run before it,
  whatever routes the events take between nodes and through the journal, a fire past the cap is
  refused, so a cascade longer than the cap stops; and automations without an \<^verbatim>\<open>@loop\<close> of their own are
  let run up to the cap.
\<close>

theorem cascade_ends:
  assumes "maxChainDepth getenv \<le> MaxInt32"
  shows "(maxChainDepth getenv < int (length fires) \<longrightarrow> cascade parseFloat getenv corr zeroCause fires = None) \<and>
    ((\<forall>f \<in> set fires. au_Loop (fst (snd f)) = None) \<and> int (length fires) \<le> maxChainDepth getenv \<longrightarrow>
       cascade parseFloat getenv corr zeroCause fires \<noteq> None)"
  using cascade_bound [OF assms, of zeroCause parseFloat corr fires] maxChainDepth_pos [of getenv] by auto

theorem cascade_ends_witness:
  "cascade (\<lambda>_. None) (\<lambda>_. '''') (\<lambda>_. ''k'') zeroCause
     (replicate 17 (MeshHop, plain_automation ''a'', ''r'', root_event)) = None \<and>
   cascade (\<lambda>_. None) (\<lambda>_. '''') (\<lambda>_. ''k'') zeroCause
     (replicate 16 (MeshHop, plain_automation ''a'', ''r'', root_event)) \<noteq> None"
proof -
  let ?f = "(MeshHop, plain_automation ''a'', ''r'', root_event)"
  have cap: "maxChainDepth (\<lambda>_. '''') \<le> MaxInt32" by (simp add: default_cap MaxInt32_def)
  show ?thesis
    using cascade_ends [OF cap, of "replicate 17 ?f" "\<lambda>_. None" "\<lambda>_. ''k''"]
      cascade_ends [OF cap, of "replicate 16 ?f" "\<lambda>_. None" "\<lambda>_. ''k''"]
    by (simp add: default_cap plain_automation_def)
qed



text \<open>
  A refusal is final and extends nothing. The message of a refused fire is recognised as the
  terminal loop failure, in any text that quotes it, so no retry is made; and the fire goes on
  under the cause it came with, or none, not one that names it.
\<close>

theorem refusal_is_terminal:
  assumes "placeFire getenv corr ctx a runId ev = (Some r, ctx')"
  shows "TerminalFailureCode (before @ refusalError r @ after) = Some TerminalLoopDepthExceeded \<and>
    context_cause ctx' \<in> {event_cause ev, context_cause ctx, zeroCause}"
proof
  have l: "ToLower TerminalLoopDepthExceeded = TerminalLoopDepthExceeded"
    by (simp add: TerminalLoopDepthExceeded_def ToLower_def lower_char_def)
  obtain rest where "refusalError r = TerminalLoopDepthExceeded @ rest"
    by (simp add: refusalError_def Let_def)
  then have "Contains (ToLower (before @ refusalError r @ after)) TerminalLoopDepthExceeded"
    unfolding Contains_iff using l by (metis ToLower_append append.assoc)
  then show "TerminalFailureCode (before @ refusalError r @ after) = Some TerminalLoopDepthExceeded"
    by (auto simp: TerminalFailureCode_def Let_def terminalFailureCodes_def TerminalLoopDepthExceeded_def)
  show "context_cause ctx' \<in> {event_cause ev, context_cause ctx, zeroCause}"
    using placeFire_cases [OF assms] by (metis option.distinct(1))
qed

definition looping_automation :: LoopAutomation where
  "looping_automation = \<lparr>au_Name = ''a'', au_Loop = Some 1\<rparr>"

theorem refusal_is_terminal_witness:
  "\<exists>r ctx'. placeFire (\<lambda>_. '''') (\<lambda>_. ''k'') None looping_automation ''r2''
      (Some (WithCause root_event (Next zeroCause ''a'' ''r1'' ''k''))) = (Some r, ctx') \<and>
     TerminalFailureCode (''step failed: '' @ refusalError r @ '''') = Some TerminalLoopDepthExceeded"
proof -
  let ?p = "placeFire (\<lambda>_. '''') (\<lambda>_. ''k'') None looping_automation ''r2''
      (Some (WithCause root_event (Next zeroCause ''a'' ''r1'' ''k'')))"
  have "fst ?p \<noteq> None"
    by (simp add: sample_fire_defs looping_automation_def priorRuns_def wrap64_def)
  then obtain r ctx' where p: "?p = (Some r, ctx')" by (metis option.exhaust prod.collapse)
  then show ?thesis using refusal_is_terminal [OF p, of "''step failed: ''" "''''"] by blast
qed

text \<open>
  C36. A recorded depth too large for an integer is admitted, not refused. Reading it back saturates at the
  largest integer, as its comment asks for, but the run's own depth is one more and wraps to the
  smallest, so the cap does not hold it.
\<close>

theorem saturated_depth_admitted:
  assumes "getf m ''depth'' = JFloat (Fin q)" and "q \<ge> of_int (MaxInt64 + 1)"
    and "evt_Cause e = CauseFromMap parseFloat m" and "au_Loop a = None"
  shows "ca_Depth (evt_Cause e) = MaxInt64 \<and>
    fst (placeFire getenv corr ctx a runId (Some e)) = None"
proof
  have "m \<noteq> []" using assms(1) by auto
  then show d: "ca_Depth (evt_Cause e) = MaxInt64"
    using assms(1,2,3) by (simp add: CauseFromMap_def MaxInt64_def)
  then have nz: "\<not> CauseIsZero (evt_Cause e)" by (simp add: CauseIsZero_def MaxInt64_def)
  have "wrap64 (MaxInt64 + 1) = MinInt64" by (simp add: wrap64_def MaxInt64_def MinInt64_def)
  moreover have "MinInt64 < maxChainDepth getenv" using maxChainDepth_pos [of getenv] by (simp add: MinInt64_def)
  ultimately show "fst (placeFire getenv corr ctx a runId (Some e)) = None"
    using nz d assms(4) by (simp add: placeFire_def runCause_def loopBound_def Next_def Let_def)
qed

theorem saturated_depth_admitted_witness:
  "fst (placeFire (\<lambda>_. '''') (\<lambda>_. ''k'') None (plain_automation ''a'') ''r''
     (Some (WithCause root_event (CauseFromMap (\<lambda>_. None) [(''depth'', JFloat (Fin (10 ^ 30)))])))) = None"
proof -
  let ?m = "[(''depth'', JFloat (Fin (10 ^ 30)))]"
  have "getf ?m ''depth'' = JFloat (Fin (10 ^ 30))" by simp
  then show ?thesis
    using saturated_depth_admitted [of ?m "10 ^ 30" "WithCause root_event (CauseFromMap (\<lambda>_. None) ?m)" "\<lambda>_. None" "plain_automation ''a''"]
    by (simp add: WithCause_def plain_automation_def MaxInt64_def)
qed

end
