(* ===== verification/StormBudget.thy ===== *)
theory StormBudget
  imports LoopGuard
begin

text \<open>
  The execution budget of automations (component/automations/budget.go): fixed-window counters, one
  for all executions, one per automation and one per automation and row. The clock is an argument.
  The pointers the source keeps in its maps are never shared, so a counter is its value under its
  key. First the counting argument, on one window counter and the log of the times it admitted.
\<close>

section \<open>One fixed-window counter\<close>

record windowCount =
  wc_count :: int
  wc_windowStart :: instant

text \<open>
  \<open>win_inv L m s c hist\<close>: a counter with ceiling \<open>m\<close> whose window of length \<open>L\<close> began at \<open>s\<close> and which
  has counted \<open>c\<close> since, after admitting at the times of \<open>hist\<close>.
\<close>

definition between :: "int \<Rightarrow> int \<Rightarrow> int list \<Rightarrow> int" where
  "between a b hist = int (length (filter (\<lambda>x. a \<le> x \<and> x < b) hist))"

definition win_inv :: "int \<Rightarrow> int \<Rightarrow> int \<Rightarrow> int \<Rightarrow> int list \<Rightarrow> bool" where
  "win_inv L m s c hist \<longleftrightarrow>
     (\<forall>x \<in> set hist. x < s + L) \<and> between s (s + L) hist = c \<and> 0 \<le> c \<and> c \<le> m \<and>
     (\<forall>t > s - L. between t s hist \<le> m) \<and> (\<forall>t. between t (t + L) hist \<le> 2 * m)"

lemma between_mono: "a' \<le> a \<Longrightarrow> b \<le> b' \<Longrightarrow> between a b hist \<le> between a' b' hist"
proof -
  assume "a' \<le> a" "b \<le> b'"
  then have "length (filter (\<lambda>x. a \<le> x \<and> x < b) hist) \<le> length (filter (\<lambda>x. a' \<le> x \<and> x < b') hist)"
    by (induction hist) auto
  then show ?thesis by (simp add: between_def)
qed

lemma between_split: "between a b hist \<le> between a s hist + between s b hist"
proof (induction hist)
  case (Cons x hist)
  then show ?case by (auto simp: between_def)
qed (simp add: between_def)

lemma between_append [simp]: "between a b (hist @ [x]) = between a b hist + (if a \<le> x \<and> x < b then 1 else 0)"
  by (simp add: between_def)

lemma between_nonneg: "0 \<le> between a b hist"
  by (simp add: between_def)

lemma between_none: "\<forall>x \<in> set hist. x < a \<Longrightarrow> between a b hist = 0"
  by (auto simp: between_def filter_empty_conv)

lemma win_inv_init: "0 \<le> m \<Longrightarrow> win_inv L m s 0 []"
  by (simp add: win_inv_def between_def)

lemma win_touch:
  assumes "win_inv L m s c hist" and "now - s \<ge> L" and "0 < L"
  shows "win_inv L m now 0 hist"
proof -
  have old: "\<forall>x \<in> set hist. x < now" using assms(1,2) by (force simp: win_inv_def)
  have "between t now hist \<le> m" if "t > now - L" for t
  proof -
    have "between t now hist \<le> between s now hist" using that assms(2) by (intro between_mono) auto
    also have "\<dots> \<le> between s (s + L) hist + between (s + L) now hist" by (rule between_split)
    also have "between (s + L) now hist = 0" using assms(1) by (intro between_none) (auto simp: win_inv_def)
    finally show ?thesis using assms(1) by (simp add: win_inv_def)
  qed
  then show ?thesis using assms(1,3) old between_none [of hist now] by (force simp: win_inv_def)
qed

lemma win_admit:
  assumes "win_inv L m s c hist" and "now - s < L" and "s \<le> now" and "c < m"
  shows "win_inv L m s (c + 1) (hist @ [now])"
proof -
  have "between t (t + L) (hist @ [now]) \<le> 2 * m" for t
  proof (cases "t \<le> now \<and> now < t + L")
    case True
    have "between t (t + L) hist \<le> between t s hist + between s (t + L) hist" by (rule between_split)
    also have "between s (t + L) hist \<le> between s (s + L) hist + between (s + L) (t + L) hist" by (rule between_split)
    also have "between (s + L) (t + L) hist = 0" using assms(1) by (intro between_none) (auto simp: win_inv_def)
    finally have "between t (t + L) hist \<le> between t s hist + c" using assms(1) by (simp add: win_inv_def)
    moreover have "between t s hist \<le> m" using assms(1,3) True by (simp add: win_inv_def)
    ultimately show ?thesis using assms(4) True by simp
  next
    case False
    then show ?thesis using assms(1) by (auto simp: win_inv_def)
  qed
  then show ?thesis using assms by (simp add: win_inv_def)
qed

section \<open>The budget\<close>

record automationBudget =
  bg_enabled :: bool
  bg_globalMax :: int
  bg_perAutoMax :: int
  bg_perRowMax :: int
  bg_perRow :: "string \<Rightarrow> windowCount option"
  bg_alerts :: "string \<Rightarrow> instant option"
  bg_window :: duration
  bg_global :: windowCount
  bg_perAuto :: "string \<Rightarrow> windowCount option"

definition envBoolDefault :: "(string \<Rightarrow> string) \<Rightarrow> string \<Rightarrow> bool \<Rightarrow> bool" where
  "envBoolDefault getenv key def =
     (let v = TrimSpace (getenv key)
      in if v = '''' then def
         else if ToLower v \<in> set [''1'', ''true'', ''yes'', ''on''] then True
         else if ToLower v \<in> set [''0'', ''false'', ''no'', ''off''] then False
         else def)"

definition defaultAutomationBudgetGlobalMax :: int where "defaultAutomationBudgetGlobalMax = 600"
definition defaultAutomationBudgetPerAutoMax :: int where "defaultAutomationBudgetPerAutoMax = 120"
definition defaultAutomationBudgetWindowSecs :: int where "defaultAutomationBudgetWindowSecs = 60"

definition Second :: duration where "Second = 1000000000"

definition newAutomationBudgetFromEnv :: "(string \<Rightarrow> string) \<Rightarrow> automationBudget" where
  "newAutomationBudgetFromEnv getenv =
     (let window = wrap64 (envIntDefault getenv ''MEMQL_AUTOMATION_BUDGET_WINDOW_SECONDS''
                             defaultAutomationBudgetWindowSecs * Second)
      in \<lparr>bg_enabled = envBoolDefault getenv ''MEMQL_AUTOMATION_BUDGET_ENABLED'' True,
          bg_globalMax = envIntDefault getenv ''MEMQL_MAX_AUTOMATION_EXECUTIONS_PER_WINDOW''
            defaultAutomationBudgetGlobalMax,
          bg_perAutoMax = envIntDefault getenv ''MEMQL_MAX_AUTOMATION_EXECUTIONS_PER_AUTOMATION''
            defaultAutomationBudgetPerAutoMax,
          bg_perRowMax = envIntDefault getenv ''MEMQL_MAX_AUTOMATION_EXECUTIONS_PER_ROW'' 30,
          bg_perRow = Map.empty, bg_alerts = Map.empty,
          bg_window = (if window \<le> 0 then defaultAutomationBudgetWindowSecs * Second else window),
          bg_global = \<lparr>wc_count = 0, wc_windowStart = 0\<rparr>, bg_perAuto = Map.empty\<rparr>)"

definition reset :: "automationBudget \<Rightarrow> automationBudget" where
  "reset b = b\<lparr>bg_global := \<lparr>wc_count = 0, wc_windowStart = 0\<rparr>, bg_perAuto := Map.empty,
     bg_perRow := Map.empty, bg_alerts := Map.empty\<rparr>"

definition expireCounts :: "duration \<Rightarrow> instant \<Rightarrow> (string \<Rightarrow> windowCount option) \<Rightarrow> string \<Rightarrow> windowCount option" where
  "expireCounts window now m = (\<lambda>k. case m k of
       None \<Rightarrow> None
     | Some v \<Rightarrow> if TimeSub now (wc_windowStart v) \<ge> window then None else Some v)"

definition expireAlerts :: "duration \<Rightarrow> instant \<Rightarrow> (string \<Rightarrow> instant option) \<Rightarrow> string \<Rightarrow> instant option" where
  "expireAlerts window now m = (\<lambda>k. case m k of
       None \<Rightarrow> None
     | Some v \<Rightarrow> if TimeSub now v \<ge> window then None else Some v)"

definition counter :: "duration \<Rightarrow> instant \<Rightarrow> ('k \<Rightarrow> windowCount option) \<Rightarrow> 'k \<Rightarrow> windowCount" where
  "counter window now m key =
     (case m key of
        None \<Rightarrow> \<lparr>wc_count = 0, wc_windowStart = now\<rparr>
      | Some c \<Rightarrow> if TimeSub now (wc_windowStart c) \<ge> window then \<lparr>wc_count = 0, wc_windowStart = now\<rparr> else c)"

definition incr :: "windowCount \<Rightarrow> windowCount" where
  "incr c = c\<lparr>wc_count := wc_count c + 1\<rparr>"

definition rowKey :: "string \<Rightarrow> string \<Rightarrow> string" where
  "rowKey name row = name @ CHR 0x00 # row"

definition sweepBudget :: "automationBudget \<Rightarrow> instant \<Rightarrow> automationBudget" where
  "sweepBudget b now =
     (if TimeSub now (wc_windowStart (bg_global b)) \<ge> bg_window b
      then b\<lparr>bg_global := \<lparr>wc_count = 0, wc_windowStart = now\<rparr>,
             bg_perRow := expireCounts (bg_window b) now (bg_perRow b),
             bg_perAuto := expireCounts (bg_window b) now (bg_perAuto b),
             bg_alerts := expireAlerts (bg_window b) now (bg_alerts b)\<rparr>
      else b)"

definition primeCounters ::
  "automationBudget \<Rightarrow> string \<Rightarrow> string \<Rightarrow> instant \<Rightarrow> automationBudget \<times> windowCount \<times> windowCount option" where
  "primeCounters b name row now =
     (let b = sweepBudget b now;
          pc = counter (bg_window b) now (bg_perAuto b) name;
          b = b\<lparr>bg_perAuto := (bg_perAuto b)(name \<mapsto> pc)\<rparr>
      in if row = '''' then (b, pc, None)
         else let rc = counter (bg_window b) now (bg_perRow b) (rowKey name row)
              in (b\<lparr>bg_perRow := (bg_perRow b)(rowKey name row \<mapsto> rc)\<rparr>, pc, Some rc))"

definition overCeiling ::
  "automationBudget \<Rightarrow> windowCount \<Rightarrow> windowCount option \<Rightarrow> string \<Rightarrow> string \<Rightarrow> (string \<times> string) option" where
  "overCeiling b pc rc name row =
     (if bg_globalMax b > 0 \<and> wc_count (bg_global b) \<ge> bg_globalMax b then Some (''global'', ''global'')
      else if bg_perAutoMax b > 0 \<and> wc_count pc \<ge> bg_perAutoMax b then Some (''per-automation'', ''auto:'' @ name)
      else case rc of
             Some c \<Rightarrow> if bg_perRowMax b > 0 \<and> wc_count c \<ge> bg_perRowMax b
                       then Some (''per-row'', ''row:'' @ rowKey name row) else None
           | None \<Rightarrow> None)"

definition admitRow ::
  "automationBudget \<Rightarrow> string \<Rightarrow> string \<Rightarrow> instant \<Rightarrow> automationBudget \<times> bool \<times> string \<times> bool" where
  "admitRow b name row now =
     (if \<not> bg_enabled b then (b, True, '''', False)
      else
        let (b, pc, rc) = primeCounters b name row now
        in case overCeiling b pc rc name row of
             Some (dimension, key) \<Rightarrow>
               let alert = (case bg_alerts b key of None \<Rightarrow> True | Some t \<Rightarrow> TimeSub now t \<ge> bg_window b)
               in (if alert then b\<lparr>bg_alerts := (bg_alerts b)(key \<mapsto> now)\<rparr> else b, False, dimension, alert)
           | None \<Rightarrow>
               (b\<lparr>bg_global := incr (bg_global b), bg_perAuto := (bg_perAuto b)(name \<mapsto> incr pc),
                  bg_perRow := (case rc of None \<Rightarrow> bg_perRow b
                                | Some c \<Rightarrow> (bg_perRow b)(rowKey name row \<mapsto> incr c))\<rparr>, True, '''', False))"

definition admit :: "automationBudget \<Rightarrow> string \<Rightarrow> instant \<Rightarrow> automationBudget \<times> bool \<times> string" where
  "admit b name now =
     (let (b, ok, dimension, alert) = admitRow b name '''' now
      in (b, ok, if alert then dimension else ''''))"

section \<open>Lemmas: one keyed counter\<close>

lemma TimeSub_ge: "in64 w \<Longrightarrow> MinInt64 < w \<Longrightarrow> TimeSub a b \<ge> w \<longleftrightarrow> a - b \<ge> w"
  by (auto simp: TimeSub_def in64_def)

text \<open>
  \<open>key_inv w m latest mp k hist\<close>: the counter under key \<open>k\<close>, present or swept away, has admitted at the
  times of \<open>hist\<close>; nothing is claimed of a ceiling of zero or less, which means none.
\<close>

definition key_inv :: "int \<Rightarrow> int \<Rightarrow> int \<Rightarrow> ('k \<Rightarrow> windowCount option) \<Rightarrow> 'k \<Rightarrow> int list \<Rightarrow> bool" where
  "key_inv w m latest mp k hist \<longleftrightarrow> m > 0 \<longrightarrow>
     (\<exists>s c. win_inv w m s c hist \<and> s \<le> latest \<and>
        (mp k = Some \<lparr>wc_count = c, wc_windowStart = s\<rparr> \<or> mp k = None \<and> s + w \<le> latest))"

lemma key_inv_init: "mp k = None \<Longrightarrow> 0 \<le> w \<Longrightarrow> key_inv w m latest mp k []"
  unfolding key_inv_def using win_inv_init [of m w "latest - w"]
  by (intro impI exI [of _ "latest - w"] exI [of _ 0]) auto

lemma key_inv_later: "key_inv w m latest mp k hist \<Longrightarrow> latest \<le> now \<Longrightarrow> key_inv w m now mp k hist"
  unfolding key_inv_def by (meson order_trans)

lemma key_inv_cong: "mp k = mp' k \<Longrightarrow> key_inv w m latest mp k hist = key_inv w m latest mp' k hist"
  by (simp add: key_inv_def)

lemma key_inv_expire:
  assumes "key_inv w m now mp k hist" "in64 w" "0 < w"
  shows "key_inv w m now (expireCounts w now mp) k hist"
proof -
  have "TimeSub now s \<ge> w \<longleftrightarrow> now - s \<ge> w" for s
    using assms(2,3) by (intro TimeSub_ge) (simp_all add: MinInt64_def)
  then show ?thesis using assms(1) unfolding key_inv_def expireCounts_def by fastforce
qed

lemma key_counter:
  assumes "key_inv w m now mp k hist" "m > 0" "in64 w" "0 < w"
  shows "win_inv w m (wc_windowStart (counter w now mp k)) (wc_count (counter w now mp k)) hist \<and>
    wc_windowStart (counter w now mp k) \<le> now \<and> now - wc_windowStart (counter w now mp k) < w"
proof -
  have ts: "TimeSub now s \<ge> w \<longleftrightarrow> now - s \<ge> w" for s
    using assms(3,4) by (intro TimeSub_ge) (simp_all add: MinInt64_def)
  obtain s c where i: "win_inv w m s c hist" "s \<le> now"
    "mp k = Some \<lparr>wc_count = c, wc_windowStart = s\<rparr> \<or> mp k = None \<and> s + w \<le> now"
    using assms(1,2) unfolding key_inv_def by blast
  show ?thesis
  proof (cases "now - s \<ge> w")
    case True
    then have "counter w now mp k = \<lparr>wc_count = 0, wc_windowStart = now\<rparr>"
      using i(3) ts by (auto simp: counter_def)
    then show ?thesis using win_touch [OF i(1) True assms(4)] assms(4) by simp
  next
    case False
    then have "counter w now mp k = \<lparr>wc_count = c, wc_windowStart = s\<rparr>"
      using i(3) ts by (auto simp: counter_def)
    then show ?thesis using i False by simp
  qed
qed

lemma key_inv_put:
  assumes "m > 0 \<longrightarrow> win_inv w m (wc_windowStart c) (wc_count c) hist \<and> wc_windowStart c \<le> now"
  shows "key_inv w m now (mp(k \<mapsto> c)) k hist"
  unfolding key_inv_def using assms by (cases c) auto

lemma key_inv_touch:
  assumes "key_inv w m now mp k hist" "in64 w" "0 < w"
  shows "key_inv w m now (mp(k \<mapsto> counter w now mp k)) k hist"
  using key_counter [OF assms(1) _ assms(2,3)] by (intro key_inv_put) blast

lemma key_inv_admit:
  assumes "key_inv w m now mp k hist" "in64 w" "0 < w" "m > 0 \<longrightarrow> wc_count (counter w now mp k) < m"
  shows "key_inv w m now (mp(k \<mapsto> incr (counter w now mp k))) k (hist @ [now])"
proof (intro key_inv_put impI)
  assume m: "m > 0"
  note c = key_counter [OF assms(1) m assms(2,3)]
  show "win_inv w m (wc_windowStart (incr (counter w now mp k))) (wc_count (incr (counter w now mp k))) (hist @ [now]) \<and>
      wc_windowStart (incr (counter w now mp k)) \<le> now"
    using c win_admit [of w m "wc_windowStart (counter w now mp k)" "wc_count (counter w now mp k)" hist now] assms(4) m
    by (simp add: incr_def)
qed

lemma key_inv_span:
  "key_inv w m latest mp k hist \<Longrightarrow> m > 0 \<Longrightarrow> between t (t + w) hist \<le> 2 * m"
  unfolding key_inv_def win_inv_def by blast

section \<open>Lemmas: the whole budget\<close>

text \<open>A call is an automation, a row (empty for none) and the time; a run keeps the calls it admitted.\<close>

type_synonym admission = "string \<times> string \<times> instant"

fun budget_app :: "automationBudget \<times> admission list \<Rightarrow> admission \<Rightarrow> automationBudget \<times> admission list" where
  "budget_app (b, done) (name, row, now) =
     (let (b', ok, dimension, alert) = admitRow b name row now
      in (b', if ok then done @ [(name, row, now)] else done))"

definition times :: "(admission \<Rightarrow> bool) \<Rightarrow> admission list \<Rightarrow> int list" where
  "times sel calls = map (\<lambda>(n, r, t). t) (filter sel calls)"

lemma times_snoc [simp]:
  "times sel (calls @ [(n, r, t)]) = (if sel (n, r, t) then times sel calls @ [t] else times sel calls)"
  by (simp add: times_def)

abbreviation of_auto :: "string \<Rightarrow> admission \<Rightarrow> bool" where
  "of_auto name c \<equiv> fst c = name"

abbreviation of_row :: "string \<Rightarrow> admission \<Rightarrow> bool" where
  "of_row key c \<equiv> fst (snd c) \<noteq> [] \<and> rowKey (fst c) (fst (snd c)) = key"

definition budget_inv :: "int \<Rightarrow> automationBudget \<times> admission list \<Rightarrow> bool" where
  "budget_inv latest s \<longleftrightarrow> (case s of (b, done) \<Rightarrow>
     bg_enabled b \<and> in64 (bg_window b) \<and> 0 < bg_window b \<and>
     key_inv (bg_window b) (bg_globalMax b) latest (\<lambda>_. Some (bg_global b)) () (times (\<lambda>_. True) done) \<and>
     (\<forall>k. key_inv (bg_window b) (bg_perAutoMax b) latest (bg_perAuto b) k (times (of_auto k) done)) \<and>
     (\<forall>k. key_inv (bg_window b) (bg_perRowMax b) latest (bg_perRow b) k (times (of_row k) done)))"

lemma sweep_simps [simp]:
  "bg_enabled (sweepBudget b now) = bg_enabled b" "bg_window (sweepBudget b now) = bg_window b"
  "bg_globalMax (sweepBudget b now) = bg_globalMax b" "bg_perAutoMax (sweepBudget b now) = bg_perAutoMax b"
  "bg_perRowMax (sweepBudget b now) = bg_perRowMax b"
  "bg_global (sweepBudget b now) = counter (bg_window b) now (\<lambda>_. Some (bg_global b)) ()"
  by (simp_all add: sweepBudget_def counter_def)

lemma budget_inv_sweep:
  assumes "budget_inv latest (b, done)" "latest \<le> now"
  shows "budget_inv now (sweepBudget b now, done)"
proof -
  let ?w = "bg_window b"
  have w: "in64 ?w" "0 < ?w" using assms(1) by (simp_all add: budget_inv_def)
  have g: "key_inv ?w (bg_globalMax b) now (\<lambda>_. Some (bg_global b)) () (times (\<lambda>_. True) done)"
    using assms key_inv_later [of ?w "bg_globalMax b" latest "\<lambda>_. Some (bg_global b)" "()"]
    by (simp add: budget_inv_def)
  have "key_inv ?w (bg_globalMax b) now (\<lambda>_. Some (bg_global (sweepBudget b now))) () (times (\<lambda>_. True) done)"
    using key_inv_touch [OF g w] by (simp add: key_inv_def)
  moreover have "key_inv ?w (bg_perAutoMax b) now (bg_perAuto (sweepBudget b now)) k (times (of_auto k) done)" for k
    using assms key_inv_later [of ?w "bg_perAutoMax b" latest "bg_perAuto b" k "times (of_auto k) done" now]
      key_inv_expire [OF _ w, of "bg_perAutoMax b" now "bg_perAuto b" k "times (of_auto k) done"]
    by (simp add: budget_inv_def sweepBudget_def)
  moreover have "key_inv ?w (bg_perRowMax b) now (bg_perRow (sweepBudget b now)) k (times (of_row k) done)" for k
    using assms key_inv_later [of ?w "bg_perRowMax b" latest "bg_perRow b" k "times (of_row k) done" now]
      key_inv_expire [OF _ w, of "bg_perRowMax b" now "bg_perRow b" k "times (of_row k) done"]
    by (simp add: budget_inv_def sweepBudget_def)
  ultimately show ?thesis using assms(1) by (simp add: budget_inv_def)
qed

lemma key_inv_other: "k \<noteq> j \<Longrightarrow> key_inv w m latest (mp(j \<mapsto> c)) k hist = key_inv w m latest mp k hist"
  by (simp add: key_inv_def)

lemma budget_inv_auto_touch:
  assumes "budget_inv now (b, done)"
  shows "budget_inv now (b\<lparr>bg_perAuto := (bg_perAuto b)(name \<mapsto> counter (bg_window b) now (bg_perAuto b) name)\<rparr>, done)"
proof -
  have "key_inv (bg_window b) (bg_perAutoMax b) now
      ((bg_perAuto b)(name \<mapsto> counter (bg_window b) now (bg_perAuto b) name)) k (times (of_auto k) done)" for k
    using assms key_inv_touch [of "bg_window b" "bg_perAutoMax b" now "bg_perAuto b" name]
    by (cases "k = name") (simp_all add: budget_inv_def key_inv_other)
  then show ?thesis using assms by (simp add: budget_inv_def)
qed

lemma budget_inv_row_touch:
  assumes "budget_inv now (b, done)"
  shows "budget_inv now (b\<lparr>bg_perRow := (bg_perRow b)(key \<mapsto> counter (bg_window b) now (bg_perRow b) key)\<rparr>, done)"
proof -
  have "key_inv (bg_window b) (bg_perRowMax b) now
      ((bg_perRow b)(key \<mapsto> counter (bg_window b) now (bg_perRow b) key)) k (times (of_row k) done)" for k
    using assms key_inv_touch [of "bg_window b" "bg_perRowMax b" now "bg_perRow b" key]
    by (cases "k = key") (simp_all add: budget_inv_def key_inv_other)
  then show ?thesis using assms by (simp add: budget_inv_def)
qed

lemma counter_idem:
  assumes "in64 w" "0 < w" "mp' k = Some (counter w now mp k)"
  shows "counter w now mp' k = counter w now mp k"
proof -
  have "TimeSub now now < w" using assms(1,2) by (simp add: TimeSub_def MinInt64_def MaxInt64_def)
  then show ?thesis using assms(3) by (auto simp: counter_def split: option.splits if_splits)
qed

lemma budget_inv_count:
  assumes inv: "budget_inv now (b, done)"
    and g: "counter (bg_window b) now (\<lambda>_. Some (bg_global b)) () = bg_global b"
      "bg_globalMax b > 0 \<longrightarrow> wc_count (bg_global b) < bg_globalMax b"
    and p: "counter (bg_window b) now (bg_perAuto b) name = pc" "bg_perAutoMax b > 0 \<longrightarrow> wc_count pc < bg_perAutoMax b"
    and r: "row \<noteq> [] \<longrightarrow> counter (bg_window b) now (bg_perRow b) (rowKey name row) = rc \<and>
      (bg_perRowMax b > 0 \<longrightarrow> wc_count rc < bg_perRowMax b)"
  shows "budget_inv now
    (b\<lparr>bg_global := incr (bg_global b), bg_perAuto := (bg_perAuto b)(name \<mapsto> incr pc),
       bg_perRow := (if row = [] then bg_perRow b else (bg_perRow b)(rowKey name row \<mapsto> incr rc))\<rparr>,
     done @ [(name, row, now)])"
proof -
  have w: "in64 (bg_window b)" "0 < bg_window b" using inv by (simp_all add: budget_inv_def)
  have "key_inv (bg_window b) (bg_globalMax b) now (\<lambda>_. Some (incr (bg_global b))) () (times (\<lambda>_. True) done @ [now])"
    using key_inv_admit [OF _ w, of "bg_globalMax b" now "\<lambda>_. Some (bg_global b)" "()" "times (\<lambda>_. True) done"] inv g
    by (simp add: budget_inv_def key_inv_def)
  moreover have "key_inv (bg_window b) (bg_perAutoMax b) now ((bg_perAuto b)(name \<mapsto> incr pc)) k
      (times (of_auto k) (done @ [(name, row, now)]))" for k
    using inv key_inv_admit [OF _ w, of "bg_perAutoMax b" now "bg_perAuto b" name "times (of_auto name) done"] p
    by (cases "k = name") (simp_all add: budget_inv_def key_inv_other)
  moreover have "key_inv (bg_window b) (bg_perRowMax b) now
      (if row = [] then bg_perRow b else (bg_perRow b)(rowKey name row \<mapsto> incr rc)) k
      (times (of_row k) (done @ [(name, row, now)]))" for k
    using inv key_inv_admit [OF _ w, of "bg_perRowMax b" now "bg_perRow b" "rowKey name row" "times (of_row (rowKey name row)) done"] r
    by (cases "row = []"; cases "k = rowKey name row") (simp_all add: budget_inv_def key_inv_other)
  ultimately show ?thesis using inv by (simp add: budget_inv_def)
qed

lemma budget_inv_alert: "budget_inv now (b\<lparr>bg_alerts := m\<rparr>, done) = budget_inv now (b, done)"
  by (simp add: budget_inv_def)

lemma primeCounters_inv:
  assumes "budget_inv latest (b, done)" "latest \<le> now" "primeCounters b name row now = (c, pc, rc)"
  shows "budget_inv now (c, done) \<and> counter (bg_window c) now (\<lambda>_. Some (bg_global c)) () = bg_global c \<and>
    counter (bg_window c) now (bg_perAuto c) name = pc \<and>
    (rc = None \<longleftrightarrow> row = []) \<and> (\<forall>r. rc = Some r \<longrightarrow> counter (bg_window c) now (bg_perRow c) (rowKey name row) = r)"
proof -
  define s where "s = sweepBudget b now"
  define a where "a = s\<lparr>bg_perAuto := (bg_perAuto s)(name \<mapsto> counter (bg_window s) now (bg_perAuto s) name)\<rparr>"
  have w: "in64 (bg_window s)" "0 < bg_window s" using assms(1) by (simp_all add: budget_inv_def s_def)
  have a: "budget_inv now (a, done)"
    using budget_inv_auto_touch [OF budget_inv_sweep [OF assms(1,2)]] by (simp add: a_def s_def)
  have c: "c = (if row = [] then a else a\<lparr>bg_perRow := (bg_perRow a)(rowKey name row \<mapsto> counter (bg_window a) now (bg_perRow a) (rowKey name row))\<rparr>)"
    and pc: "pc = counter (bg_window s) now (bg_perAuto s) name"
    and rc: "rc = (if row = [] then None else Some (counter (bg_window a) now (bg_perRow a) (rowKey name row)))"
    using assms(3) by (auto simp: primeCounters_def Let_def a_def s_def split: if_splits)
  have "budget_inv now (c, done)" using a budget_inv_row_touch [OF a] by (simp add: c)
  moreover have "counter (bg_window c) now (\<lambda>_. Some (bg_global c)) () = bg_global c"
    using counter_idem [OF w, of "\<lambda>_. Some (bg_global s)" "()" now "\<lambda>_. Some (bg_global b)"] by (simp add: c a_def s_def)
  moreover have "counter (bg_window c) now (bg_perAuto c) name = pc"
  proof -
    have "bg_perAuto c = (bg_perAuto s)(name \<mapsto> counter (bg_window s) now (bg_perAuto s) name)" "bg_window c = bg_window s"
      by (simp_all add: c a_def)
    then show ?thesis using counter_idem [OF w, of "bg_perAuto c" name now "bg_perAuto s"] by (simp add: pc)
  qed
  moreover have "counter (bg_window c) now (bg_perRow c) (rowKey name row) = r" if "rc = Some r" for r
    using that counter_idem [OF w, of "bg_perRow c" "rowKey name row" now "bg_perRow a"] rc
    by (auto simp: c a_def split: if_splits)
  ultimately show ?thesis using rc by auto
qed

lemma budget_inv_step:
  assumes "budget_inv latest (b, done)" "latest \<le> now"
  shows "budget_inv now (budget_app (b, done) (name, row, now))"
proof -
  obtain c pc rc where p: "primeCounters b name row now = (c, pc, rc)" by (metis prod_cases3)
  note pr = primeCounters_inv [OF assms p]
  have en: "bg_enabled b" using assms(1) by (simp add: budget_inv_def)
  show ?thesis
  proof (cases "overCeiling c pc rc name row")
    case None
    have r: "row \<noteq> [] \<longrightarrow> counter (bg_window c) now (bg_perRow c) (rowKey name row) = the rc \<and>
        (bg_perRowMax c > 0 \<longrightarrow> wc_count (the rc) < bg_perRowMax c)"
      using pr None by (auto simp: overCeiling_def split: if_splits option.splits)
    have "budget_inv now
      (c\<lparr>bg_global := incr (bg_global c), bg_perAuto := (bg_perAuto c)(name \<mapsto> incr pc),
         bg_perRow := (if row = [] then bg_perRow c else (bg_perRow c)(rowKey name row \<mapsto> incr (the rc)))\<rparr>,
       done @ [(name, row, now)])"
    proof (rule budget_inv_count [OF _ _ _ _ _ r])
      show "bg_globalMax c > 0 \<longrightarrow> wc_count (bg_global c) < bg_globalMax c"
        using None by (auto simp: overCeiling_def split: if_splits)
      show "bg_perAutoMax c > 0 \<longrightarrow> wc_count pc < bg_perAutoMax c"
        using None by (auto simp: overCeiling_def split: if_splits)
    qed (use pr in blast)+
    moreover have "(case rc of None \<Rightarrow> bg_perRow c | Some x \<Rightarrow> (bg_perRow c)(rowKey name row \<mapsto> incr x)) =
        (if row = [] then bg_perRow c else (bg_perRow c)(rowKey name row \<mapsto> incr (the rc)))"
      using pr by (auto split: option.splits)
    ultimately show ?thesis using None p en by (simp add: admitRow_def)
  next
    case (Some x)
    obtain dimension key where x: "x = (dimension, key)" by fastforce
    have "budget_inv now (c, done)" using pr by simp
    then show ?thesis using Some x p en by (simp add: admitRow_def Let_def budget_inv_alert)
  qed
qed

lemma budget_inv_run:
  "budget_inv latest s \<Longrightarrow> sorted (latest # map (\<lambda>(n, r, t). t) calls) \<Longrightarrow>
   \<exists>l. budget_inv l (foldl budget_app s calls)"
proof (induction calls arbitrary: latest s)
  case (Cons call calls)
  obtain n r t where c: "call = (n, r, t)" by (cases call) auto
  have "budget_inv t (budget_app s call)"
    using budget_inv_step [of latest "fst s" "snd s" t n r] Cons.prems c by simp
  then show ?case using Cons.IH [of t "budget_app s call"] Cons.prems(2) c by simp
qed auto

lemma budget_limits_kept:
  "bg_globalMax (fst (foldl budget_app (b, done) calls)) = bg_globalMax b \<and>
   bg_perAutoMax (fst (foldl budget_app (b, done) calls)) = bg_perAutoMax b \<and>
   bg_perRowMax (fst (foldl budget_app (b, done) calls)) = bg_perRowMax b \<and>
   bg_window (fst (foldl budget_app (b, done) calls)) = bg_window b"
proof (induction calls rule: rev_induct)
  case (snoc call calls)
  have "bg_globalMax (fst (budget_app s call)) = bg_globalMax (fst s) \<and>
      bg_perAutoMax (fst (budget_app s call)) = bg_perAutoMax (fst s) \<and>
      bg_perRowMax (fst (budget_app s call)) = bg_perRowMax (fst s) \<and>
      bg_window (fst (budget_app s call)) = bg_window (fst s)" for s
    by (cases s; cases call)
      (auto simp: admitRow_def primeCounters_def Let_def split: option.splits prod.splits if_splits)
  then show ?case using snoc by simp
qed simp

section \<open>Properties\<close>

text \<open>
  C22. A storm is bounded whatever its shape. Over any sequence of calls at non-decreasing times, from a
  budget that has counted nothing, no span as long as the window holds more than twice the global
  ceiling of admitted executions, twice the ceiling of one automation's, or twice the row ceiling
  of one automation's on one row (twice, because a span can straddle two fixed windows); a
  ceiling of zero or less bounds nothing.
\<close>

theorem storm_bounded:
  assumes "bg_enabled b" and "0 < bg_window b" and "bg_window b \<le> MaxInt64"
    and "sorted (0 # map (\<lambda>(n, r, t). t) calls)"
    and "snd (foldl budget_app (reset b, []) calls) = done"
  shows "(bg_globalMax b > 0 \<longrightarrow>
      int (length (filter (\<lambda>(n, r, x). t \<le> x \<and> x < t + bg_window b) done)) \<le> 2 * bg_globalMax b) \<and>
    (bg_perAutoMax b > 0 \<longrightarrow>
      int (length (filter (\<lambda>(n, r, x). n = name \<and> t \<le> x \<and> x < t + bg_window b) done)) \<le> 2 * bg_perAutoMax b) \<and>
    (bg_perRowMax b > 0 \<and> row \<noteq> '''' \<longrightarrow>
      int (length (filter (\<lambda>(n, r, x). n = name \<and> r = row \<and> t \<le> x \<and> x < t + bg_window b) done)) \<le> 2 * bg_perRowMax b)"
proof -
  let ?w = "bg_window b"
  have in64: "in64 ?w" using assms(2,3) by (intro in64_nonneg_le) simp_all
  have "win_inv ?w (bg_globalMax b) 0 0 []" if "bg_globalMax b > 0" using that by (intro win_inv_init) simp
  then have "key_inv ?w (bg_globalMax b) 0 (\<lambda>_. Some \<lparr>wc_count = 0, wc_windowStart = 0\<rparr>) () []"
    by (auto simp: key_inv_def)
  moreover have "key_inv ?w m 0 Map.empty k []" for m and k :: string
    using assms(2) by (intro key_inv_init) simp_all
  ultimately have "budget_inv 0 (reset b, [])"
    using assms(1,2) in64 by (simp add: budget_inv_def reset_def times_def)
  then obtain l where "budget_inv l (foldl budget_app (reset b, []) calls)"
    using budget_inv_run assms(4) by blast
  then obtain c where inv: "budget_inv l (c, done)" and "c = fst (foldl budget_app (reset b, []) calls)"
    using assms(5) by (metis prod.collapse)
  then have lim: "bg_globalMax c = bg_globalMax b" "bg_perAutoMax c = bg_perAutoMax b"
      "bg_perRowMax c = bg_perRowMax b" "bg_window c = ?w"
    using budget_limits_kept [of "reset b" "[]" calls] by (simp_all add: reset_def)
  have count: "int (length (filter (\<lambda>(n, r, x). sel (n, r, x) \<and> t \<le> x \<and> x < t + ?w) done)) = between t (t + ?w) (times sel done)" for sel
    by (induction "done") (auto simp: between_def times_def)
  have ki: "key_inv ?w (bg_globalMax b) l (\<lambda>_. Some (bg_global c)) () (times (\<lambda>_. True) done)"
    "key_inv ?w (bg_perAutoMax b) l (bg_perAuto c) name (times (of_auto name) done)"
    "key_inv ?w (bg_perRowMax b) l (bg_perRow c) (rowKey name row) (times (of_row (rowKey name row)) done)"
    using inv lim unfolding budget_inv_def by simp_all
  have all: "bg_globalMax b > 0 \<longrightarrow> between t (t + ?w) (times (\<lambda>_. True) done) \<le> 2 * bg_globalMax b"
    and auto: "bg_perAutoMax b > 0 \<longrightarrow> between t (t + ?w) (times (of_auto name) done) \<le> 2 * bg_perAutoMax b"
    and rows: "bg_perRowMax b > 0 \<longrightarrow> between t (t + ?w) (times (of_row (rowKey name row)) done) \<le> 2 * bg_perRowMax b"
    using key_inv_span [OF ki(1), of t] key_inv_span [OF ki(2), of t] key_inv_span [OF ki(3), of t] by blast+
  have "length (filter (\<lambda>(n, r, x). n = name \<and> r = row \<and> t \<le> x \<and> x < t + ?w) done) \<le>
      length (filter (\<lambda>(n, r, x). of_row (rowKey name row) (n, r, x) \<and> t \<le> x \<and> x < t + ?w) done)" if "row \<noteq> []"
    using that by (induction "done") auto
  then have pair: "int (length (filter (\<lambda>(n, r, x). n = name \<and> r = row \<and> t \<le> x \<and> x < t + ?w) done)) \<le>
      between t (t + ?w) (times (of_row (rowKey name row)) done)" if "row \<noteq> []"
    using that count [of "of_row (rowKey name row)"] by simp
  have "bg_perRowMax b > 0 \<and> row \<noteq> '''' \<longrightarrow>
      int (length (filter (\<lambda>(n, r, x). n = name \<and> r = row \<and> t \<le> x \<and> x < t + ?w) done)) \<le> 2 * bg_perRowMax b"
    using order_trans [OF pair] rows by blast
  then show ?thesis
    using all auto count [of "\<lambda>_. True"] count [of "of_auto name"] by simp
qed

definition tight_budget :: automationBudget where
  "tight_budget = \<lparr>bg_enabled = True, bg_globalMax = 1, bg_perAutoMax = 0, bg_perRowMax = 0, bg_perRow = Map.empty,
     bg_alerts = Map.empty, bg_window = 10, bg_global = \<lparr>wc_count = 0, wc_windowStart = 0\<rparr>, bg_perAuto = Map.empty\<rparr>"

theorem storm_bounded_witness:
  "snd (foldl budget_app (reset tight_budget, []) [(''a'', '''', 9), (''a'', '''', 9), (''a'', '''', 10)]) =
     [(''a'', '''', 9), (''a'', '''', 10)] \<and>
   int (length (filter (\<lambda>(n, r, x). 5 \<le> x \<and> x < 5 + bg_window tight_budget) [(''a'', '''', 9), (''a'', '''', 10)])) \<le> 2"
proof -
  let ?calls = "[(''a'', '''', 9), (''a'', '''', 9), (''a'', '''', 10)]"
  have run: "snd (foldl budget_app (reset tight_budget, []) ?calls) = [(''a'', '''', 9), (''a'', '''', 10)]"
    by (simp add: admitRow_def primeCounters_def overCeiling_def sweepBudget_def counter_def incr_def expireCounts_def
        expireAlerts_def reset_def tight_budget_def TimeSub_def MinInt64_def MaxInt64_def Let_def)
  show ?thesis
    using storm_bounded [of tight_budget ?calls, OF _ _ _ _ run, of 5] run
    by (simp add: tight_budget_def MaxInt64_def)
qed

end
