(* ===== verification/Claims.thy ===== *)
theory Claims
  imports StormBudget
begin

text \<open>
  Running an event's automation once. In one process, the execution dedup keeps a claim per
  automation and initial chain head (component/automations/dedup.go); across replicas, the cluster
  guard keeps a row per automation and dedup key (component/automations/cluster_guard.go), which
  the statements in the source insert, take over when a lease has expired, release and prune. The
  clock is an argument of every operation that reads it. The table is a map from its primary key;
  each statement runs atomically on it, as PostgreSQL runs one statement on one row, and the outcomes
  a call can have when storage is absent or fails are arguments.
\<close>

section \<open>The dedup of one process\<close>

record dedupEntry =
  de_identity :: string
  de_inFlight :: bool
  de_execId :: string
  de_expiresAt :: instant

text \<open>\<open>dd_seen\<close> is the outer map, to inner maps that may be absent; \<open>entry_at\<close> is Go's nested lookup.\<close>

record executionDedup =
  dd_seen :: "string \<Rightarrow> (string \<Rightarrow> dedupEntry option) option"
  dd_ttl :: duration

definition newExecutionDedup :: "duration \<Rightarrow> executionDedup" where
  "newExecutionDedup ttl = \<lparr>dd_seen = Map.empty, dd_ttl = ttl\<rparr>"

definition inner :: "executionDedup \<Rightarrow> string \<Rightarrow> string \<Rightarrow> dedupEntry option" where
  "inner d name = (case dd_seen d name of None \<Rightarrow> Map.empty | Some m \<Rightarrow> m)"

definition isDuplicate :: "executionDedup \<Rightarrow> string \<Rightarrow> string \<Rightarrow> instant \<Rightarrow> bool" where
  "isDuplicate d automationName initialHead now =
     (case dd_seen d automationName of
        None \<Rightarrow> False
      | Some byHead \<Rightarrow>
          (case byHead initialHead of None \<Rightarrow> False | Some e \<Rightarrow> now < de_expiresAt e))"

definition register :: "executionDedup \<Rightarrow> string \<Rightarrow> string \<Rightarrow> string \<Rightarrow> instant \<Rightarrow> executionDedup" where
  "register d automationName initialHead execId now =
     (let m = inner d automationName;
          identity = (case m initialHead of None \<Rightarrow> '''' | Some e \<Rightarrow> de_identity e)
      in d\<lparr>dd_seen := (dd_seen d)(automationName \<mapsto>
             m(initialHead \<mapsto> \<lparr>de_identity = identity, de_inFlight = False, de_execId = execId,
                                de_expiresAt = now + dd_ttl d\<rparr>))\<rparr>)"

definition claimOrDuplicate ::
  "executionDedup \<Rightarrow> string \<Rightarrow> string \<Rightarrow> string \<Rightarrow> string \<Rightarrow> instant \<Rightarrow> executionDedup \<times> bool \<times> bool" where
  "claimOrDuplicate d name key identity execId now =
     (let m = inner d name;
          d = d\<lparr>dd_seen := (dd_seen d)(name \<mapsto> m)\<rparr>;
          fresh = d\<lparr>dd_seen := (dd_seen d)(name \<mapsto>
             m(key \<mapsto> \<lparr>de_identity = identity, de_inFlight = True, de_execId = execId,
                        de_expiresAt = now + dd_ttl d\<rparr>))\<rparr>
      in case m key of
           None \<Rightarrow> (fresh, False, False)
         | Some v \<Rightarrow>
             if de_inFlight v \<or> now < de_expiresAt v then (d, True, de_identity v \<noteq> identity)
             else (fresh, False, False))"

definition release :: "executionDedup \<Rightarrow> string \<Rightarrow> string \<Rightarrow> string \<Rightarrow> executionDedup" where
  "release d name key execId =
     (case inner d name key of
        None \<Rightarrow> d
      | Some v \<Rightarrow>
          if de_execId v \<noteq> execId then d
          else let m = (inner d name)(key := None)
               in d\<lparr>dd_seen := (dd_seen d)(name := if dom m = {} then None else Some m)\<rparr>)"

definition cleanupExpired :: "executionDedup \<Rightarrow> instant \<Rightarrow> executionDedup" where
  "cleanupExpired d now =
     d\<lparr>dd_seen := (\<lambda>name. case dd_seen d name of
          None \<Rightarrow> None
        | Some byHead \<Rightarrow>
            let m = (\<lambda>head. case byHead head of
                   None \<Rightarrow> None
                 | Some e \<Rightarrow> if \<not> de_inFlight e \<and> now > de_expiresAt e then None else Some e)
            in if dom m = {} then None else Some m)\<rparr>"

section \<open>The claims of a cluster\<close>

text \<open>A row of \<^verbatim>\<open>automation_execution_claims\<close>; \<open>cw_expires_at\<close> is \<^verbatim>\<open>NULL\<close> for a claim without a lease.\<close>

record claim_row =
  cw_claimed_by :: string
  cw_claimed_at :: instant
  cw_expires_at :: "instant option"

type_synonym claim_table = "string \<times> string \<Rightarrow> claim_row option"

definition upsertClaim :: "claim_table \<Rightarrow> string \<Rightarrow> string \<Rightarrow> string \<Rightarrow> duration \<Rightarrow> instant \<Rightarrow> claim_table \<times> nat" where
  "upsertClaim t name key node ttl now =
     (let row = \<lparr>cw_claimed_by = node, cw_claimed_at = now, cw_expires_at = Some (now + ttl)\<rparr>
      in case t (name, key) of
           None \<Rightarrow> (t((name, key) \<mapsto> row), 1)
         | Some old \<Rightarrow>
             let expiry = (case cw_expires_at old of Some e \<Rightarrow> e | None \<Rightarrow> cw_claimed_at old + ttl)
             in if expiry < now then (t((name, key) \<mapsto> row), 1) else (t, 0))"

definition insertClaim :: "claim_table \<Rightarrow> string \<Rightarrow> string \<Rightarrow> string \<Rightarrow> instant \<Rightarrow> claim_table \<times> nat" where
  "insertClaim t name key node now =
     (case t (name, key) of
        None \<Rightarrow> (t((name, key) \<mapsto> \<lparr>cw_claimed_by = node, cw_claimed_at = now, cw_expires_at = None\<rparr>), 1)
      | Some old \<Rightarrow> (t, 0))"

text \<open>
  What storage does on a call: there is none, the statement reports an error (having taken effect or
  not), its count is lost, or it runs.
\<close>

datatype storage = NoDatabase | ExecFails bool | CountLost | StorageOk

fun took_effect :: "storage \<Rightarrow> bool" where
  "took_effect NoDatabase = False"
| "took_effect (ExecFails committed) = committed"
| "took_effect _ = True"

fun storage_error :: "storage \<Rightarrow> bool" where
  "storage_error NoDatabase = True"
| "storage_error (ExecFails committed) = True"
| "storage_error _ = False"

text \<open>The fixed-window allowance for executions without a claim.\<close>

record ClusterExecutionGuard =
  cg_nodeId :: string
  cg_claimed :: int
  cg_prevented :: int
  cg_errors :: int
  cg_unguarded :: windowCount
  cg_unguardedMax :: int
  cg_unguardedWindow :: duration

definition allowUnguarded :: "ClusterExecutionGuard \<Rightarrow> instant \<Rightarrow> ClusterExecutionGuard \<times> bool" where
  "allowUnguarded g now =
     (if cg_unguardedMax g \<le> 0 then (g, True)
      else let w = (if TimeSub now (wc_windowStart (cg_unguarded g)) > cg_unguardedWindow g
                    then \<lparr>wc_count = 0, wc_windowStart = now\<rparr> else cg_unguarded g)
           in if wc_count w \<ge> cg_unguardedMax g then (g\<lparr>cg_unguarded := w\<rparr>, False)
              else (g\<lparr>cg_unguarded := w\<lparr>wc_count := wc_count w + 1\<rparr>\<rparr>, True))"

definition countError :: "ClusterExecutionGuard \<Rightarrow> ClusterExecutionGuard" where
  "countError g = g\<lparr>cg_errors := cg_errors g + 1\<rparr>"

definition claimWithTTL ::
  "ClusterExecutionGuard \<Rightarrow> claim_table \<Rightarrow> storage \<Rightarrow> string \<Rightarrow> string \<Rightarrow> duration \<Rightarrow> bool \<Rightarrow> instant \<Rightarrow>
   ClusterExecutionGuard \<times> claim_table \<times> bool" where
  "claimWithTTL g t io name key ttl permitUnguarded now =
     (let (t', n) = (if ttl > 0 then upsertClaim t name key (cg_nodeId g) ttl now
                     else insertClaim t name key (cg_nodeId g) now);
          t' = (if took_effect io then t' else t)
      in if storage_error io then
           (let g = countError g
            in if \<not> permitUnguarded then (g, t', False)
               else let (g, ok) = allowUnguarded g now in (g, t', ok))
         else if io = CountLost then (countError g, t', False)
         else if n = 0 then (g\<lparr>cg_prevented := cg_prevented g + 1\<rparr>, t', False)
         else (g\<lparr>cg_claimed := cg_claimed g + 1\<rparr>, t', True))"

definition Claim ::
  "ClusterExecutionGuard \<Rightarrow> claim_table \<Rightarrow> storage \<Rightarrow> string \<Rightarrow> string \<Rightarrow> instant \<Rightarrow> ClusterExecutionGuard \<times> claim_table \<times> bool" where
  "Claim g t io name key now = claimWithTTL g t io name key 0 True now"

definition StrictClaimWithTTL ::
  "ClusterExecutionGuard option \<Rightarrow> claim_table \<Rightarrow> storage \<Rightarrow> string \<Rightarrow> string \<Rightarrow> duration \<Rightarrow> instant \<Rightarrow>
   ClusterExecutionGuard option \<times> claim_table \<times> bool" where
  "StrictClaimWithTTL guard t io name key ttl now =
     (case guard of
        None \<Rightarrow> (None, t, False)
      | Some g \<Rightarrow> let (g, t, ok) = claimWithTTL g t io name key ttl False now in (Some g, t, ok))"

definition ReleaseClaim ::
  "ClusterExecutionGuard \<Rightarrow> claim_table \<Rightarrow> storage \<Rightarrow> string \<Rightarrow> string \<Rightarrow> claim_table \<times> bool" where
  "ReleaseClaim g t io name key =
     (let mine = (case t (name, key) of None \<Rightarrow> False | Some row \<Rightarrow> cw_claimed_by row = cg_nodeId g);
          t' = (if took_effect io \<and> mine then t((name, key) := None) else t)
      in (t', \<not> storage_error io \<and> io \<noteq> CountLost \<and> mine))"

definition prune :: "duration \<Rightarrow> claim_table \<Rightarrow> storage \<Rightarrow> instant \<Rightarrow> claim_table" where
  "prune retention t io now =
     (if \<not> took_effect io then t
      else (\<lambda>k. case t k of
             None \<Rightarrow> None
           | Some row \<Rightarrow>
               if cw_claimed_at row < now - retention \<and>
                  (case cw_expires_at row of None \<Rightarrow> True | Some e \<Rightarrow> e < now)
               then None else Some row))"

section \<open>Histories\<close>

datatype dedup_op =
    DdClaim string string string string instant
  | DdRelease string string string
  | DdRegister string string string instant
  | DdCleanup instant

fun dedup_app :: "executionDedup \<Rightarrow> dedup_op \<Rightarrow> executionDedup" where
  "dedup_app d (DdClaim name key identity execId now) = fst (claimOrDuplicate d name key identity execId now)"
| "dedup_app d (DdRelease name key execId) = release d name key execId"
| "dedup_app d (DdRegister name key execId now) = register d name key execId now"
| "dedup_app d (DdCleanup now) = cleanupExpired d now"

text \<open>What a replica's guard does to the shared table.\<close>

datatype claim_op =
    ClClaim ClusterExecutionGuard storage string string duration bool instant
  | ClRelease ClusterExecutionGuard storage string string
  | ClPrune duration storage instant

fun claim_app :: "claim_table \<Rightarrow> claim_op \<Rightarrow> claim_table" where
  "claim_app t (ClClaim g io name key ttl permit now) = fst (snd (claimWithTTL g t io name key ttl permit now))"
| "claim_app t (ClRelease g io name key) = fst (ReleaseClaim g t io name key)"
| "claim_app t (ClPrune retention io now) = prune retention t io now"

section \<open>Lemmas\<close>

lemma inner_simps [simp]:
  "inner (d\<lparr>dd_seen := (dd_seen d)(n \<mapsto> m)\<rparr>) n' = (if n' = n then m else inner d n')"
  by (simp add: inner_def)

definition in_flight :: "executionDedup \<Rightarrow> string \<Rightarrow> string \<Rightarrow> string \<Rightarrow> string \<Rightarrow> bool" where
  "in_flight d name key identity execId \<longleftrightarrow>
     (\<exists>v. inner d name key = Some v \<and> de_inFlight v \<and> de_execId v = execId \<and> de_identity v = identity)"

lemma release_inner:
  "inner (release d n k e) n' k' =
     (case inner d n k of
        None \<Rightarrow> inner d n' k'
      | Some v \<Rightarrow> if de_execId v = e \<and> n' = n \<and> k' = k then None else inner d n' k')"
proof (cases "inner d n k")
  case None
  then show ?thesis by (simp add: release_def)
next
  case (Some v)
  have "inner (d\<lparr>dd_seen := (dd_seen d)(n := if dom m = {} then None else Some m)\<rparr>) n' =
      (if n' = n then m else inner d n')" for m
    by (auto simp: inner_def)
  note eq = this
  have "release d n k e = (if de_execId v \<noteq> e then d
      else d\<lparr>dd_seen := (dd_seen d)(n := if dom ((inner d n)(k := None)) = {} then None else Some ((inner d n)(k := None)))\<rparr>)"
    by (simp only: release_def Some option.case Let_def)
  note rel = this
  show ?thesis
  proof (cases "de_execId v = e")
    case True
    have "inner (release d n k e) n' = (if n' = n then (inner d n)(k := None) else inner d n')"
      using eq [of "(inner d n)(k := None)"] True unfolding rel by (simp only: HOL.simp_thms if_False)
    then show ?thesis using Some True by simp
  next
    case False
    then show ?thesis using Some rel by simp
  qed
qed

lemma cleanup_inner:
  "inner (cleanupExpired d now) n k =
     (case inner d n k of None \<Rightarrow> None | Some e \<Rightarrow> if \<not> de_inFlight e \<and> now > de_expiresAt e then None else Some e)"
proof (cases "dd_seen d n")
  case None
  then show ?thesis by (simp add: inner_def cleanupExpired_def)
next
  case (Some byHead)
  define m where "m = (\<lambda>head. case byHead head of None \<Rightarrow> None
     | Some e \<Rightarrow> if \<not> de_inFlight e \<and> now > de_expiresAt e then None else Some e)"
  have "inner (cleanupExpired d now) n = (if dom m = {} then Map.empty else m)"
    using Some by (simp add: inner_def cleanupExpired_def Let_def m_def)
  moreover have "(if dom m = {} then Map.empty else m) = m" by auto
  ultimately show ?thesis using Some by (simp add: m_def inner_def)
qed

lemma in_flight_step:
  assumes "in_flight d name key identity execId" and "e \<noteq> DdRelease name key execId"
    and "\<forall>x now. e \<noteq> DdRegister name key x now"
  shows "in_flight (dedup_app d e) name key identity execId"
  using assms
  by (cases e)
    (auto simp: in_flight_def claimOrDuplicate_def register_def release_inner cleanup_inner Let_def
      split: option.splits)

lemma in_flight_run:
  "in_flight d name key identity execId \<Longrightarrow> DdRelease name key execId \<notin> set es \<Longrightarrow>
   \<forall>x now. DdRegister name key x now \<notin> set es \<Longrightarrow> in_flight (foldl dedup_app d es) name key identity execId"
proof (induction es arbitrary: d)
  case (Cons e es)
  then show ?case using in_flight_step [of d name key identity execId e] by auto
qed simp

text \<open>
  Until when a row keeps others out: its lease, or, without one, for as long as the shortest of
  the leases others ask for and the retention of a prune.
\<close>

definition held_until :: "duration \<Rightarrow> claim_row \<Rightarrow> instant" where
  "held_until r row = (case cw_expires_at row of Some e \<Rightarrow> e | None \<Rightarrow> cw_claimed_at row + r)"

fun leaves_be :: "duration \<Rightarrow> instant \<Rightarrow> string \<Rightarrow> string \<times> string \<Rightarrow> claim_op \<Rightarrow> bool" where
  "leaves_be r horizon node k (ClClaim g io name key ttl permit now) =
     ((name, key) = k \<longrightarrow> now \<le> horizon \<and> (ttl > 0 \<longrightarrow> r \<le> ttl))"
| "leaves_be r horizon node k (ClRelease g io name key) = ((name, key) = k \<longrightarrow> cg_nodeId g \<noteq> node)"
| "leaves_be r horizon node k (ClPrune retention io now) = (now \<le> horizon \<and> r \<le> retention)"

lemma claim_blocked:
  assumes "t (name, key) = Some row" and "now \<le> held_until r row" and "ttl > 0 \<longrightarrow> r \<le> ttl"
  shows "(if ttl > 0 then upsertClaim t name key node ttl now else insertClaim t name key node now) = (t, 0)"
  using assms by (auto simp: upsertClaim_def insertClaim_def held_until_def Let_def split: option.splits)

lemma claim_kept_step:
  assumes row: "t k = Some row" and "horizon \<le> held_until r row" and "cw_claimed_by row = node"
    and "leaves_be r horizon node k e"
  shows "claim_app t e k = Some row"
proof (cases e)
  case (ClClaim g io name key ttl permit now)
  show ?thesis
  proof (cases "(name, key) = k")
    case True
    then have "(if ttl > 0 then upsertClaim t name key (cg_nodeId g) ttl now else insertClaim t name key (cg_nodeId g) now) = (t, 0)"
      using assms ClClaim by (intro claim_blocked [of t name key row now r]) auto
    then show ?thesis
      using ClClaim row by (auto simp: claimWithTTL_def Let_def split: prod.splits)
  next
    case False
    have "fst (upsertClaim t name key n x now) k = t k" "fst (insertClaim t name key n now) k = t k" for n x
      using False by (auto simp: upsertClaim_def insertClaim_def Let_def split: option.splits)
    then show ?thesis
      using ClClaim row by (auto simp: claimWithTTL_def Let_def split: prod.splits if_splits) (metis fst_conv)+
  qed
next
  case (ClRelease g io name key)
  then show ?thesis using assms by (auto simp: ReleaseClaim_def Let_def)
next
  case (ClPrune retention io now)
  have "\<not> (cw_claimed_at row < now - retention \<and> (case cw_expires_at row of None \<Rightarrow> True | Some e \<Rightarrow> e < now))"
    using assms ClPrune by (auto simp: held_until_def split: option.splits)
  then show ?thesis using ClPrune row by (auto simp: prune_def)
qed

lemma claim_kept_run:
  "t k = Some row \<Longrightarrow> horizon \<le> held_until r row \<Longrightarrow> cw_claimed_by row = node \<Longrightarrow>
   \<forall>e \<in> set es. leaves_be r horizon node k e \<Longrightarrow> foldl claim_app t es k = Some row"
proof (induction es arbitrary: t)
  case (Cons e es)
  then show ?case using claim_kept_step [of t k row horizon r node e] by simp
qed simp

lemma won_row:
  assumes "claimWithTTL g t io name key ttl False now = (g', t', True)"
  shows "t' (name, key) = Some \<lparr>cw_claimed_by = cg_nodeId g, cw_claimed_at = now,
     cw_expires_at = (if ttl > 0 then Some (now + ttl) else None)\<rparr>"
proof (cases io)
  case StorageOk
  then show ?thesis using assms
    by (auto simp: claimWithTTL_def upsertClaim_def insertClaim_def Let_def split: if_splits option.splits)
qed (use assms in \<open>auto simp: claimWithTTL_def Let_def split: prod.splits if_splits\<close>)

text \<open>
  The allowance for running without a claim, called at given times: it holds to its ceiling in the
  sense of the window counters of the execution budget, with a window one instant longer.
\<close>

fun unguarded_app :: "ClusterExecutionGuard \<times> int list \<Rightarrow> instant \<Rightarrow> ClusterExecutionGuard \<times> int list" where
  "unguarded_app (g, done) now = (let (g', ok) = allowUnguarded g now in (g', if ok then done @ [now] else done))"

definition unguarded_inv :: "int \<Rightarrow> int \<Rightarrow> int \<Rightarrow> ClusterExecutionGuard \<times> int list \<Rightarrow> bool" where
  "unguarded_inv m w latest s \<longleftrightarrow> (case s of (g, done) \<Rightarrow>
     cg_unguardedMax g = m \<and> cg_unguardedWindow g = w \<and> wc_windowStart (cg_unguarded g) \<le> latest \<and>
     win_inv (w + 1) m (wc_windowStart (cg_unguarded g)) (wc_count (cg_unguarded g)) done)"

lemma unguarded_step:
  assumes "unguarded_inv m w latest (g, done)" "latest \<le> now" "0 < m" "0 \<le> w" "w < MaxInt64"
  shows "unguarded_inv m w now (unguarded_app (g, done) now)"
proof -
  let ?u = "cg_unguarded g"
  have lim: "cg_unguardedMax g = m" "cg_unguardedWindow g = w"
    and inv: "win_inv (w + 1) m (wc_windowStart ?u) (wc_count ?u) done" "wc_windowStart ?u \<le> latest"
    using assms(1) by (simp_all add: unguarded_inv_def)
  define u where "u = (if now - wc_windowStart ?u > w then \<lparr>wc_count = 0, wc_windowStart = now\<rparr> else ?u)"
  have "TimeSub now (wc_windowStart ?u) > w \<longleftrightarrow> now - wc_windowStart ?u > w"
    using assms(4,5) by (auto simp: TimeSub_def MinInt64_def)
  then have step: "allowUnguarded g now =
      (if wc_count u \<ge> m then (g\<lparr>cg_unguarded := u\<rparr>, False)
       else (g\<lparr>cg_unguarded := u\<lparr>wc_count := wc_count u + 1\<rparr>\<rparr>, True))"
    using assms(3) lim by (simp add: allowUnguarded_def u_def Let_def)
  have u: "win_inv (w + 1) m (wc_windowStart u) (wc_count u) done" "wc_windowStart u \<le> now"
    "now - wc_windowStart u < w + 1"
    using inv win_touch [OF inv(1), of now] assms(2,4) by (auto simp: u_def)
  show ?thesis
    using u lim step win_admit [OF u(1) u(3) u(2)] by (simp add: unguarded_inv_def)
qed

lemma unguarded_bounded:
  "unguarded_inv m w latest s \<Longrightarrow> sorted (latest # calls) \<Longrightarrow> 0 < m \<Longrightarrow> 0 \<le> w \<Longrightarrow> w < MaxInt64 \<Longrightarrow>
   between t (t + w + 1) (snd (foldl unguarded_app s calls)) \<le> 2 * m"
proof (induction calls arbitrary: latest s)
  case Nil
  then show ?case by (auto simp: unguarded_inv_def win_inv_def add.assoc)
next
  case (Cons now calls)
  then show ?case using unguarded_step [of m w latest "fst s" "snd s" now] by simp
qed

section \<open>Properties\<close>

text \<open>
  An event in flight is not started again in the same process. Once a fire has claimed its
  automation and chain head, then whatever other fires, releases, registrations and sweeps follow,
  every further claim on the pair is answered as a duplicate, flagged as an echo exactly when it
  comes from a different root, until this fire releases it or registers its completion.
\<close>

theorem in_flight_not_repeated:
  assumes "claimOrDuplicate d name key identity execId now = (d', False, echo)"
    and "DdRelease name key execId \<notin> set es" and "\<forall>x t. DdRegister name key x t \<notin> set es"
  shows "snd (claimOrDuplicate (foldl dedup_app d' es) name key identity' execId' now') = (True, identity \<noteq> identity')"
proof -
  have "in_flight d' name key identity execId"
    using assms(1) by (auto simp: in_flight_def claimOrDuplicate_def Let_def split: option.splits if_splits)
  then have "in_flight (foldl dedup_app d' es) name key identity execId"
    using in_flight_run assms(2,3) by blast
  then show ?thesis by (auto simp: in_flight_def claimOrDuplicate_def Let_def)
qed

theorem in_flight_not_repeated_witness:
  "snd (claimOrDuplicate (foldl dedup_app
       (fst (claimOrDuplicate (newExecutionDedup 10) ''a'' ''h'' ''evt-1'' ''x1'' 100))
       [DdCleanup 500, DdRelease ''a'' ''h'' ''x2'']) ''a'' ''h'' ''evt-2'' ''x2'' 600) = (True, True)"
proof -
  let ?d = "fst (claimOrDuplicate (newExecutionDedup 10) ''a'' ''h'' ''evt-1'' ''x1'' 100)"
  have "claimOrDuplicate (newExecutionDedup 10) ''a'' ''h'' ''evt-1'' ''x1'' 100 = (?d, False, False)"
    by (simp add: claimOrDuplicate_def newExecutionDedup_def inner_def Let_def)
  then show ?thesis
    using in_flight_not_repeated [of "newExecutionDedup 10" "''a''" "''h''" "''evt-1''" "''x1''" 100 ?d False
        "[DdCleanup 500, DdRelease ''a'' ''h'' ''x2'']" "''evt-2''" "''x2''" 600] by simp
qed

text \<open>
  C21. A strict claim has one winner at a time in the cluster. When a replica wins a strict claim, then
  after any claims, releases and prunes by any replicas, with storage failing in any way, a strict
  claim on the same automation and key is refused to every replica, until the winner releases it
  or the claim's time is up: its lease, or for a claim without one the shortest lease others ask
  for and the shortest retention.
\<close>

theorem strict_claim_exclusive:
  assumes "StrictClaimWithTTL (Some g) t io name key ttl now = (g', t', True)"
    and "horizon = (if ttl > 0 then now + ttl else now + r)"
    and "\<forall>e \<in> set es. leaves_be r horizon (cg_nodeId g) (name, key) e"
    and "now2 \<le> horizon" and "ttl2 > 0 \<longrightarrow> r \<le> ttl2"
  shows "\<not> snd (snd (StrictClaimWithTTL guard (foldl claim_app t' es) io2 name key ttl2 now2))"
proof -
  obtain g'' where w: "claimWithTTL g t io name key ttl False now = (g'', t', True)"
    using assms(1) by (auto simp: StrictClaimWithTTL_def split: prod.splits)
  define row where "row = \<lparr>cw_claimed_by = cg_nodeId g, cw_claimed_at = now,
     cw_expires_at = (if ttl > 0 then Some (now + ttl) else None)\<rparr>"
  have row: "t' (name, key) = Some row" using won_row [OF w] by (simp add: row_def)
  have until: "horizon \<le> held_until r row" using assms(2) by (simp add: held_until_def row_def)
  then have kept: "foldl claim_app t' es (name, key) = Some row"
    using row assms(3) by (intro claim_kept_run) (auto simp: row_def)
  show ?thesis
  proof (cases guard)
    case (Some h)
    let ?t = "foldl claim_app t' es"
    have "now2 \<le> held_until r row" using assms(4) until by simp
    then have "(if ttl2 > 0 then upsertClaim ?t name key (cg_nodeId h) ttl2 now2
        else insertClaim ?t name key (cg_nodeId h) now2) = (?t, 0)"
      by (rule claim_blocked [of ?t name key row now2 r ttl2, OF kept _ assms(5)])
    then show ?thesis using Some
      by (auto simp: StrictClaimWithTTL_def claimWithTTL_def Let_def split: prod.splits)
  qed (simp add: StrictClaimWithTTL_def)
qed

definition node_guard :: "string \<Rightarrow> ClusterExecutionGuard" where
  "node_guard n = \<lparr>cg_nodeId = n, cg_claimed = 0, cg_prevented = 0, cg_errors = 0,
     cg_unguarded = \<lparr>wc_count = 0, wc_windowStart = 0\<rparr>, cg_unguardedMax = 50, cg_unguardedWindow = 60\<rparr>"

theorem strict_claim_exclusive_witness:
  "\<not> snd (snd (StrictClaimWithTTL (Some (node_guard ''n2''))
      (foldl claim_app (fst (snd (StrictClaimWithTTL (Some (node_guard ''n1'')) Map.empty StorageOk ''run'' ''r1'' 30 100)))
        [ClPrune 3600 StorageOk 120, ClRelease (node_guard ''n2'') StorageOk ''run'' ''r1'']) StorageOk ''run'' ''r1'' 30 130))"
proof -
  let ?w = "StrictClaimWithTTL (Some (node_guard ''n1'')) Map.empty StorageOk ''run'' ''r1'' 30 100"
  have "snd (snd ?w)" by (simp add: StrictClaimWithTTL_def claimWithTTL_def upsertClaim_def Let_def)
  then have w: "?w = (fst ?w, fst (snd ?w), True)" by (cases ?w) simp
  show ?thesis
    by (rule strict_claim_exclusive [OF w, of 130 30]) (simp_all add: node_guard_def)
qed

end
