(* ===== verification/ModeGate.thy ===== *)
theory ModeGate
  imports LoopGuard
begin

text \<open>
  The concurrency modes of automations (component/automations/mode_gate.go): single, parallel,
  queued and restart. The state of one automation is an object that the gate's map, the release
  functions handed out and the waiting fires share, so objects live in a store and are named by
  their index; an object records the identity it was made under, which every function that
  captures the object captures beside it. A context's cancel function is a number, and the
  numbers cancelled so far are kept; so are the waiters whose channel has been closed. Each
  definition is one critical section of the gate's mutex; a fire that waits is a later step of
  its own.
\<close>

section \<open>State\<close>

record ModeConfig =
  mc_Kind :: string
  mc_Max :: int

record ModeAutomation =
  ma_Name :: string
  ma_Origin :: string
  ma_Mode :: "ModeConfig option"

record ModeRefusal =
  mr_Automation :: string
  mr_Mode :: string
  mr_InFlightRunId :: string
  mr_Max :: int

record modeWaiter =
  mw_id :: string
  mw_cancel :: nat

record modeState =
  ms_identity :: string
  ms_active :: "(string \<times> nat) list"
  ms_waiting :: "modeWaiter list"

record modeGate =
  mg_byName :: "string \<Rightarrow> nat option"
  mg_store :: "modeState list"
  mg_contexts :: nat
  mg_cancelled :: "nat list"
  mg_ready :: "nat list"

definition sharedModeGate :: modeGate where
  "sharedModeGate = \<lparr>mg_byName = Map.empty, mg_store = [], mg_contexts = 0, mg_cancelled = [], mg_ready = []\<rparr>"

definition automationModeIdentity :: "ModeAutomation \<Rightarrow> string" where
  "automationModeIdentity a =
     (if HasPrefix (ma_Origin a) ''authored:'' then ma_Origin a @ CHR 0x00 # ma_Name a else ma_Name a)"

text \<open>The synchronous callers still waiting for a run, oldest first: identity and run id.\<close>

type_synonym ancestry = "(string \<times> string) list"

definition modeRunContext :: "ancestry \<Rightarrow> string \<Rightarrow> string \<Rightarrow> ancestry" where
  "modeRunContext prior identity runID = prior @ [(identity, runID)]"

section \<open>Acquiring\<close>

text \<open>What the critical section of \<^verbatim>\<open>acquire\<close> decides; a handle is the captured object, run id and cancel.\<close>

record handle =
  hd_state :: nat
  hd_id :: string
  hd_cancel :: nat

datatype acquired =
    ModeFree
  | ModeRefused ModeRefusal
  | ModeWaits handle
  | ModeRuns handle

definition stateFor :: "modeGate \<Rightarrow> string \<Rightarrow> modeGate \<times> nat" where
  "stateFor g identity =
     (case mg_byName g identity of
        Some i \<Rightarrow> (g, i)
      | None \<Rightarrow>
          let i = length (mg_store g)
          in (g\<lparr>mg_store := mg_store g @ [\<lparr>ms_identity = identity, ms_active = [], ms_waiting = []\<rparr>],
                mg_byName := (mg_byName g)(identity \<mapsto> i)\<rparr>, i))"

definition modeMax :: "(string \<Rightarrow> string) \<Rightarrow> ModeConfig \<Rightarrow> int" where
  "modeMax getenv m =
     (if mc_Kind m = ''queued'' \<and> mc_Max m = 0 then
        (let n = envIntDefault getenv ''MEMQL_AUTOMATION_QUEUED_MODE_DEFAULT_MAX'' 10 in if n < 1 then 10 else n)
      else mc_Max m)"

definition modeRefuses :: "string \<Rightarrow> int \<Rightarrow> string \<Rightarrow> ancestry \<Rightarrow> modeState \<Rightarrow> bool" where
  "modeRefuses kind maxi identity ancestors s =
     (if kind = ''single'' then ms_active s \<noteq> []
      else if kind = ''parallel'' then maxi > 0 \<and> int (length (ms_active s)) \<ge> maxi
      else if kind = ''queued'' then
        (ms_active s \<noteq> [] \<and> int (length (ms_waiting s)) \<ge> maxi) \<or>
        list_ex (\<lambda>(ident, runID). ident = identity \<and> map_of (ms_active s) runID \<noteq> None) ancestors
      else False)"

fun smallest :: "string list \<Rightarrow> (string \<Rightarrow> string \<Rightarrow> bool) \<Rightarrow> string \<Rightarrow> string" where
  "smallest [] lt acc = acc"
| "smallest (k # ks) lt acc = smallest ks lt (if acc = '''' \<or> lt k acc then k else acc)"

text \<open>Go's order of strings, byte by byte.\<close>

fun string_less :: "string \<Rightarrow> string \<Rightarrow> bool" where
  "string_less s [] = False"
| "string_less [] (c # t) = True"
| "string_less (a # s) (b # t) = ((of_char a :: nat) < of_char b \<or> (a = b \<and> string_less s t))"

definition acquire ::
  "(string \<Rightarrow> string) \<Rightarrow> modeGate \<Rightarrow> ModeAutomation \<Rightarrow> string \<Rightarrow> ancestry \<Rightarrow> modeGate \<times> acquired" where
  "acquire getenv g a runId ancestors =
     (case ma_Mode a of
        None \<Rightarrow> (g, ModeFree)
      | Some m \<Rightarrow>
          let identity = automationModeIdentity a;
              cancel = mg_contexts g;
              g = g\<lparr>mg_contexts := mg_contexts g + 1\<rparr>;
              (g, i) = stateFor g identity;
              s = mg_store g ! i;
              kind = mc_Kind m;
              maxi = modeMax getenv m
          in if modeRefuses kind maxi identity ancestors s then
               (g\<lparr>mg_cancelled := cancel # mg_cancelled g\<rparr>,
                ModeRefused \<lparr>mr_Automation = ma_Name a, mr_Mode = kind,
                  mr_InFlightRunId = smallest (map fst (ms_active s)) string_less '''', mr_Max = maxi\<rparr>)
             else
               let g = (if kind = ''restart'' then g\<lparr>mg_cancelled := map snd (ms_active s) @ mg_cancelled g\<rparr> else g);
                   s = (if kind = ''restart'' then s\<lparr>ms_active := []\<rparr> else s);
                   h = \<lparr>hd_state = i, hd_id = runId, hd_cancel = cancel\<rparr>
               in if kind = ''queued'' \<and> ms_active s \<noteq> [] then
                    (g\<lparr>mg_store := (mg_store g)[i := s\<lparr>ms_waiting := ms_waiting s @ [\<lparr>mw_id = runId, mw_cancel = cancel\<rparr>]\<rparr>]\<rparr>,
                     ModeWaits h)
                  else
                    (g\<lparr>mg_store := (mg_store g)[i := s\<lparr>ms_active := (runId, cancel) # filter (\<lambda>e. fst e \<noteq> runId) (ms_active s)\<rparr>]\<rparr>,
                     ModeRuns h))"

section \<open>Releasing and giving up\<close>

definition releaseMode :: "modeGate \<Rightarrow> handle \<Rightarrow> modeGate" where
  "releaseMode g h =
     (let g = g\<lparr>mg_cancelled := hd_cancel h # mg_cancelled g\<rparr>;
          i = hd_state h;
          s = mg_store g ! i
      in if map_of (ms_active s) (hd_id h) = None then g
         else
           let s = s\<lparr>ms_active := filter (\<lambda>e. fst e \<noteq> hd_id h) (ms_active s)\<rparr>;
               (s, g) = (if ms_active s = [] \<and> ms_waiting s \<noteq> [] then
                           (let w = hd (ms_waiting s)
                            in (s\<lparr>ms_waiting := tl (ms_waiting s), ms_active := [(mw_id w, mw_cancel w)]\<rparr>,
                                g\<lparr>mg_ready := mw_cancel w # mg_ready g\<rparr>))
                         else (s, g));
               g = g\<lparr>mg_store := (mg_store g)[i := s]\<rparr>
           in if ms_active s = [] \<and> ms_waiting s = []
              then g\<lparr>mg_byName := (mg_byName g)(ms_identity s := None)\<rparr> else g)"

text \<open>
  A waiting fire whose own context ends first takes itself out of the queue, if it is still there; it
  then calls its release, as a separate step, which gives the slot on if it had been handed over in
  between.
\<close>

definition stopWaiting :: "modeGate \<Rightarrow> handle \<Rightarrow> modeGate" where
  "stopWaiting g h =
     (let i = hd_state h; s = mg_store g ! i
      in g\<lparr>mg_store := (mg_store g)[i := s\<lparr>ms_waiting := filter (\<lambda>w. mw_cancel w \<noteq> hd_cancel h) (ms_waiting s)\<rparr>]\<rparr>)"

section \<open>The gate as a machine\<close>

datatype gate_op =
    GAcquire ModeAutomation string ancestry
  | GRelease handle
  | GStop handle

fun gate_app :: "(string \<Rightarrow> string) \<Rightarrow> modeGate \<Rightarrow> gate_op \<Rightarrow> modeGate" where
  "gate_app getenv g (GAcquire a runId ancestors) = fst (acquire getenv g a runId ancestors)"
| "gate_app getenv g (GRelease h) = releaseMode g h"
| "gate_app getenv g (GStop h) = stopWaiting g h"

text \<open>
  \<open>modes\<close> gives the kind and the effective maximum each identity is declared with. A handle was handed
  out by the gate, so its object is in the store.
\<close>

fun op_ok :: "(string \<Rightarrow> string) \<Rightarrow> (string \<Rightarrow> string \<times> int) \<Rightarrow> modeGate \<Rightarrow> gate_op \<Rightarrow> bool" where
  "op_ok getenv modes g (GAcquire a runId ancestors) =
     (case ma_Mode a of None \<Rightarrow> True
      | Some m \<Rightarrow> modes (automationModeIdentity a) = (mc_Kind m, modeMax getenv m))"
| "op_ok getenv modes g (GRelease h) = (hd_state h < length (mg_store g))"
| "op_ok getenv modes g (GStop h) = (hd_state h < length (mg_store g))"

text \<open>What a mode promises about the state of its automation.\<close>

definition mode_holds :: "string \<times> int \<Rightarrow> modeState \<Rightarrow> bool" where
  "mode_holds m s \<longleftrightarrow>
     distinct (map fst (ms_active s)) \<and>
     (fst m \<in> {''single'', ''restart''} \<longrightarrow> length (ms_active s) \<le> 1) \<and>
     (fst m = ''queued'' \<longrightarrow> length (ms_active s) \<le> 1 \<and> int (length (ms_waiting s)) \<le> max 0 (snd m)) \<and>
     (fst m = ''parallel'' \<and> snd m > 0 \<longrightarrow> int (length (ms_active s)) \<le> snd m) \<and>
     (fst m \<noteq> ''queued'' \<longrightarrow> ms_waiting s = [])"

definition gate_inv :: "(string \<Rightarrow> string \<times> int) \<Rightarrow> modeGate \<Rightarrow> bool" where
  "gate_inv modes g \<longleftrightarrow>
     (\<forall>n i. mg_byName g n = Some i \<longrightarrow>
        i < length (mg_store g) \<and> ms_identity (mg_store g ! i) = n \<and> ms_active (mg_store g ! i) \<noteq> [] \<and>
        mode_holds (modes n) (mg_store g ! i)) \<and>
     (\<forall>i < length (mg_store g). mg_byName g (ms_identity (mg_store g ! i)) \<noteq> Some i \<longrightarrow>
        ms_active (mg_store g ! i) = [] \<and> ms_waiting (mg_store g ! i) = [])"

section \<open>Lemmas\<close>

lemma gate_invD:
  assumes "gate_inv modes g" "mg_byName g n = Some i"
  shows "i < length (mg_store g)" "ms_identity (mg_store g ! i) = n" "ms_active (mg_store g ! i) \<noteq> []"
    "mode_holds (modes n) (mg_store g ! i)"
  using assms by (auto simp: gate_inv_def)

lemma gate_inv_mapped:
  assumes "gate_inv modes g" "i < length (mg_store g)"
    "ms_active (mg_store g ! i) \<noteq> [] \<or> ms_waiting (mg_store g ! i) \<noteq> []"
  shows "mg_byName g (ms_identity (mg_store g ! i)) = Some i"
  using assms by (auto simp: gate_inv_def)

lemma gate_inv_cong:
  "mg_byName g = mg_byName g' \<Longrightarrow> mg_store g = mg_store g' \<Longrightarrow> gate_inv modes g = gate_inv modes g'"
  by (simp add: gate_inv_def)

lemma gate_inv_put:
  assumes inv: "gate_inv modes g" and "mg_byName g n = Some i" and "ms_identity s = n" and "ms_active s \<noteq> []"
    and "mode_holds (modes n) s" and "mg_byName g' = mg_byName g" and "mg_store g' = (mg_store g)[i := s]"
  shows "gate_inv modes g'"
proof -
  have i: "i < length (mg_store g)" using gate_invD(1) [OF inv assms(2)] .
  have "j < length (mg_store g') \<and> ms_identity (mg_store g' ! j) = m \<and> ms_active (mg_store g' ! j) \<noteq> [] \<and>
      mode_holds (modes m) (mg_store g' ! j)" if "mg_byName g' m = Some j" for m j
    using that gate_invD [OF inv, of m j] gate_invD(2) [OF inv assms(2)] assms(2-) i
    by (cases "j = i") auto
  moreover have "ms_active (mg_store g' ! j) = [] \<and> ms_waiting (mg_store g' ! j) = []"
    if "j < length (mg_store g')" "mg_byName g' (ms_identity (mg_store g' ! j)) \<noteq> Some j" for j
    using that gate_inv_mapped [OF inv, of j] assms(2-) i by (cases "j = i") auto
  ultimately show ?thesis by (auto simp: gate_inv_def)
qed

lemma gate_inv_drop:
  assumes inv: "gate_inv modes g" and "mg_byName g n = Some i" and "ms_identity s = n"
    and "ms_active s = []" and "ms_waiting s = []"
    and "mg_byName g' = (mg_byName g)(n := None)" and "mg_store g' = (mg_store g)[i := s]"
  shows "gate_inv modes g'"
proof -
  have i: "i < length (mg_store g)" "ms_identity (mg_store g ! i) = n" using gate_invD [OF inv assms(2)] by auto
  have "j < length (mg_store g') \<and> ms_identity (mg_store g' ! j) = m \<and> ms_active (mg_store g' ! j) \<noteq> [] \<and>
      mode_holds (modes m) (mg_store g' ! j)" if "mg_byName g' m = Some j" for m j
  proof -
    have "m \<noteq> n" "mg_byName g m = Some j" using that assms(6) by (auto split: if_splits)
    then show ?thesis using gate_invD [OF inv, of m j] i assms(7) by (cases "j = i") auto
  qed
  moreover have "ms_active (mg_store g' ! j) = [] \<and> ms_waiting (mg_store g' ! j) = []"
    if "j < length (mg_store g')" "mg_byName g' (ms_identity (mg_store g' ! j)) \<noteq> Some j" for j
  proof (cases "j = i")
    case True
    then show ?thesis using assms(4,5,7) i(1) by simp
  next
    case False
    then have "mg_byName g (ms_identity (mg_store g ! j)) \<noteq> Some j"
      using that assms(2,6,7) by (auto split: if_splits)
    then show ?thesis using gate_inv_mapped [OF inv, of j] that False assms(7) by auto
  qed
  ultimately show ?thesis by (auto simp: gate_inv_def)
qed

lemma mode_holds_sub:
  assumes "mode_holds m s" and "length (ms_active s') \<le> length (ms_active s)" and "distinct (map fst (ms_active s'))"
    and "length (ms_waiting s') \<le> length (ms_waiting s)"
  shows "mode_holds m s'"
proof -
  have "ms_waiting s = [] \<Longrightarrow> ms_waiting s' = []" using assms(4) by simp
  then show ?thesis using assms unfolding mode_holds_def by linarith
qed

lemma filter_key_shorter:
  "map_of xs k \<noteq> None \<Longrightarrow> length (filter (\<lambda>e. fst e \<noteq> k) xs) < length xs"
proof -
  assume "map_of xs k \<noteq> None"
  then obtain v where "(k, v) \<in> set xs" by (metis map_of_SomeD not_Some_eq)
  then show ?thesis by (intro length_filter_less) auto
qed

lemma gate_inv_release:
  assumes inv: "gate_inv modes g" and i: "hd_state h < length (mg_store g)"
  shows "gate_inv modes (releaseMode g h)"
proof (cases "map_of (ms_active (mg_store g ! hd_state h)) (hd_id h) = None")
  case True
  then show ?thesis using inv by (simp add: releaseMode_def Let_def gate_inv_def)
next
  case False
  let ?s = "mg_store g ! hd_state h"
  define act where "act = filter (\<lambda>e. fst e \<noteq> hd_id h) (ms_active ?s)"
  have "ms_active ?s \<noteq> []" using False by auto
  then have n: "mg_byName g (ms_identity ?s) = Some (hd_state h)" using gate_inv_mapped [OF inv i] by blast
  note w = gate_invD(4) [OF inv n]
  have dist: "distinct (map fst act)" using w by (simp add: act_def mode_holds_def distinct_map_filter)
  have len: "length act < length (ms_active ?s)" unfolding act_def by (rule filter_key_shorter [OF False])
  show ?thesis
  proof (cases "act = [] \<and> ms_waiting ?s = []")
    case True
    obtain y where "map_of (ms_active ?s) (hd_id h) = Some y" using False by auto
    then show ?thesis using True
      by (intro gate_inv_drop [OF inv n, of "?s\<lparr>ms_active := act\<rparr>"]) (simp_all add: releaseMode_def Let_def act_def)
  next
    case busy: False
    define s where "s = (if act = [] then ?s\<lparr>ms_waiting := tl (ms_waiting ?s),
        ms_active := [(mw_id (hd (ms_waiting ?s)), mw_cancel (hd (ms_waiting ?s)))]\<rparr> else ?s\<lparr>ms_active := act\<rparr>)"
    have "mode_holds (modes (ms_identity ?s)) s"
      using w dist len by (intro mode_holds_sub [OF w]) (auto simp: s_def)
    moreover have "mg_store (releaseMode g h) = (mg_store g)[hd_state h := s]"
      "mg_byName (releaseMode g h) = mg_byName g"
      using False busy by (auto simp: releaseMode_def Let_def act_def s_def)
    moreover have "ms_identity s = ms_identity ?s" "ms_active s \<noteq> []" by (simp_all add: s_def)
    ultimately show ?thesis using gate_inv_put [OF inv n] by blast
  qed
qed

lemma gate_inv_stop:
  assumes inv: "gate_inv modes g" and i: "hd_state h < length (mg_store g)"
  shows "gate_inv modes (stopWaiting g h)"
proof (cases "ms_active (mg_store g ! hd_state h) = []")
  case True
  let ?s = "mg_store g ! hd_state h"
  have "mg_byName g (ms_identity ?s) \<noteq> Some (hd_state h)" using True gate_invD(3) [OF inv] by blast
  then have "ms_waiting ?s = []" using gate_inv_mapped [OF inv i] by blast
  then have "?s\<lparr>ms_waiting := filter (\<lambda>w. mw_cancel w \<noteq> hd_cancel h) (ms_waiting ?s)\<rparr> = ?s"
    by (cases ?s) simp
  then have "stopWaiting g h = g" unfolding stopWaiting_def Let_def by (simp only: list_update_id) simp
  then show ?thesis using inv by simp
next
  case False
  let ?s = "mg_store g ! hd_state h"
  have n: "mg_byName g (ms_identity ?s) = Some (hd_state h)" using gate_inv_mapped [OF inv i] False by blast
  note w = gate_invD(4) [OF inv n]
  let ?t = "?s\<lparr>ms_waiting := filter (\<lambda>w. mw_cancel w \<noteq> hd_cancel h) (ms_waiting ?s)\<rparr>"
  have "mode_holds (modes (ms_identity ?s)) ?t"
    using w by (intro mode_holds_sub [OF w]) (simp_all add: mode_holds_def)
  then show ?thesis
    using False by (intro gate_inv_put [OF inv n, of ?t]) (simp_all add: stopWaiting_def Let_def)
qed

text \<open>A state found or made for an identity: mapped and busy, or fresh and empty.\<close>

lemma stateFor_cases:
  assumes inv: "gate_inv modes g" and "stateFor g n = (g1, i)"
  shows "(g1 = g \<and> mg_byName g n = Some i) \<or>
    (mg_byName g n = None \<and> i = length (mg_store g) \<and>
     mg_store g1 = mg_store g @ [\<lparr>ms_identity = n, ms_active = [], ms_waiting = []\<rparr>] \<and>
     mg_byName g1 = (mg_byName g)(n \<mapsto> i))"
  using assms(2) by (auto simp: stateFor_def Let_def split: option.splits)

lemma gate_inv_put_for:
  assumes inv: "gate_inv modes g" and st: "stateFor g n = (g1, i)" and "ms_identity s = n" and "ms_active s \<noteq> []"
    and "mode_holds (modes n) s" and g': "mg_byName g' = mg_byName g1" "mg_store g' = (mg_store g1)[i := s]"
  shows "gate_inv modes g'"
proof (cases "mg_byName g n")
  case (Some j)
  then show ?thesis using stateFor_cases [OF inv st] gate_inv_put [OF inv, of n i s g'] assms by auto
next
  case None
  let ?l = "length (mg_store g)"
  have new: "i = ?l" "mg_store g' = mg_store g @ [s]" "mg_byName g' = (mg_byName g)(n \<mapsto> ?l)"
    using None stateFor_cases [OF inv st] g' by (auto simp: list_update_append)
  have "j < length (mg_store g') \<and> ms_identity (mg_store g' ! j) = m \<and> ms_active (mg_store g' ! j) \<noteq> [] \<and>
      mode_holds (modes m) (mg_store g' ! j)" if "mg_byName g' m = Some j" for m j
    using that gate_invD [OF inv, of m j] new assms(3-5) by (cases "m = n") (auto simp: nth_append)
  moreover have "ms_active (mg_store g' ! j) = [] \<and> ms_waiting (mg_store g' ! j) = []"
    if "j < length (mg_store g')" "mg_byName g' (ms_identity (mg_store g' ! j)) \<noteq> Some j" for j
  proof -
    have "j \<noteq> ?l" using that new assms(3) by (auto simp: nth_append)
    then have j: "j < ?l" using that(1) new by simp
    then have "mg_byName g (ms_identity (mg_store g ! j)) \<noteq> Some j"
      using that(2) new None by (auto simp: nth_append split: if_splits)
    then show ?thesis using gate_inv_mapped [OF inv j] new j by (auto simp: nth_append)
  qed
  ultimately show ?thesis by (auto simp: gate_inv_def)
qed

lemma modeRefuses_busy: "modeRefuses kind maxi n anc s \<Longrightarrow> ms_active s \<noteq> []"
  by (auto simp: modeRefuses_def list_ex_iff split: if_splits)

lemma stateFor_state:
  assumes "gate_inv modes g" "stateFor g n = (g1, i)"
  shows "ms_identity (mg_store g1 ! i) = n" "mode_holds (modes n) (mg_store g1 ! i)"
    "ms_active (mg_store g1 ! i) = [] \<Longrightarrow> ms_waiting (mg_store g1 ! i) = []"
  using stateFor_cases [OF assms] gate_invD [OF assms(1), of n i]
  by (auto simp: mode_holds_def nth_append)

lemma mode_holds_admit:
  assumes "mode_holds (kind, maxi) s" "\<not> modeRefuses kind maxi n anc s" "\<not> (kind = ''queued'' \<and> ms_active s \<noteq> [])"
    and "kind \<noteq> ''restart''"
  shows "mode_holds (kind, maxi) (s\<lparr>ms_active := (r, c) # filter (\<lambda>e. fst e \<noteq> r) (ms_active s)\<rparr>)"
proof -
  define l where "l = length (filter (\<lambda>e. fst e \<noteq> r) (ms_active s))"
  have "l \<le> length (ms_active s)" by (simp add: l_def)
  then have "1 + int l \<le> maxi" if "int (length (ms_active s)) < maxi" using that by linarith
  moreover have "ms_active s = [] \<Longrightarrow> l = 0" by (simp add: l_def)
  ultimately show ?thesis
    using assms
    by (auto simp: mode_holds_def modeRefuses_def distinct_map_filter l_def [symmetric] not_le split: if_splits)
qed

lemma gate_inv_acquire:
  assumes inv: "gate_inv modes g" and ok: "op_ok getenv modes g (GAcquire a runId anc)"
  shows "gate_inv modes (fst (acquire getenv g a runId anc))"
proof (cases "ma_Mode a")
  case None
  then show ?thesis using inv by (simp add: acquire_def)
next
  case (Some m)
  let ?n = "automationModeIdentity a" and ?c = "mg_contexts g"
  define g0 where "g0 = g\<lparr>mg_contexts := Suc (mg_contexts g)\<rparr>"
  have inv0: "gate_inv modes g0" using inv by (simp add: g0_def gate_inv_def)
  obtain g1 i where st: "stateFor g0 ?n = (g1, i)" by (meson surj_pair)
  let ?s = "mg_store g1 ! i"
  have modes: "modes ?n = (mc_Kind m, modeMax getenv m)" using ok Some by simp
  note s = stateFor_state [OF inv0 st]
  show ?thesis
  proof (cases "modeRefuses (mc_Kind m) (modeMax getenv m) ?n anc ?s")
    case True
    then have "ms_active ?s \<noteq> []" by (rule modeRefuses_busy)
    then have "g1 = g0" using stateFor_cases [OF inv0 st] by (auto simp: nth_append)
    then show ?thesis using inv0 True Some st by (simp add: acquire_def Let_def g0_def [symmetric] gate_inv_def)
  next
    case ref: False
    let ?g = "fst (acquire getenv g a runId anc)"
    consider (restart) "mc_Kind m = ''restart''" | (wait) "mc_Kind m = ''queued''" "ms_active ?s \<noteq> []"
      | (run) "mc_Kind m \<noteq> ''restart''" "\<not> (mc_Kind m = ''queued'' \<and> ms_active ?s \<noteq> [])" by blast
    then show ?thesis
    proof cases
      case restart
      let ?t = "?s\<lparr>ms_active := [(runId, ?c)]\<rparr>"
      have "mode_holds (modes ?n) ?t" using s(2) restart by (simp add: modes mode_holds_def)
      moreover have "mg_store ?g = (mg_store g1)[i := ?t]" "mg_byName ?g = mg_byName g1"
        using ref restart Some st by (simp_all add: acquire_def Let_def g0_def [symmetric])
      ultimately show ?thesis using s(1) by (intro gate_inv_put_for [OF inv0 st, of ?t]) simp_all
    next
      case wait
      let ?t = "?s\<lparr>ms_waiting := ms_waiting ?s @ [\<lparr>mw_id = runId, mw_cancel = ?c\<rparr>]\<rparr>"
      have "mode_holds (modes ?n) ?t"
        using s(2) wait ref by (auto simp: modes mode_holds_def modeRefuses_def)
      moreover have "mg_store ?g = (mg_store g1)[i := ?t]" "mg_byName ?g = mg_byName g1"
        using ref wait Some st by (simp_all add: acquire_def Let_def g0_def [symmetric])
      ultimately show ?thesis using s(1) wait by (intro gate_inv_put_for [OF inv0 st, of ?t]) simp_all
    next
      case run
      let ?t = "?s\<lparr>ms_active := (runId, ?c) # filter (\<lambda>e. fst e \<noteq> runId) (ms_active ?s)\<rparr>"
      have "mode_holds (modes ?n) ?t"
        using s(2) ref run unfolding modes by (intro mode_holds_admit) auto
      moreover have "mg_store ?g = (mg_store g1)[i := ?t]" "mg_byName ?g = mg_byName g1"
        using ref run Some st by (auto simp: acquire_def Let_def g0_def [symmetric])
      ultimately show ?thesis using s(1) by (intro gate_inv_put_for [OF inv0 st, of ?t]) simp_all
    qed
  qed
qed

lemma gate_inv_init: "gate_inv modes sharedModeGate"
  by (simp add: gate_inv_def sharedModeGate_def)

section \<open>The queue moves\<close>

definition waiter_handle :: "nat \<Rightarrow> modeWaiter \<Rightarrow> handle" where
  "waiter_handle i w = \<lparr>hd_state = i, hd_id = mw_id w, hd_cancel = mw_cancel w\<rparr>"

definition holder :: "modeWaiter \<Rightarrow> string \<times> nat" where
  "holder w = (mw_id w, mw_cancel w)"

lemma release_promotes:
  assumes "i < length (mg_store g)" "ms_active (mg_store g ! i) = [holder w]" "ms_waiting (mg_store g ! i) = v # vs"
  shows "mg_store (releaseMode g (waiter_handle i w)) =
      (mg_store g)[i := (mg_store g ! i)\<lparr>ms_waiting := vs, ms_active := [holder v]\<rparr>]"
    and "mg_byName (releaseMode g (waiter_handle i w)) = mg_byName g"
    and "mg_ready (releaseMode g (waiter_handle i w)) = mw_cancel v # mg_ready g"
  using assms by (simp_all add: releaseMode_def Let_def waiter_handle_def holder_def)

lemma releases_drain:
  assumes "i < length (mg_store g)" "ms_active (mg_store g ! i) = [holder w]" "ms_waiting (mg_store g ! i) = vs"
    and "k \<le> length vs"
  defines "g' \<equiv> foldl releaseMode g (map (waiter_handle i) (take k (w # vs)))"
  shows "i < length (mg_store g') \<and> ms_active (mg_store g' ! i) = [holder ((w # vs) ! k)] \<and>
    ms_waiting (mg_store g' ! i) = drop k vs \<and> ms_identity (mg_store g' ! i) = ms_identity (mg_store g ! i) \<and>
    mg_byName g' = mg_byName g \<and> set (mg_ready g') = mw_cancel ` set (take k vs) \<union> set (mg_ready g)"
  using assms(1-4) unfolding g'_def
proof (induction k arbitrary: g w vs)
  case (Suc k)
  then obtain v us where vs: "vs = v # us" by (cases vs) auto
  let ?g = "releaseMode g (waiter_handle i w)"
  note p = release_promotes [OF Suc.prems(1,2) Suc.prems(3) [unfolded vs]]
  have "i < length (mg_store ?g)" "ms_active (mg_store ?g ! i) = [holder v]" "ms_waiting (mg_store ?g ! i) = us"
    using Suc.prems(1) by (simp_all add: p)
  from Suc.IH [OF this] Suc.prems show ?case by (auto simp: vs p)
qed simp

section \<open>Contexts\<close>

text \<open>The cancel functions an object holds: no two objects share one, and each is of a context made before.\<close>

definition cancels :: "modeState \<Rightarrow> nat set" where
  "cancels s = snd ` set (ms_active s) \<union> mw_cancel ` set (ms_waiting s)"

definition contexts_ok :: "modeGate \<Rightarrow> bool" where
  "contexts_ok g \<longleftrightarrow>
     (\<forall>i < length (mg_store g). \<forall>c \<in> cancels (mg_store g ! i).
        c < mg_contexts g \<and> (\<forall>j < length (mg_store g). c \<in> cancels (mg_store g ! j) \<longrightarrow> j = i))"

lemma contexts_okD:
  assumes "contexts_ok g" "i < length (mg_store g)" "c \<in> cancels (mg_store g ! i)"
  shows "c < mg_contexts g" "j < length (mg_store g) \<Longrightarrow> c \<in> cancels (mg_store g ! j) \<Longrightarrow> j = i"
  using assms by (auto simp: contexts_ok_def)

lemma contexts_ok_put:
  assumes ok: "contexts_ok g" and i: "i < length (mg_store g)"
    and "mg_store g' = (mg_store g)[i := s]" and "mg_contexts g \<le> mg_contexts g'"
    and "cancels s \<subseteq> cancels (mg_store g ! i) \<union> {mg_contexts g ..< mg_contexts g'}"
  shows "contexts_ok g'"
  unfolding contexts_ok_def
proof (intro allI impI ballI conjI)
  fix j c assume j: "j < length (mg_store g')" and c: "c \<in> cancels (mg_store g' ! j)"
  have old: "c \<in> cancels (mg_store g ! k) \<or> (k = i \<and> mg_contexts g \<le> c \<and> c < mg_contexts g')"
    if "c \<in> cancels (mg_store g' ! k)" "k < length (mg_store g')" for k
    using that assms(3,5) i by (cases "k = i") auto
  have len: "length (mg_store g') = length (mg_store g)" using assms(3) by simp
  show "c < mg_contexts g'"
    using old [OF c j] contexts_okD(1) [OF ok, of j c] j assms(4) unfolding len by linarith
  fix k assume k: "k < length (mg_store g')" "c \<in> cancels (mg_store g' ! k)"
  show "k = j"
    using old [OF c j] old [OF k(2,1)] contexts_okD(1) [OF ok, of j c] contexts_okD(2) [OF ok, of j c k]
      contexts_okD(1) [OF ok, of k c] j k
    unfolding len by linarith
qed

lemma contexts_ok_stateFor:
  assumes "contexts_ok g" "stateFor g n = (g1, i)"
  shows "contexts_ok g1" "mg_contexts g1 = mg_contexts g"
proof -
  have "contexts_ok g1"
    if "mg_store g1 = mg_store g @ [\<lparr>ms_identity = n, ms_active = [], ms_waiting = []\<rparr>]" "mg_contexts g1 = mg_contexts g"
    using that assms(1) by (auto simp: contexts_ok_def nth_append cancels_def less_Suc_eq)
  then show "contexts_ok g1" using assms by (auto simp: stateFor_def Let_def split: option.splits)
  show "mg_contexts g1 = mg_contexts g" using assms(2) by (auto simp: stateFor_def Let_def split: option.splits)
qed

text \<open>What one call of \<^verbatim>\<open>acquire\<close> does to the object of its identity, and to nothing else.\<close>

lemma acquire_effect:
  assumes "ma_Mode a = Some m" "stateFor (g\<lparr>mg_contexts := Suc (mg_contexts g)\<rparr>) (automationModeIdentity a) = (g1, i)"
    and "g' = fst (acquire getenv g a runId anc)"
  obtains t where "mg_store g' = (mg_store g1)[i := t]" "mg_byName g' = mg_byName g1" "mg_contexts g' = mg_contexts g1"
    "cancels t \<subseteq> cancels (mg_store g1 ! i) \<union> {mg_contexts g}"
    "set (mg_cancelled g') \<subseteq> set (mg_cancelled g1) \<union> {mg_contexts g} \<union> cancels (mg_store g1 ! i)"
proof -
  let ?s = "mg_store g1 ! i" and ?k = "mc_Kind m" and ?c = "mg_contexts g" and ?n = "automationModeIdentity a"
  define t where "t =
    (if modeRefuses ?k (modeMax getenv m) ?n anc ?s then ?s
     else if ?k = ''restart'' then ?s\<lparr>ms_active := [(runId, ?c)]\<rparr>
     else if ?k = ''queued'' \<and> ms_active ?s \<noteq> []
       then ?s\<lparr>ms_waiting := ms_waiting ?s @ [\<lparr>mw_id = runId, mw_cancel = ?c\<rparr>]\<rparr>
     else ?s\<lparr>ms_active := (runId, ?c) # filter (\<lambda>e. fst e \<noteq> runId) (ms_active ?s)\<rparr>)"
  show thesis
  proof (rule that [of t])
    show "mg_store g' = (mg_store g1)[i := t]"
      using assms by (simp add: acquire_def Let_def t_def)
    show "mg_byName g' = mg_byName g1" "mg_contexts g' = mg_contexts g1"
      using assms by (simp_all add: acquire_def Let_def)
    show "cancels t \<subseteq> cancels ?s \<union> {?c}"
      by (auto simp: t_def cancels_def)
    show "set (mg_cancelled g') \<subseteq> set (mg_cancelled g1) \<union> {?c} \<union> cancels ?s"
      using assms by (auto simp: acquire_def Let_def cancels_def split: if_splits)
  qed
qed

lemma contexts_ok_mono:
  "contexts_ok g \<Longrightarrow> mg_store g' = mg_store g \<Longrightarrow> mg_contexts g \<le> mg_contexts g' \<Longrightarrow> contexts_ok g'"
  unfolding contexts_ok_def by (metis order.strict_trans2)

lemma stateFor_slot:
  assumes "gate_inv modes g" "stateFor g n = (g1, i)"
  shows "i < length (mg_store g1)" "mg_byName g1 n = Some i"
  using stateFor_cases [OF assms] gate_invD(1) [OF assms(1)] by auto

lemma gate_inv_contexts: "gate_inv modes (g\<lparr>mg_contexts := c\<rparr>) = gate_inv modes g"
  by (rule gate_inv_cong) simp_all

lemma contexts_ok_acquire:
  assumes inv: "gate_inv modes g" and ok: "contexts_ok g"
  shows "contexts_ok (fst (acquire getenv g a runId anc))"
proof (cases "ma_Mode a")
  case None
  then show ?thesis using ok by (simp add: acquire_def)
next
  case (Some m)
  let ?g0 = "g\<lparr>mg_contexts := Suc (mg_contexts g)\<rparr>"
  obtain g1 i where st: "stateFor ?g0 (automationModeIdentity a) = (g1, i)" by (meson surj_pair)
  have inv0: "gate_inv modes ?g0" using inv by (simp only: gate_inv_contexts)
  have "stateFor g (automationModeIdentity a) = (g1\<lparr>mg_contexts := mg_contexts g\<rparr>, i)"
    using st by (auto simp: stateFor_def Let_def split: option.splits)
  note ok1 = contexts_ok_stateFor(1) [OF ok this]
  have c1: "mg_contexts g1 = Suc (mg_contexts g)" using st by (auto simp: stateFor_def Let_def split: option.splits)
  obtain t where t: "mg_store (fst (acquire getenv g a runId anc)) = (mg_store g1)[i := t]"
    "mg_contexts (fst (acquire getenv g a runId anc)) = mg_contexts g1"
    "cancels t \<subseteq> cancels (mg_store g1 ! i) \<union> {mg_contexts g}"
    using acquire_effect [OF Some st refl] by metis
  show ?thesis
    using t stateFor_slot(1) [OF inv0 st] by (intro contexts_ok_put [OF ok1, of i _ t]) (auto simp: c1)
qed

lemma contexts_ok_release:
  assumes ok: "contexts_ok g" and i: "hd_state h < length (mg_store g)"
  shows "contexts_ok (releaseMode g h)"
proof -
  let ?s = "mg_store g ! hd_state h"
  obtain t where t: "mg_store (releaseMode g h) = (mg_store g)[hd_state h := t]" "cancels t \<subseteq> cancels ?s"
  proof
    let ?act = "filter (\<lambda>e. fst e \<noteq> hd_id h) (ms_active ?s)"
    let ?t = "if map_of (ms_active ?s) (hd_id h) = None then ?s
      else if ?act = [] \<and> ms_waiting ?s \<noteq> [] then ?s\<lparr>ms_waiting := tl (ms_waiting ?s),
        ms_active := [(mw_id (hd (ms_waiting ?s)), mw_cancel (hd (ms_waiting ?s)))]\<rparr> else ?s\<lparr>ms_active := ?act\<rparr>"
    show "mg_store (releaseMode g h) = (mg_store g)[hd_state h := ?t]"
      by (auto simp: releaseMode_def Let_def)
    show "cancels ?t \<subseteq> cancels ?s"
      by (cases "ms_waiting ?s") (auto simp: cancels_def)
  qed
  have "mg_contexts (releaseMode g h) = mg_contexts g" by (simp add: releaseMode_def Let_def split: prod.splits)
  then show ?thesis using t by (intro contexts_ok_put [OF ok i, of _ t]) auto
qed

lemma contexts_ok_stop:
  assumes "contexts_ok g" and "hd_state h < length (mg_store g)"
  shows "contexts_ok (stopWaiting g h)"
  by (rule contexts_ok_put [OF assms, of _
        "(mg_store g ! hd_state h)\<lparr>ms_waiting := filter (\<lambda>w. mw_cancel w \<noteq> hd_cancel h) (ms_waiting (mg_store g ! hd_state h))\<rparr>"])
     (auto simp: stopWaiting_def Let_def cancels_def)

lemma gate_invs_run:
  "gate_inv modes g \<Longrightarrow> contexts_ok g \<Longrightarrow> run_ok (gate_app getenv) (op_ok getenv modes) g ops \<Longrightarrow>
   gate_inv modes (foldl (gate_app getenv) g ops) \<and> contexts_ok (foldl (gate_app getenv) g ops)"
proof (induction ops arbitrary: g)
  case (Cons e ops)
  have "gate_inv modes (gate_app getenv g e)"
    using Cons.prems gate_inv_acquire gate_inv_release gate_inv_stop by (cases e) auto
  moreover have "contexts_ok (gate_app getenv g e)"
    using Cons.prems contexts_ok_acquire contexts_ok_release contexts_ok_stop by (cases e) auto
  ultimately show ?case using Cons by simp
qed simp

lemma contexts_ok_init: "contexts_ok sharedModeGate"
  by (simp add: contexts_ok_def sharedModeGate_def)

lemmas gate_reached = gate_invs_run [OF gate_inv_init contexts_ok_init]

lemma identity_separates:
  assumes "automationModeIdentity a = automationModeIdentity b"
    and "CHR 0x00 \<notin> set (ma_Name a @ ma_Origin a @ ma_Name b @ ma_Origin b)"
  shows "ma_Name a = ma_Name b" "HasPrefix (ma_Origin a) ''authored:'' = HasPrefix (ma_Origin b) ''authored:''"
    "HasPrefix (ma_Origin a) ''authored:'' \<Longrightarrow> ma_Origin a = ma_Origin b"
proof -
  let ?p = "\<lambda>x. HasPrefix (ma_Origin x) ''authored:''"
  have eq: "?p a = ?p b"
  proof (rule ccontr)
    assume "?p a \<noteq> ?p b"
    then have "CHR 0x00 \<in> set (automationModeIdentity a) \<longleftrightarrow> CHR 0x00 \<notin> set (automationModeIdentity b)"
      using assms(2) by (simp add: automationModeIdentity_def)
    then show False using assms(1) by simp
  qed
  have split: "ma_Origin a @ CHR 0x00 # ma_Name a = ma_Origin b @ CHR 0x00 # ma_Name b \<Longrightarrow>
      ma_Origin a = ma_Origin b \<and> ma_Name a = ma_Name b"
    using assms(2) by (simp add: append_Cons_eq_iff)
  show "ma_Name a = ma_Name b" using eq split assms(1) by (auto simp: automationModeIdentity_def split: if_splits)
  show "?p a = ?p b" by (rule eq)
  show "?p a \<Longrightarrow> ma_Origin a = ma_Origin b"
    using eq split assms(1) by (auto simp: automationModeIdentity_def split: if_splits)
qed

lemma acquire_keeps_others:
  fixes getenv :: "string \<Rightarrow> string" and runId :: string and anc :: ancestry
  assumes inv: "gate_inv modes g" and ok: "contexts_ok g"
    and n: "n \<noteq> automationModeIdentity a" "mg_byName g n = Some j"
  defines "g' \<equiv> fst (acquire getenv g a runId anc)"
  shows "mg_byName g' n = Some j \<and> mg_store g' ! j = mg_store g ! j \<and>
    set (mg_cancelled g') \<inter> cancels (mg_store g ! j) \<subseteq> set (mg_cancelled g)"
proof (cases "ma_Mode a")
  case None
  then show ?thesis using n by (simp add: g'_def acquire_def)
next
  case (Some m)
  let ?g0 = "g\<lparr>mg_contexts := Suc (mg_contexts g)\<rparr>"
  obtain g1 i where st: "stateFor ?g0 (automationModeIdentity a) = (g1, i)" by (meson surj_pair)
  have inv0: "gate_inv modes ?g0" using inv by (simp only: gate_inv_contexts)
  obtain t where t: "mg_store g' = (mg_store g1)[i := t]" "mg_byName g' = mg_byName g1"
    "set (mg_cancelled g') \<subseteq> set (mg_cancelled g1) \<union> {mg_contexts g} \<union> cancels (mg_store g1 ! i)"
    using acquire_effect [OF Some st refl] unfolding g'_def by metis
  have j: "j < length (mg_store g)" "ms_identity (mg_store g ! j) = n" using gate_invD [OF inv n(2)] by auto
  have same: "mg_cancelled g1 = mg_cancelled g" using st by (auto simp: stateFor_def Let_def split: option.splits)
  have apart: "cancels (mg_store g1 ! i) \<inter> cancels (mg_store g ! j) = {} \<and> j \<noteq> i \<and> mg_byName g1 n = Some j \<and>
      mg_store g1 ! j = mg_store g ! j"
  proof (cases "mg_byName g (automationModeIdentity a)")
    case None
    then show ?thesis using stateFor_cases [OF inv0 st] n j by (auto simp: nth_append cancels_def)
  next
    case (Some k)
    then have eq: "g1 = ?g0" "i = k" using stateFor_cases [OF inv0 st] by auto
    have "k < length (mg_store g)" "ms_identity (mg_store g ! k) = automationModeIdentity a"
      using gate_invD [OF inv Some] by auto
    then show ?thesis using eq n j contexts_okD(2) [OF ok] by (auto simp: disjoint_iff)
  qed
  have "mg_contexts g \<notin> cancels (mg_store g ! j)" using contexts_okD(1) [OF ok j(1)] by blast
  then show ?thesis using t apart same by auto
qed

section \<open>Samples\<close>

definition sample_queued :: ModeAutomation where
  "sample_queued = \<lparr>ma_Name = ''q'', ma_Origin = [], ma_Mode = Some \<lparr>mc_Kind = ''queued'', mc_Max = 5\<rparr>\<rparr>"

definition sample_restart :: ModeAutomation where
  "sample_restart = \<lparr>ma_Name = ''q'', ma_Origin = ''authored:u'', ma_Mode = Some \<lparr>mc_Kind = ''restart'', mc_Max = 0\<rparr>\<rparr>"

definition sample_modes :: "string \<Rightarrow> string \<times> int" where
  "sample_modes n = (if n = ''q'' then (''queued'', 5) else (''restart'', 0))"

definition sample_fires :: "gate_op list" where
  "sample_fires = [GAcquire sample_queued ''r1'' [], GAcquire sample_queued ''r2'' []]"

lemmas sample_gate_defs = sample_fires_def sample_queued_def sample_restart_def sample_modes_def acquire_def
  sharedModeGate_def stateFor_def automationModeIdentity_def modeMax_def modeRefuses_def Let_def

lemma sample_run:
  "run_ok (gate_app getenv) (op_ok getenv sample_modes) sharedModeGate sample_fires"
  "mg_byName (foldl (gate_app getenv) sharedModeGate sample_fires) = [''q'' \<mapsto> 0]"
  "mg_store (foldl (gate_app getenv) sharedModeGate sample_fires) =
    [\<lparr>ms_identity = ''q'', ms_active = [(''r1'', 0)], ms_waiting = [\<lparr>mw_id = ''r2'', mw_cancel = 1\<rparr>]\<rparr>]"
  by (simp_all add: sample_gate_defs)

section \<open>Properties\<close>

text \<open>
  C14. However fires, releases and abandoned waits interleave, every automation's mode is respected:
  an identity in the gate's map has a run active; single, restart and queued have at most one, parallel at
  most its maximum; at most the declared number of fires wait and only for a queued automation; and no run or
  waiter is left on an object the map has dropped.
\<close>

theorem modes_respected:
  assumes "run_ok (gate_app getenv) (op_ok getenv modes) sharedModeGate ops"
  defines "g \<equiv> foldl (gate_app getenv) sharedModeGate ops"
  shows "(\<forall>n i. mg_byName g n = Some i \<longrightarrow>
      (let s = mg_store g ! i; (kind, most) = modes n in
        ms_identity s = n \<and> ms_active s \<noteq> [] \<and>
        (kind \<in> {''single'', ''restart'', ''queued''} \<longrightarrow> length (ms_active s) = 1) \<and>
        (kind = ''parallel'' \<and> most > 0 \<longrightarrow> int (length (ms_active s)) \<le> most) \<and>
        (kind = ''queued'' \<longrightarrow> int (length (ms_waiting s)) \<le> max 0 most) \<and>
        (kind \<noteq> ''queued'' \<longrightarrow> ms_waiting s = []))) \<and>
    (\<forall>i < length (mg_store g). mg_byName g (ms_identity (mg_store g ! i)) \<noteq> Some i \<longrightarrow>
       ms_active (mg_store g ! i) = [] \<and> ms_waiting (mg_store g ! i) = [])"
proof -
  have inv: "gate_inv modes g" using gate_reached [OF assms(1)] by (simp add: g_def)
  have one: "length xs \<le> 1 \<Longrightarrow> xs \<noteq> [] \<Longrightarrow> length xs = 1" for xs :: "(string \<times> nat) list"
    by (cases xs) auto
  show ?thesis
  proof (intro conjI allI impI)
    fix n i assume "mg_byName g n = Some i"
    note d = gate_invD [OF inv this]
    show "let s = mg_store g ! i; (kind, most) = modes n in
        ms_identity s = n \<and> ms_active s \<noteq> [] \<and>
        (kind \<in> {''single'', ''restart'', ''queued''} \<longrightarrow> length (ms_active s) = 1) \<and>
        (kind = ''parallel'' \<and> most > 0 \<longrightarrow> int (length (ms_active s)) \<le> most) \<and>
        (kind = ''queued'' \<longrightarrow> int (length (ms_waiting s)) \<le> max 0 most) \<and>
        (kind \<noteq> ''queued'' \<longrightarrow> ms_waiting s = [])"
      using d(2-4) one [OF _ d(3)] unfolding Let_def mode_holds_def by (auto split: prod.splits)
  qed (use gate_inv_mapped [OF inv] in blast)+
qed

theorem modes_respected_witness:
  "let s = mg_store (foldl (gate_app (\<lambda>_. [])) sharedModeGate sample_fires) ! 0 in
     length (ms_active s) = 1 \<and> int (length (ms_waiting s)) \<le> 5"
  using modes_respected [OF sample_run(1) [of "\<lambda>_. []"]] by (auto simp: sample_run sample_modes_def)


text \<open>
  C38. A queue moves, and in order: while a queued automation has a run active and fires waiting,
  releasing the active run and then the first \<open>k\<close> promoted waiters, each by its own release, leaves exactly the
  next waiter running with its channel closed and the rest still waiting in their order; when
  the last has released, the automation is out of the map.
\<close>

theorem queue_moves:
  assumes "run_ok (gate_app getenv) (op_ok getenv modes) sharedModeGate ops"
  defines "g \<equiv> foldl (gate_app getenv) sharedModeGate ops"
  assumes "mg_byName g n = Some i" "ms_active (mg_store g ! i) = [holder w]" "ms_waiting (mg_store g ! i) = vs"
    and "k < length vs"
  defines "g' \<equiv> foldl releaseMode g (map (waiter_handle i) (w # take k vs))"
    and "g'' \<equiv> foldl releaseMode g (map (waiter_handle i) (w # vs))"
  shows "mg_byName g' n = Some i \<and> ms_active (mg_store g' ! i) = [holder (vs ! k)] \<and> mw_cancel (vs ! k) \<in> set (mg_ready g') \<and>
    ms_waiting (mg_store g' ! i) = drop (Suc k) vs \<and> mg_byName g'' n = None"
proof -
  have inv: "gate_inv modes g" using gate_reached [OF assms(1)] by (simp add: g_def)
  note d = gate_invD [OF inv assms(3)]
  note drain = releases_drain [OF d(1) assms(4,5)]
  have "vs ! k \<in> set (take (Suc k) vs)" using assms(6) by (simp add: take_Suc_conv_app_nth)
  then have here: "mg_byName g' n = Some i \<and> ms_active (mg_store g' ! i) = [holder (vs ! k)] \<and>
      mw_cancel (vs ! k) \<in> set (mg_ready g') \<and> ms_waiting (mg_store g' ! i) = drop (Suc k) vs"
    using drain [of "Suc k"] assms(3,6) by (simp add: g'_def)
  define gl where "gl = foldl releaseMode g (map (waiter_handle i) (take (length vs) (w # vs)))"
  have all: "w # vs = take (length vs) (w # vs) @ [(w # vs) ! length vs]"
    by (metis length_Cons lessI take_Suc_conv_app_nth take_all order_refl)
  have gl: "i < length (mg_store gl)" "ms_active (mg_store gl ! i) = [holder ((w # vs) ! length vs)]"
      "ms_waiting (mg_store gl ! i) = []" "ms_identity (mg_store gl ! i) = n"
    using drain [of "length vs"] d(2) by (simp_all add: gl_def)
  have "g'' = releaseMode gl (waiter_handle i ((w # vs) ! length vs))"
    unfolding g''_def gl_def by (subst all) (simp only: map_append foldl_append list.map foldl.simps)
  then have "mg_byName g'' n = None"
    using gl by (simp add: releaseMode_def Let_def waiter_handle_def holder_def)
  then show ?thesis using here by blast
qed

theorem queue_moves_witness:
  "let g = foldl (gate_app (\<lambda>_. [])) sharedModeGate sample_fires;
       g' = releaseMode g \<lparr>hd_state = 0, hd_id = ''r1'', hd_cancel = 0\<rparr>
   in ms_active (mg_store g' ! 0) = [(''r2'', 1)] \<and> 1 \<in> set (mg_ready g') \<and> ms_waiting (mg_store g' ! 0) = []"
  using queue_moves [OF sample_run(1) [of "\<lambda>_. []"], of "''q''" 0 "\<lparr>mw_id = ''r1'', mw_cancel = 0\<rparr>"
      "[\<lparr>mw_id = ''r2'', mw_cancel = 1\<rparr>]" 0]
  by (simp add: sample_run holder_def waiter_handle_def Let_def)


text \<open>
  An automation never disturbs another's: a fire of one leaves the runs and waiters of every
  automation that has another name, or another author, untouched, and ends none of their contexts, whatever
  its own mode; in particular restarting an authored automation cancels no shipped or other owner's
  automation of the same name (names and origins hold no NUL).
\<close>

theorem modes_isolated:
  fixes runId :: string and anc :: ancestry
  assumes "run_ok (gate_app getenv) (op_ok getenv modes) sharedModeGate ops"
  defines "g \<equiv> foldl (gate_app getenv) sharedModeGate ops"
  assumes "CHR 0x00 \<notin> set (ma_Name a @ ma_Origin a @ ma_Name b @ ma_Origin b)"
    and "ma_Name a \<noteq> ma_Name b \<or> (HasPrefix (ma_Origin a) ''authored:'' \<and> ma_Origin a \<noteq> ma_Origin b)"
    and "mg_byName g (automationModeIdentity b) = Some j"
  defines "g' \<equiv> fst (acquire getenv g a runId anc)"
  shows "mg_byName g' (automationModeIdentity b) = Some j \<and> mg_store g' ! j = mg_store g ! j \<and>
    (\<forall>c \<in> cancels (mg_store g ! j). c \<in> set (mg_cancelled g') \<longrightarrow> c \<in> set (mg_cancelled g))"
proof -
  have inv: "gate_inv modes g \<and> contexts_ok g" using gate_reached [OF assms(1)] by (simp add: g_def)
  have "automationModeIdentity b \<noteq> automationModeIdentity a"
    using identity_separates [of a b] assms(3,4) by metis
  then show ?thesis
    using acquire_keeps_others [of modes g, OF _ _ _ assms(5), of a getenv runId anc] inv unfolding g'_def by blast
qed

theorem modes_isolated_witness:
  "let g = foldl (gate_app (\<lambda>_. [])) sharedModeGate sample_fires;
       g' = fst (acquire (\<lambda>_. []) g sample_restart ''r9'' [])
   in mg_byName g' ''q'' = Some 0 \<and> mg_store g' ! 0 = mg_store g ! 0"
proof -
  have "automationModeIdentity sample_queued = ''q''" by (simp add: sample_gate_defs)
  then show ?thesis
    using modes_isolated [OF sample_run(1) [of "\<lambda>_. []"], of sample_restart sample_queued 0 "''r9''" "[]"]
    by (simp add: sample_run Let_def sample_queued_def sample_restart_def)
qed

end
