(* ===== verification/Floats.thy ===== *)
theory Floats
  imports Values "HOL-Library.Log_Nat"
begin

text \<open>
  Go's \<^verbatim>\<open>float64\<close> arithmetic: the exact result rounded to the nearest IEEE binary64 number,
  ties to even, with gradual underflow and overflow to an infinity; the conversion of an integer;
  and the comparisons and whole-number tests of core/num. The sign of a zero is not represented.
\<close>

section \<open>Rounding\<close>

definition pw2 :: "int \<Rightarrow> rat" where
  "pw2 e = (if 0 \<le> e then 2 ^ nat e else 1 / 2 ^ nat (- e))"

text \<open>The exponent of the leading bit of a positive rational.\<close>

definition ilog2 :: "rat \<Rightarrow> int" where
  "ilog2 q =
     (if 1 \<le> q then int (floorlog 2 (nat \<lfloor>q\<rfloor>)) - 1 else - int (floorlog 2 (nat (\<lceil>1 / q\<rceil> - 1))))"

definition roundEven :: "rat \<Rightarrow> int" where
  "roundEven q =
     (let f = \<lfloor>q\<rfloor>; r = q - of_int f
      in if r < 1 / 2 then f else if 1 / 2 < r then f + 1 else if even f then f else f + 1)"

definition round64 :: "rat \<Rightarrow> float64" where
  "round64 q =
     (if q = 0 then Fin 0
      else let u = pw2 (max (ilog2 \<bar>q\<bar> - 52) (- 1074)); r = of_int (roundEven (\<bar>q\<bar> / u)) * u
           in if 2 ^ 1024 \<le> r then (if 0 < q then PosInf else NegInf) else Fin (sgn q * r))"

definition float_of_int :: "int \<Rightarrow> float64" where
  "float_of_int i = round64 (of_int i)"

section \<open>Arithmetic and comparison\<close>

fun fneg :: "float64 \<Rightarrow> float64" where
  "fneg NaN = NaN"
| "fneg PosInf = NegInf"
| "fneg NegInf = PosInf"
| "fneg (Fin q) = Fin (- q)"

fun fadd :: "float64 \<Rightarrow> float64 \<Rightarrow> float64" where
  "fadd (Fin a) (Fin b) = round64 (a + b)"
| "fadd NaN _ = NaN"
| "fadd _ NaN = NaN"
| "fadd PosInf NegInf = NaN"
| "fadd NegInf PosInf = NaN"
| "fadd PosInf _ = PosInf"
| "fadd _ PosInf = PosInf"
| "fadd NegInf _ = NegInf"
| "fadd _ NegInf = NegInf"

definition fsub :: "float64 \<Rightarrow> float64 \<Rightarrow> float64" where
  "fsub a b = fadd a (fneg b)"

fun fsign :: "float64 \<Rightarrow> int" where
  "fsign NaN = 0"
| "fsign PosInf = 1"
| "fsign NegInf = - 1"
| "fsign (Fin q) = (if q < 0 then - 1 else if q = 0 then 0 else 1)"

definition finf :: "int \<Rightarrow> float64" where
  "finf s = (if s < 0 then NegInf else if s = 0 then NaN else PosInf)"

fun fmul :: "float64 \<Rightarrow> float64 \<Rightarrow> float64" where
  "fmul (Fin a) (Fin b) = round64 (a * b)"
| "fmul NaN _ = NaN"
| "fmul _ NaN = NaN"
| "fmul a b = finf (fsign a * fsign b)"

text \<open>Division by a number other than zero; the code refuses the rest first.\<close>

fun fdiv :: "float64 \<Rightarrow> float64 \<Rightarrow> float64" where
  "fdiv (Fin a) (Fin b) = round64 (a / b)"
| "fdiv NaN _ = NaN"
| "fdiv _ NaN = NaN"
| "fdiv (Fin a) _ = Fin 0"
| "fdiv a (Fin b) = finf (fsign a * (if b < 0 then - 1 else 1))"
| "fdiv _ _ = NaN"

fun fless :: "float64 \<Rightarrow> float64 \<Rightarrow> bool" where
  "fless NaN _ \<longleftrightarrow> False"
| "fless _ NaN \<longleftrightarrow> False"
| "fless (Fin a) (Fin b) \<longleftrightarrow> a < b"
| "fless PosInf _ \<longleftrightarrow> False"
| "fless _ PosInf \<longleftrightarrow> True"
| "fless NegInf NegInf \<longleftrightarrow> False"
| "fless NegInf (Fin _) \<longleftrightarrow> True"
| "fless (Fin _) NegInf \<longleftrightarrow> False"

fun is_fin :: "float64 \<Rightarrow> bool" where
  "is_fin (Fin _) \<longleftrightarrow> True"
| "is_fin _ \<longleftrightarrow> False"

section \<open>Whole numbers\<close>

text \<open>The bound \<^verbatim>\<open>math.MaxInt64\<close> is \<open>2 ^ 63\<close> where a float64 is compared with it.\<close>

fun WholeInt64 :: "float64 \<Rightarrow> int option" where
  "WholeInt64 (Fin q) =
     (if q \<noteq> of_int (truncate_rat q) then None
      else if of_int (MaxInt64 + 1) \<le> q \<or> q < of_int MinInt64 then None
      else Some (truncate_rat q))"
| "WholeInt64 _ = None"

fun ClampFloat64ToInt64 :: "float64 \<Rightarrow> int" where
  "ClampFloat64ToInt64 NaN = 0"
| "ClampFloat64ToInt64 PosInf = MaxInt64"
| "ClampFloat64ToInt64 NegInf = MinInt64"
| "ClampFloat64ToInt64 (Fin q) =
     (if of_int (MaxInt64 + 1) \<le> q then MaxInt64
      else if q \<le> of_int MinInt64 then MinInt64
      else truncate_rat q)"

lemma truncate_rat_of_int [simp]: "truncate_rat (of_int n) = n"
  by (simp add: truncate_rat_def)

lemma WholeInt64_Some: "WholeInt64 f = Some n \<longleftrightarrow> f = Fin (of_int n) \<and> in64 n"
proof (cases f)
  case (Fin q)
  have b: "of_int (MaxInt64 + 1) \<le> (of_int m :: rat) \<longleftrightarrow> MaxInt64 + 1 \<le> m"
    "(of_int m :: rat) < of_int MinInt64 \<longleftrightarrow> m < MinInt64" for m
    by (simp_all only: of_int_le_iff of_int_less_iff)
  show ?thesis
  proof (cases "q = of_int (truncate_rat q)")
    case True
    then obtain m where m: "q = of_int m" by blast
    show ?thesis by (auto simp: Fin m b in64_def simp del: of_int_add)
  next
    case False
    then show ?thesis by (auto simp: Fin)
  qed
qed auto

lemma ClampFloat64ToInt64_range: "in64 (ClampFloat64ToInt64 f)"
proof (cases f)
  case (Fin q)
  consider "of_int (MaxInt64 + 1) \<le> q" | "q \<le> of_int MinInt64"
    | "q < of_int (MaxInt64 + 1)" "of_int MinInt64 < q" "\<not> of_int (MaxInt64 + 1) \<le> q" "\<not> q \<le> of_int MinInt64"
    by linarith
  then show ?thesis
  proof cases
    case 3
    have "truncate_rat q \<le> MaxInt64" "MinInt64 \<le> truncate_rat q"
      using 3(1,2) by (auto simp: truncate_rat_def MaxInt64_def MinInt64_def)
    then show ?thesis using 3 by (simp add: Fin in64_def)
  qed (auto simp: Fin in64_def MaxInt64_def MinInt64_def)
qed (simp_all add: in64_def MaxInt64_def MinInt64_def)

section \<open>Integers a float64 holds exactly\<close>

lemma roundEven_of_int [simp]: "roundEven (of_int k) = k"
  by (simp add: roundEven_def)

lemma round64_exact:
  assumes "q \<noteq> 0" "\<bar>q\<bar> = of_int k * pw2 (max (ilog2 \<bar>q\<bar> - 52) (- 1074))" "\<bar>q\<bar> < 2 ^ 1024"
  shows "round64 q = Fin q"
proof -
  have p: "pw2 e > 0" for e by (simp add: pw2_def)
  then have k: "\<bar>q\<bar> / pw2 (max (ilog2 \<bar>q\<bar> - 52) (- 1074)) = of_int k"
    using assms(2) by (simp add: field_simps less_imp_neq [THEN not_sym])
  have "sgn q * \<bar>q\<bar> = q" by (simp add: sgn_mult_abs)
  then show ?thesis using assms by (simp add: round64_def Let_def k)
qed

lemma float_of_int_exact:
  assumes "\<bar>i\<bar> \<le> 2 ^ 53"
  shows "float_of_int i = Fin (of_int i)"
proof (cases "i = 0")
  case True
  then show ?thesis by (simp add: float_of_int_def round64_def)
next
  case False
  define n where "n = nat \<bar>i\<bar>"
  have n: "0 < n" "n \<le> 2 ^ 53" using False assms by (auto simp: n_def)
  have q: "\<bar>of_int i :: rat\<bar> = of_nat n" by (simp add: n_def)
  have l: "ilog2 (of_nat n) = int (floorlog 2 n) - 1" using n(1) by (simp add: ilog2_def)
  have g: "1 \<le> floorlog 2 n" using n(1) floorlog_eq_zero_iff [of 2 n] by simp
  have "\<exists>k. (of_nat n :: rat) = of_int k * pw2 (max (ilog2 (of_nat n) - 52) (- 1074))"
  proof (cases "n = 2 ^ 53")
    case True
    have "floorlog 2 n = 54" unfolding True using floorlog_power [of 1 2 53] compute_floorlog [of 2 1] compute_floorlog [of 2 0] by simp
    then have "pw2 (max (ilog2 (of_nat n) - 52) (- 1074)) = 2" by (simp add: l pw2_def)
    moreover have "(of_nat n :: rat) = of_int (2 ^ 52) * 2" by (simp add: True)
    ultimately show ?thesis by metis
  next
    case False
    then have "n < 2 ^ 53" using n(2) by simp
    then have "floorlog 2 n \<le> 53" by (intro floorlog_leI) auto
    then have "max (ilog2 (of_nat n) - 52) (- 1074) = - int (53 - floorlog 2 n)"
      using g by (simp add: l max_def)
    then show ?thesis
      by (intro exI [of _ "int n * 2 ^ (53 - floorlog 2 n)"]) (simp add: pw2_def, arith)
  qed
  then obtain k where k: "\<bar>of_int i :: rat\<bar> = of_int k * pw2 (max (ilog2 \<bar>of_int i\<bar> - 52) (- 1074))"
    unfolding q by blast
  have "(of_nat n :: rat) \<le> 2 ^ 53" using n(2) by (metis of_nat_le_iff of_nat_numeral of_nat_power)
  also have "\<dots> < 2 ^ 1024" by simp
  finally have "\<bar>of_int i :: rat\<bar> < 2 ^ 1024" unfolding q .
  then show ?thesis unfolding float_of_int_def using round64_exact [OF _ k] False by simp
qed

end
