(* ===== verification/ExprValue.thy ===== *)
theory ExprValue
  imports Floats "HOL-Library.Signed_Division"
begin

text \<open>
  The values of the edition-2026 expression language and what its operators do to them:
  component/memql/expr_eval.go (the value half: members, the equality table, ordering, membership,
  prefixes, \<^verbatim>\<open>+\<close>, arithmetic, canonical text and typed keys), expr_row.go,
  intrinsic_fields.go, the prefix and coalesce rules it shares with executor_filter.go and
  mutation_templates.go, and the date readers of runtime_evaluator.go. A value is already
  normalised: the Go shapes \<^verbatim>\<open>exprNormalize\<close> maps onto the domain, and the objects a
  scope may answer through, are not represented.
\<close>

section \<open>Values, errors and the standard library\<close>

text \<open>
  \<open>VAbsent\<close> is the sentinel \<^verbatim>\<open>Absent\<close> and \<open>VNil\<close> JSON null. A Go map is an association
  list with distinct keys. A row (\<^verbatim>\<open>ExprRow\<close>) is its id, concept, type, creator, creation
  instant, provenance and payload, the last two nil when absent.
\<close>

datatype xval =
    VNil
  | VAbsent
  | VBool bool
  | VString string
  | VInt int
  | VFloat float64
  | VList "xval list"
  | VMap "(string \<times> xval) list"
  | VRow string string string string instant
      "(string \<times> xval) list option" "(string \<times> xval) list option"

type_synonym xmap = "(string \<times> xval) list"

text \<open>
  An \<^verbatim>\<open>ExprError\<close> is its code (and, for \<^verbatim>\<open>raised\<close>, the author's message); a hook's
  error and the context's reach the caller unchanged. \<open>BudgetExceeded\<close> is the one refusal with the code
  \<^verbatim>\<open>expression_budget_exceeded\<close>. \<open>Panic\<close> stands for a Go panic (an index out of range, a
  failed type assertion).
\<close>

datatype xerr = ExprError string | Raised string | HookError string | ContextError string | BudgetExceeded | Panic

type_synonym 'a res = "xerr + 'a"

text \<open>What the evaluator uses of strconv, fmt, encoding/json, crypto/sha256 and time.\<close>

record golib =
  gl_FormatFloat :: "char \<Rightarrow> float64 \<Rightarrow> string"
  gl_Sprint :: "xval \<Rightarrow> string"
  gl_JSON :: "xval \<Rightarrow> string option"
  gl_Sha256Hex :: "string \<Rightarrow> string"
  gl_TimeParse :: "string \<Rightarrow> string \<Rightarrow> instant option"
  gl_RFC3339Nano :: "instant \<Rightarrow> string"

section \<open>Absence and members\<close>

fun IsAbsent :: "xval \<Rightarrow> bool" where
  "IsAbsent VNil \<longleftrightarrow> True"
| "IsAbsent VAbsent \<longleftrightarrow> True"
| "IsAbsent _ \<longleftrightarrow> False"

text \<open>\<^verbatim>\<open>out[k] = v\<close> on a Go map.\<close>

fun mapPut :: "string \<Rightarrow> 'v \<Rightarrow> (string \<times> 'v) list \<Rightarrow> (string \<times> 'v) list" where
  "mapPut k v [] = [(k, v)]"
| "mapPut k v ((a, b) # m) = (if a = k then (k, v) # m else (a, b) # mapPut k v m)"

definition readKey :: "xmap \<Rightarrow> string \<Rightarrow> xval" where
  "readKey m k = (case map_of m k of Some v \<Rightarrow> v | None \<Rightarrow> VAbsent)"

definition exprIndexOf :: "string \<Rightarrow> nat \<Rightarrow> nat option" where
  "exprIndexOf field n =
     (let digs = TrimPrefix field ''-''
      in if digs = '''' \<or> \<not> list_all is_digit digs then None
         else case Atoi field of None \<Rightarrow> None
              | Some i0 \<Rightarrow> let i = (if i0 < 0 then i0 + int n else i0)
                          in if i < 0 \<or> int n \<le> i then None else Some (nat i))"

datatype intrinsicFieldKind = intrinsicFieldConcept | intrinsicFieldId | intrinsicFieldType
  | intrinsicFieldCreatedAt | intrinsicFieldCreatedBy | intrinsicFieldProvenance

definition resolveIntrinsicField :: "string \<Rightarrow> intrinsicFieldKind option" where
  "resolveIntrinsicField name =
     map_of [(''concept'', intrinsicFieldConcept), (''id'', intrinsicFieldId), (''type'', intrinsicFieldType),
             (''createdat'', intrinsicFieldCreatedAt), (''createdby'', intrinsicFieldCreatedBy),
             (''provenance'', intrinsicFieldProvenance)] (ToLower (TrimSpace name))"

definition rowMember ::
  "golib \<Rightarrow> string \<Rightarrow> string \<Rightarrow> string \<Rightarrow> string \<Rightarrow> instant \<Rightarrow> xmap option \<Rightarrow> xmap option \<Rightarrow> string \<Rightarrow> xval" where
  "rowMember lib i c t by ca prov payload field =
     (case resolveIntrinsicField field of
        Some intrinsicFieldId \<Rightarrow> VString i
      | Some intrinsicFieldConcept \<Rightarrow> VString c
      | Some intrinsicFieldType \<Rightarrow> VString t
      | Some intrinsicFieldCreatedBy \<Rightarrow> VString by
      | Some intrinsicFieldCreatedAt \<Rightarrow> if IsZero ca then VAbsent else VString (gl_RFC3339Nano lib ca)
      | Some intrinsicFieldProvenance \<Rightarrow> (case prov of None \<Rightarrow> VAbsent | Some m \<Rightarrow> VMap m)
      | None \<Rightarrow> (case payload of None \<Rightarrow> VAbsent | Some m \<Rightarrow> readKey m field))"

fun exprMember :: "golib \<Rightarrow> xval \<Rightarrow> string \<Rightarrow> xval" where
  "exprMember lib (VMap m) f = readKey m f"
| "exprMember lib (VList xs) f = (case exprIndexOf f (length xs) of Some i \<Rightarrow> xs ! i | None \<Rightarrow> VAbsent)"
| "exprMember lib (VRow i c t by ca prov payload) f = rowMember lib i c t by ca prov payload f"
| "exprMember lib _ f = VAbsent"

section \<open>Numbers\<close>

datatype exprNumber = NInt int | NFloat float64

fun exprNumberOf :: "xval \<Rightarrow> exprNumber option" where
  "exprNumberOf (VInt i) = Some (NInt i)"
| "exprNumberOf (VFloat f) = Some (NFloat f)"
| "exprNumberOf _ = None"

fun floatOf :: "exprNumber \<Rightarrow> float64" where
  "floatOf (NInt i) = float_of_int i"
| "floatOf (NFloat f) = f"

fun whole :: "exprNumber \<Rightarrow> int option" where
  "whole (NInt i) = Some i"
| "whole (NFloat f) = WholeInt64 f"

fun truncF :: "float64 \<Rightarrow> float64" where
  "truncF (Fin q) = Fin (of_int (truncate_rat q))"
| "truncF f = f"

definition exprCompareIntFloat :: "int \<Rightarrow> float64 \<Rightarrow> int option" where
  "exprCompareIntFloat i f =
     (if f = NaN then None
      else if \<not> fless f (Fin 9223372036854775808) then Some (- 1)
      else if fless f (Fin (- 9223372036854775808)) then Some 1
      else case WholeInt64 (truncF f) of
             None \<Rightarrow> None
           | Some ti \<Rightarrow>
               if i < ti then Some (- 1)
               else if ti < i then Some 1
               else if fless (truncF f) f then Some (- 1)
               else if fless f (truncF f) then Some 1
               else Some 0)"

fun exprCompareNumbers :: "exprNumber \<Rightarrow> exprNumber \<Rightarrow> int option" where
  "exprCompareNumbers (NInt a) (NInt b) = Some (if a < b then - 1 else if b < a then 1 else 0)"
| "exprCompareNumbers (NFloat a) (NFloat b) =
     (if a = NaN \<or> b = NaN then None else Some (if fless a b then - 1 else if fless b a then 1 else 0))"
| "exprCompareNumbers (NInt a) (NFloat b) = exprCompareIntFloat a b"
| "exprCompareNumbers (NFloat a) (NInt b) = map_option uminus (exprCompareIntFloat b a)"

section \<open>Equality, ordering, membership\<close>

text \<open>\<^verbatim>\<open>reflect.DeepEqual\<close> on two rows: typed, field by field; nil and empty maps differ.\<close>

lemma size_pair_mem [termination_simp]: "p \<in> set m \<Longrightarrow> size (snd p) < Suc (size_list (size_prod (\<lambda>_. 0) size) m)"
  by (induction m) (auto simp: less_Suc_eq_le le_add1 trans_le_add2)

lemma size_map_of [termination_simp]:
  "map_of m k = Some v \<Longrightarrow> size v < Suc (size_list (\<lambda>p. Suc (size (snd p))) m)"
  by (induction m) (auto split: if_splits)

text \<open>
  Two Go maps under an equality of their values: as many keys, and every key of the first in the
  second with an equal value.
\<close>

definition mapsEqual :: "('v \<Rightarrow> 'v \<Rightarrow> bool) \<Rightarrow> (string \<times> 'v) list \<Rightarrow> (string \<times> 'v) list \<Rightarrow> bool" where
  "mapsEqual eq m n \<longleftrightarrow>
     length m = length n \<and> list_all (\<lambda>p. case map_of n (fst p) of None \<Rightarrow> False | Some w \<Rightarrow> eq (snd p) w) m"

lemma mapsEqual_cong [fundef_cong]:
  assumes "m = m'" "n = n'" "\<And>p w. p \<in> set m' \<Longrightarrow> eq (snd p) w = eq' (snd p) w"
  shows "mapsEqual eq m n = mapsEqual eq' m' n'"
  using assms by (auto simp: mapsEqual_def list_all_iff split: option.splits)

fun deepEqual :: "xval \<Rightarrow> xval \<Rightarrow> bool" where
  "deepEqual (VFloat a) w = (w = VFloat a \<and> a \<noteq> NaN)"
| "deepEqual (VList xs) w = (case w of VList ys \<Rightarrow> list_all2 deepEqual xs ys | _ \<Rightarrow> False)"
| "deepEqual (VMap m) w = (case w of VMap n \<Rightarrow> mapsEqual deepEqual m n | _ \<Rightarrow> False)"
| "deepEqual (VRow i c t by ca prov payload) w =
     (case w of VRow i' c' t' by' ca' prov' payload' \<Rightarrow>
        i = i' \<and> c = c' \<and> t = t' \<and> by = by' \<and> ca = ca' \<and>
        (case prov of None \<Rightarrow> prov' = None
         | Some m \<Rightarrow> (case prov' of None \<Rightarrow> False | Some n \<Rightarrow> mapsEqual deepEqual m n)) \<and>
        (case payload of None \<Rightarrow> payload' = None
         | Some m \<Rightarrow> (case payload' of None \<Rightarrow> False | Some n \<Rightarrow> mapsEqual deepEqual m n))
      | _ \<Rightarrow> False)"
| "deepEqual VNil w = (w = VNil)"
| "deepEqual VAbsent w = (w = VAbsent)"
| "deepEqual (VBool b) w = (w = VBool b)"
| "deepEqual (VString s) w = (w = VString s)"
| "deepEqual (VInt i) w = (w = VInt i)"

fun exprStrictEqual :: "xval \<Rightarrow> xval \<Rightarrow> bool" where
  "exprStrictEqual VNil w = IsAbsent w"
| "exprStrictEqual VAbsent w = IsAbsent w"
| "exprStrictEqual (VBool b) w = (w = VBool b)"
| "exprStrictEqual (VString s) w = (w = VString s)"
| "exprStrictEqual (VInt i) w =
     (case exprNumberOf w of None \<Rightarrow> False | Some n \<Rightarrow> exprCompareNumbers (NInt i) n = Some 0)"
| "exprStrictEqual (VFloat f) w =
     (case exprNumberOf w of None \<Rightarrow> False | Some n \<Rightarrow> exprCompareNumbers (NFloat f) n = Some 0)"
| "exprStrictEqual (VList xs) w = (case w of VList ys \<Rightarrow> list_all2 exprStrictEqual xs ys | _ \<Rightarrow> False)"
| "exprStrictEqual (VMap m) w = (case w of VMap n \<Rightarrow> mapsEqual exprStrictEqual m n | _ \<Rightarrow> False)"
| "exprStrictEqual (VRow i c t by ca prov payload) w = deepEqual (VRow i c t by ca prov payload) w"

definition exprIsUnset :: "xval \<Rightarrow> bool" where
  "exprIsUnset v \<longleftrightarrow> IsAbsent v \<or> v = VString ''''"

definition exprEqual :: "xval \<Rightarrow> xval \<Rightarrow> bool" where
  "exprEqual l r =
     (if exprIsUnset l \<or> exprIsUnset r then exprIsUnset l \<and> exprIsUnset r else exprStrictEqual l r)"

text \<open>\<^verbatim>\<open>strings.Compare\<close>, by byte.\<close>

fun strCompare :: "string \<Rightarrow> string \<Rightarrow> int" where
  "strCompare [] [] = 0"
| "strCompare [] (_ # _) = - 1"
| "strCompare (_ # _) [] = 1"
| "strCompare (a # s) (b # t) =
     (if (of_char a :: nat) < of_char b then - 1 else if (of_char b :: nat) < of_char a then 1 else strCompare s t)"

definition orderedBy :: "string \<Rightarrow> int \<Rightarrow> bool" where
  "orderedBy opr c =
     (if opr = ''<'' then c < 0 else if opr = ''<='' then c \<le> 0
      else if opr = ''>'' then 0 < c else if opr = ''>='' then 0 \<le> c else False)"

definition exprOrdered :: "string \<Rightarrow> xval \<Rightarrow> xval \<Rightarrow> bool" where
  "exprOrdered opr l r =
     (case (exprNumberOf l, exprNumberOf r) of
        (Some a, Some b) \<Rightarrow> (case exprCompareNumbers a b of None \<Rightarrow> False | Some c \<Rightarrow> orderedBy opr c)
      | _ \<Rightarrow> (case (l, r) of (VString s, VString t) \<Rightarrow> orderedBy opr (strCompare s t) | _ \<Rightarrow> False))"

fun exprIn :: "xval \<Rightarrow> xval \<Rightarrow> bool res" where
  "exprIn l VNil = Inr False"
| "exprIn l VAbsent = Inr False"
| "exprIn l (VList xs) = Inr (list_ex (exprEqual l) xs)"
| "exprIn l _ = Inl (ExprError ''in_requires_list'')"

definition normalizePrefixValues :: "string list \<Rightarrow> string list" where
  "normalizePrefixValues raw = filter (\<lambda>p. TrimSpace p \<noteq> '''') raw"

definition startsWithAny :: "string \<Rightarrow> string list \<Rightarrow> bool" where
  "startsWithAny s ps = list_ex (HasPrefix s) ps"

fun exprIsStringOrAbsent :: "xval \<Rightarrow> bool" where
  "exprIsStringOrAbsent (VString _) \<longleftrightarrow> True"
| "exprIsStringOrAbsent v \<longleftrightarrow> IsAbsent v"

fun stringsIn :: "xval list \<Rightarrow> string list" where
  "stringsIn [] = []"
| "stringsIn (VString s # vs) = s # stringsIn vs"
| "stringsIn (_ # vs) = stringsIn vs"

definition prefixTest :: "xval \<Rightarrow> string list \<Rightarrow> bool" where
  "prefixTest l raw =
     (case l of VString s \<Rightarrow> startsWithAny s (normalizePrefixValues raw) | _ \<Rightarrow> False)"

fun exprStartsWith :: "xval \<Rightarrow> xval \<Rightarrow> bool res" where
  "exprStartsWith l VNil = Inr False"
| "exprStartsWith l VAbsent = Inr False"
| "exprStartsWith l (VString p) = Inr (prefixTest l [p])"
| "exprStartsWith l (VList ps) =
     (if list_all exprIsStringOrAbsent ps then Inr (prefixTest l (stringsIn ps))
      else Inl (ExprError ''operand_type''))"
| "exprStartsWith l _ = Inl (ExprError ''operand_type'')"

section \<open>Text and keys\<close>

definition boolText :: "bool \<Rightarrow> string" where
  "boolText b = (if b then ''true'' else ''false'')"

definition jsonOrSprint :: "golib \<Rightarrow> xval \<Rightarrow> string" where
  "jsonOrSprint lib v = (case gl_JSON lib v of Some s \<Rightarrow> s | None \<Rightarrow> gl_Sprint lib v)"

fun exprText :: "golib \<Rightarrow> xval \<Rightarrow> string" where
  "exprText lib VNil = ''''"
| "exprText lib VAbsent = ''''"
| "exprText lib (VString s) = s"
| "exprText lib (VBool b) = boolText b"
| "exprText lib (VInt i) = itoa i"
| "exprText lib (VFloat f) = gl_FormatFloat lib CHR ''f'' f"
| "exprText lib v = jsonOrSprint lib v"

fun exprKey :: "golib \<Rightarrow> xval \<Rightarrow> string" where
  "exprKey lib VNil = ''z:''"
| "exprKey lib VAbsent = ''z:''"
| "exprKey lib (VBool b) = ''b:'' @ boolText b"
| "exprKey lib (VString s) = ''s:'' @ s"
| "exprKey lib (VInt i) = ''n:'' @ itoa i"
| "exprKey lib (VFloat f) =
     (case WholeInt64 f of Some w \<Rightarrow> ''n:'' @ itoa w | None \<Rightarrow> ''n:'' @ gl_FormatFloat lib CHR ''g'' f)"
| "exprKey lib v = (case gl_JSON lib v of Some s \<Rightarrow> ''j:'' @ s | None \<Rightarrow> ''?:'' @ gl_Sprint lib v)"

definition exprUnsentinel :: "xval \<Rightarrow> xval" where
  "exprUnsentinel v = (if v = VAbsent then VNil else v)"

section \<open>Arithmetic\<close>

text \<open>
  Both integers: Go's \<^verbatim>\<open>+ - * / %\<close> on int64, wrapping, behind the tests the code makes first;
  \<open>sdiv\<close> and \<open>smod\<close> truncate toward zero.
\<close>

definition overflow :: "'a res" where
  "overflow = Inl (ExprError ''arithmetic_overflow'')"

definition intArithmetic :: "string \<Rightarrow> int \<Rightarrow> int \<Rightarrow> int res" where
  "intArithmetic opr x y =
     (if opr = ''+'' then
        (if (0 < y \<and> MaxInt64 - y < x) \<or> (y < 0 \<and> x < MinInt64 - y) then overflow else Inr (wrap64 (x + y)))
      else if opr = ''-'' then
        (if (y < 0 \<and> MaxInt64 + y < x) \<or> (0 < y \<and> x < MinInt64 + y) then overflow else Inr (wrap64 (x - y)))
      else if opr = ''*'' then
        (if x \<noteq> 0 \<and> y \<noteq> 0 \<and>
            (wrap64 (wrap64 (x * y) sdiv y) \<noteq> x \<or> (x = - 1 \<and> y = MinInt64) \<or> (y = - 1 \<and> x = MinInt64))
         then overflow else Inr (wrap64 (x * y)))
      else if opr = ''/'' then
        (if y = 0 then Inl (ExprError ''division_by_zero'')
         else if x = MinInt64 \<and> y = - 1 then overflow
         else Inr (x sdiv y))
      else if y = 0 then Inl (ExprError ''division_by_zero'')
      else if y = - 1 then Inr 0
      else Inr (x smod y))"

definition floatArithmetic :: "string \<Rightarrow> float64 \<Rightarrow> float64 \<Rightarrow> xval res" where
  "floatArithmetic opr x y =
     (if opr = ''/'' \<and> y = Fin 0 then Inl (ExprError ''division_by_zero'')
      else let r = (if opr = ''+'' then fadd x y else if opr = ''-'' then fsub x y
                    else if opr = ''*'' then fmul x y else fdiv x y)
           in if is_fin r then Inr (VFloat r) else overflow)"

definition exprArithmetic :: "string \<Rightarrow> exprNumber \<Rightarrow> exprNumber \<Rightarrow> xval res" where
  "exprArithmetic opr a b =
     (case (a, b) of
        (NInt x, NInt y) \<Rightarrow> map_sum id VInt (intArithmetic opr x y)
      | _ \<Rightarrow>
          if opr = ''%'' then
            (case (whole a, whole b) of
               (Some x, Some y) \<Rightarrow>
                 if y = 0 then Inl (ExprError ''division_by_zero'')
                 else if y = - 1 then Inr (VInt 0)
                 else Inr (VInt (x smod y))
             | _ \<Rightarrow> Inl (ExprError ''operand_type''))
          else floatArithmetic opr (floatOf a) (floatOf b))"

definition exprPlus :: "golib \<Rightarrow> xval \<Rightarrow> xval \<Rightarrow> xval res" where
  "exprPlus lib l r =
     (case (exprNumberOf l, exprNumberOf r) of
        (Some a, Some b) \<Rightarrow> exprArithmetic ''+'' a b
      | _ \<Rightarrow>
          (case (l, r) of
             (VString s, _) \<Rightarrow> Inr (VString (s @ exprText lib r))
           | (_, VString t) \<Rightarrow> Inr (VString (exprText lib l @ t))
           | (VList xs, VList ys) \<Rightarrow>
               if MaxInt64 - int (length ys) < int (length xs) then overflow else Inr (VList (xs @ ys))
           | _ \<Rightarrow> Inl (ExprError ''operand_type'')))"

definition numericBinary :: "string \<Rightarrow> xval \<Rightarrow> xval \<Rightarrow> xval res" where
  "numericBinary opr l r =
     (case (exprNumberOf l, exprNumberOf r) of
        (Some a, Some b) \<Rightarrow> exprArithmetic opr a b
      | _ \<Rightarrow> Inl (ExprError ''operand_type''))"

definition negate :: "xval \<Rightarrow> xval res" where
  "negate v =
     (case exprNumberOf v of
        None \<Rightarrow> Inl (ExprError ''operand_type'')
      | Some (NInt i) \<Rightarrow> if i = MinInt64 then overflow else Inr (VInt (- i))
      | Some (NFloat f) \<Rightarrow> Inr (VFloat (fneg f)))"

end
