(* ===== verification/ExprFuncs.thy ===== *)
theory ExprFuncs
  imports ExprValue
begin

text \<open>
  The functions an expression may call that read values only: node ids (core/id/partition.go and
  \<^verbatim>\<open>EvaluateShortId\<close>), dates and durations (component/memql/runtime_evaluator.go), the
  numeric aggregates and the stable order of collection_method.go, and the function catalog of
  component/language/functions.
\<close>

section \<open>Node ids\<close>

definition isVersionSegment :: "string \<Rightarrow> bool" where
  "isVersionSegment s \<longleftrightarrow> 2 \<le> length s \<and> hd s = CHR ''v'' \<and> list_all is_digit (tl s)"

fun versionIdx :: "string list \<Rightarrow> nat option" where
  "versionIdx [] = None"
| "versionIdx (p # ps) = (if isVersionSegment p then Some 0 else map_option Suc (versionIdx ps))"

text \<open>The concept and the short id, None for the error.\<close>

definition ParseNodeId :: "string \<Rightarrow> (string \<times> string) option" where
  "ParseNodeId fullId =
     (let trimmed = TrimSpace fullId
      in if trimmed = '''' then None
         else let parts = Split trimmed CHR '':''
              in case versionIdx parts of
                   None \<Rightarrow> Some ('''', trimmed)
                 | Some i \<Rightarrow>
                     if length parts < i + 3 then None
                     else Some (Join (take 3 (drop i parts)) '':'',
                                if i + 3 < length parts then Join (drop (i + 3) parts) '':'' else ''''))"

definition BuildNodeId :: "string \<Rightarrow> string \<Rightarrow> string" where
  "BuildNodeId concept0 shortId0 =
     (let concept = TrimSpace concept0; shortId = TrimSpace shortId0
      in if concept = '''' then shortId else if shortId = '''' then concept
         else concept @ '':'' @ shortId)"

definition EvaluateShortId :: "string \<Rightarrow> string" where
  "EvaluateShortId value =
     (let v = TrimSpace value
      in if v = '''' then ''''
         else case ParseNodeId v of None \<Rightarrow> v | Some (_, short) \<Rightarrow> if short = '''' then v else short)"

section \<open>Dates and durations\<close>

definition dateFormats :: "string list" where
  "dateFormats = [''2006-01-02T15:04:05Z07:00'', ''2006-01-02T15:04:05Z'', ''2006-01-02T15:04:05'', ''2006-01-02'']"

fun parseFirst :: "golib \<Rightarrow> string list \<Rightarrow> string \<Rightarrow> instant option" where
  "parseFirst lib [] s = None"
| "parseFirst lib (f # fs) s = (case gl_TimeParse lib f s of Some t \<Rightarrow> Some t | None \<Rightarrow> parseFirst lib fs s)"

definition parseDate :: "golib \<Rightarrow> string \<Rightarrow> instant option" where
  "parseDate lib s = parseFirst lib dateFormats s"

text \<open>\<^verbatim>\<open>fmt.Sscanf(s, "%d", &n)\<close>: blanks, a sign, digits, and whatever follows.\<close>

definition scanInt :: "string \<Rightarrow> int option" where
  "scanInt s =
     (let t = dropWhile is_space s;
          (neg, u) = (case t of c # r \<Rightarrow> if c = CHR ''-'' then (True, r) else if c = CHR ''+'' then (False, r) else (False, t)
                      | [] \<Rightarrow> (False, t));
          ds = takeWhile is_digit u;
          n = (if neg then - int (digits_val 0 ds) else int (digits_val 0 ds))
      in if CHR 0x0A \<in> set (takeWhile is_space s) \<or> ds = [] \<or> \<not> in64 n then None else Some n)"

text \<open>
  One component of a duration: the text before the first unit letter, and the text after it. A
  number that does not read counts nothing.
\<close>

definition component :: "char \<Rightarrow> int \<Rightarrow> int \<times> string \<Rightarrow> int \<times> string" where
  "component u per = (\<lambda>(d, s).
     case Cut s [u] of
       None \<Rightarrow> (d, s)
     | Some (a, b) \<Rightarrow>
         ((case scanInt a of None \<Rightarrow> d | Some n \<Rightarrow> wrap64 (d + wrap64 (n * per))), b))"

definition durMinute :: int where "durMinute = 60000000000"
definition durSecond :: int where "durSecond = 1000000000"

definition parseISO8601Duration :: "string \<Rightarrow> duration option" where
  "parseISO8601Duration s0 =
     (let negative = (s0 \<noteq> [] \<and> hd s0 = CHR ''-'');
          s = (if negative then tl s0 else s0)
      in if length s < 2 \<or> hd s \<noteq> CHR ''P'' then None
         else let (d, r) = component (CHR ''D'') (24 * Hour) (0, tl s);
                  (d2, _) = (if r \<noteq> [] \<and> hd r = CHR ''T''
                             then component (CHR ''S'') durSecond
                                    (component (CHR ''M'') durMinute (component (CHR ''H'') Hour (d, tl r)))
                             else (d, r))
              in Some (if negative then wrap64 (- d2) else d2))"

definition Hours :: "duration \<Rightarrow> float64" where
  "Hours d = fadd (float_of_int (d sdiv Hour)) (fdiv (float_of_int (d smod Hour)) (Fin 3600000000000))"

text \<open>
  The conversion \<^verbatim>\<open>int(f)\<close>: truncation, and the smallest integer where the value does not fit (what
  the processor's conversion leaves).
\<close>

definition intOfFloat :: "float64 \<Rightarrow> int" where
  "intOfFloat f = (case f of Fin q \<Rightarrow> if in64 (truncate_rat q) then truncate_rat q else MinInt64 | _ \<Rightarrow> MinInt64)"

definition EvaluateDaysBetween :: "golib \<Rightarrow> string \<Rightarrow> string \<Rightarrow> int option" where
  "EvaluateDaysBetween lib date1 date2 =
     (case parseDate lib date1 of None \<Rightarrow> None
      | Some t1 \<Rightarrow> (case parseDate lib date2 of None \<Rightarrow> None
                   | Some t2 \<Rightarrow> Some (intOfFloat (fdiv (Hours (TimeSub t2 t1)) (Fin 24)))))"

section \<open>Aggregates and order\<close>

fun runtimeToFloat64 :: "xval \<Rightarrow> float64 option" where
  "runtimeToFloat64 (VFloat f) = Some f"
| "runtimeToFloat64 (VInt i) = Some (float_of_int i)"
| "runtimeToFloat64 _ = None"

text \<open>\<^verbatim>\<open>fmt.Sprintf("%v", v)\<close>.\<close>

fun sprintV :: "golib \<Rightarrow> xval \<Rightarrow> string" where
  "sprintV lib (VString s) = s"
| "sprintV lib (VBool b) = boolText b"
| "sprintV lib (VInt i) = itoa i"
| "sprintV lib v = gl_Sprint lib v"

definition runtimeCompareValues :: "golib \<Rightarrow> xval \<Rightarrow> xval \<Rightarrow> int" where
  "runtimeCompareValues lib a b =
     (if a = VNil \<and> b = VNil then 0 else if a = VNil then - 1 else if b = VNil then 1
      else case (runtimeToFloat64 a, runtimeToFloat64 b) of
             (Some x, Some y) \<Rightarrow> if fless x y then - 1 else if fless y x then 1 else 0
           | _ \<Rightarrow> strCompare (sprintV lib a) (sprintV lib b))"

text \<open>
  \<^verbatim>\<open>sort.SliceStable\<close> as the library's insertion sort: each element moves left past those it
  is less than. On a strict weak order this is the one stable order.
\<close>

fun insertBack :: "('a \<Rightarrow> 'a \<Rightarrow> bool) \<Rightarrow> 'a \<Rightarrow> 'a list \<Rightarrow> 'a list" where
  "insertBack lt x [] = [x]"
| "insertBack lt x (y # ys) = (if lt x y then y # insertBack lt x ys else x # y # ys)"

definition SliceStable :: "('a \<Rightarrow> 'a \<Rightarrow> bool) \<Rightarrow> 'a list \<Rightarrow> 'a list" where
  "SliceStable lt xs = rev (foldl (\<lambda>acc x. insertBack lt x acc) [] xs)"

definition orderByKeys :: "golib \<Rightarrow> bool \<Rightarrow> (xval \<times> xval) list \<Rightarrow> xval list" where
  "orderByKeys lib desc items =
     map snd (SliceStable (\<lambda>a b. let c = runtimeCompareValues lib (fst a) (fst b) in if desc then 0 < c else c < 0) items)"

section \<open>The catalog\<close>

record catalogFn =
  cf_Name :: string
  cf_Receiver :: string
  cf_Params :: "(string \<times> bool) list"   \<comment> \<open>type word, optional\<close>

definition Key :: "catalogFn \<Rightarrow> string" where
  "Key f = (if cf_Receiver f = '''' then cf_Name f else cf_Receiver f @ ''.'' @ cf_Name f)"

definition fnEntry :: "string \<Rightarrow> string list \<Rightarrow> catalogFn" where
  "fnEntry name ts = \<lparr>cf_Name = name, cf_Receiver = '''', cf_Params = map (\<lambda>t. (t, False)) ts\<rparr>"

definition methodEntry :: "string \<Rightarrow> string \<Rightarrow> string list \<Rightarrow> catalogFn" where
  "methodEntry recv name ts = \<lparr>cf_Name = name, cf_Receiver = recv, cf_Params = map (\<lambda>t. (t, False)) ts\<rparr>"

definition traversal :: "string \<Rightarrow> catalogFn" where
  "traversal name =
     \<lparr>cf_Name = name, cf_Receiver = '''', cf_Params = [(''string'', True), (''lambda'', False)]\<rparr>"

definition functionEntries :: "catalogFn list" where
  "functionEntries =
     [fnEntry ''lower'' [''string''], fnEntry ''upper'' [''string''], fnEntry ''trim'' [''string''],
      fnEntry ''hash'' [''string''], fnEntry ''shortId'' [''string''],
      fnEntry ''canonicalId'' [''string'', ''string''], fnEntry ''toString'' [''any''],
      fnEntry ''addDuration'' [''datetime'', ''duration''], fnEntry ''daysBetween'' [''datetime'', ''datetime''],
      fnEntry ''error'' [''string''], fnEntry ''var'' [''string''], fnEntry ''systemVar'' [''string''],
      fnEntry ''secret'' [''string''], fnEntry ''systemSecret'' [''string'']]"

definition traversalEntries :: "catalogFn list" where
  "traversalEntries =
     map traversal [''parentOf'', ''childOf'', ''aliasOf'', ''equals'', ''references'', ''contains'', ''owns'', ''createdBy'']
     @ [fnEntry ''ids'' [''lambda'']]"

definition methodEntries :: "catalogFn list" where
  "methodEntries =
     [methodEntry ''string'' ''includes'' [''string''], methodEntry ''string'' ''count'' [],
      methodEntry ''list'' ''count'' [], methodEntry ''list'' ''any'' [''lambda''],
      methodEntry ''list'' ''all'' [''lambda''], methodEntry ''list'' ''where'' [''lambda''],
      methodEntry ''list'' ''select'' [''lambda''], methodEntry ''list'' ''first'' [],
      methodEntry ''list'' ''last'' [], methodEntry ''list'' ''single'' [], methodEntry ''list'' ''empty'' [],
      methodEntry ''list'' ''sum'' [''lambda''], methodEntry ''list'' ''min'' [''lambda''],
      methodEntry ''list'' ''max'' [''lambda''], methodEntry ''list'' ''avg'' [''lambda''],
      methodEntry ''list'' ''orderBy'' [''lambda''], methodEntry ''list'' ''orderByDesc'' [''lambda''],
      methodEntry ''list'' ''groupBy'' [''lambda''],
      \<lparr>cf_Name = ''distinct'', cf_Receiver = ''list'', cf_Params = [(''lambda'', True)]\<rparr>,
      methodEntry ''list'' ''take'' [''number''], methodEntry ''list'' ''skip'' [''number''],
      methodEntry ''list'' ''reduce'' [''any'', ''lambda''], methodEntry ''list'' ''nodes'' []]"

definition catalogEntries :: "catalogFn list" where
  "catalogEntries = functionEntries @ traversalEntries @ methodEntries"

definition exprCatalog :: "string \<Rightarrow> catalogFn option" where
  "exprCatalog = map_of (map (\<lambda>f. (Key f, f)) catalogEntries)"

definition exprMethodEntry :: "string \<Rightarrow> string \<Rightarrow> catalogFn option" where
  "exprMethodEntry receiver name =
     (case exprCatalog (receiver @ ''.'' @ name) of
        Some f \<Rightarrow> Some f
      | None \<Rightarrow> exprCatalog (''any'' @ ''.'' @ name))"

end
