(* ===== verification/ExprEval.thy ===== *)
theory ExprEval
  imports ExprFuncs
begin

text \<open>
  The in-process evaluator of the edition-2026 expression language
  (component/memql/expr_eval.go, expr_stored.go): one node evaluation is one step of a budget, the
  catalog decides what a call means, a lambda is an argument form whose body runs per element, and
  a predicate is applied to at most \<open>exprMaxPredicateDepth\<close> levels. An evaluation is a function of
  the steps already taken that answers a result and the steps taken after it.
\<close>

section \<open>Expressions and options\<close>

datatype expr =
    IdentE string
  | MemberE expr string
  | CallE string string "expr option" "expr list" "(string \<times> expr) list"   \<comment> \<open>kind, name, receiver, args, named\<close>
  | UnaryE string expr
  | BinaryE string expr expr
  | TernaryE expr expr expr
  | ListE "expr list"
  | MapE "(string \<times> expr) list"
  | ParenE expr
  | LiteralE xval
  | NilE
  | LambdaE "string list" expr

fun Unparen :: "expr \<Rightarrow> expr" where
  "Unparen (ParenE e) = Unparen e"
| "Unparen e = e"

text \<open>
  \<^verbatim>\<open>EvalOptions\<close>, with the root scope and the context. A hook is asked at a step number, which
  no two of its calls share, so its answers may change during an evaluation. The clock is the text
  captured once per call.
\<close>

record evalOptions =
  eo_lib :: golib
  eo_Now :: string
  eo_Budget :: int
  eo_Predicates :: "(string \<Rightarrow> (string \<times> expr) option) option"
  eo_CanonicalID :: "(nat \<Rightarrow> string \<Rightarrow> string \<Rightarrow> string + string) option"
  eo_Vars :: "(nat \<Rightarrow> string \<Rightarrow> string \<Rightarrow> string + string) option"
  eo_Calls :: "(nat \<Rightarrow> string \<Rightarrow> string \<Rightarrow> xmap \<Rightarrow> string + xval) option"
  eo_ctxErr :: "nat \<Rightarrow> string option"
  eo_root :: "string \<Rightarrow> xval option"

definition DefaultStepBudget :: nat where
  "DefaultStepBudget = 1000000"

definition budgetOf :: "evalOptions \<Rightarrow> nat" where
  "budgetOf o1 = (if eo_Budget o1 \<le> 0 then DefaultStepBudget else nat (eo_Budget o1))"

definition exprMaxPredicateDepth :: nat where
  "exprMaxPredicateDepth = 64"

section \<open>Computations\<close>

type_synonym 'a comp = "nat \<Rightarrow> 'a res \<times> nat"

definition ret :: "'a \<Rightarrow> 'a comp" where
  "ret x = (\<lambda>s. (Inr x, s))"

definition fail :: "xerr \<Rightarrow> 'a comp" where
  "fail e = (\<lambda>s. (Inl e, s))"

definition refuse :: "string \<Rightarrow> 'a comp" where
  "refuse code = fail (ExprError code)"

definition lift :: "'a res \<Rightarrow> 'a comp" where
  "lift r = (\<lambda>s. (r, s))"

definition andThen :: "'a comp \<Rightarrow> ('a \<Rightarrow> 'b comp) \<Rightarrow> 'b comp" where
  "andThen m f = (\<lambda>s. case m s of (Inl e, s') \<Rightarrow> (Inl e, s') | (Inr x, s') \<Rightarrow> f x s')"

definition askHook :: "(nat \<Rightarrow> string + 'a) \<Rightarrow> 'a comp" where
  "askHook h = (\<lambda>s. (map_sum HookError id (h s), s))"

definition tick :: "evalOptions \<Rightarrow> unit comp" where
  "tick o1 = (\<lambda>s.
     if budgetOf o1 < Suc s then (Inl BudgetExceeded, Suc s)
     else if Suc s mod 1024 = 0
          then (case eo_ctxErr o1 (Suc s) of Some e \<Rightarrow> (Inl (ContextError e), Suc s) | None \<Rightarrow> (Inr (), Suc s))
          else (Inr (), Suc s))"

section \<open>Scopes\<close>

text \<open>A lambda scope binds names, each with its value and whether the value was read from a stored row.\<close>

type_synonym binds = "(string \<times> xval \<times> bool) list"

datatype scope = RootScope | LambdaScope binds scope

fun lookup :: "evalOptions \<Rightarrow> scope \<Rightarrow> string \<Rightarrow> xval option" where
  "lookup o1 RootScope name = eo_root o1 name"
| "lookup o1 (LambdaScope bs p) name =
     (case map_of bs name of Some (v, _) \<Rightarrow> Some v | None \<Rightarrow> lookup o1 p name)"

datatype exprStoredKind = exprNotStored | exprStoredRow | exprStoredElement

fun isRow :: "xval \<Rightarrow> bool" where
  "isRow (VRow _ _ _ _ _ _ _) \<longleftrightarrow> True"
| "isRow _ \<longleftrightarrow> False"

fun isString :: "xval \<Rightarrow> bool" where
  "isString (VString _) \<longleftrightarrow> True"
| "isString _ \<longleftrightarrow> False"

fun exprStoredRoot :: "evalOptions \<Rightarrow> scope \<Rightarrow> string \<Rightarrow> exprStoredKind" where
  "exprStoredRoot o1 RootScope name =
     (case eo_root o1 name of Some v \<Rightarrow> if isRow v then exprStoredRow else exprNotStored | None \<Rightarrow> exprNotStored)"
| "exprStoredRoot o1 (LambdaScope bs p) name =
     (case map_of bs name of
        Some (v, stored) \<Rightarrow> if stored then exprStoredElement else if isRow v then exprStoredRow else exprNotStored
      | None \<Rightarrow> exprStoredRoot o1 p name)"

fun storedRead :: "evalOptions \<Rightarrow> scope \<Rightarrow> nat \<Rightarrow> expr \<Rightarrow> bool" where
  "storedRead o1 sc hops (ParenE e) = storedRead o1 sc hops e"
| "storedRead o1 sc hops (MemberE e _) = storedRead o1 sc (Suc hops) e"
| "storedRead o1 sc hops (IdentE n) =
     (case exprStoredRoot o1 sc n of exprStoredRow \<Rightarrow> 0 < hops | exprStoredElement \<Rightarrow> True | exprNotStored \<Rightarrow> False)"
| "storedRead o1 sc hops _ = False"

definition exprStoredRead :: "evalOptions \<Rightarrow> scope \<Rightarrow> expr \<Rightarrow> bool" where
  "exprStoredRead o1 sc e = storedRead o1 sc 0 e"

fun exprStoredMismatch :: "xval \<Rightarrow> bool" where
  "exprStoredMismatch (VList _) \<longleftrightarrow> False"
| "exprStoredMismatch v \<longleftrightarrow> \<not> IsAbsent v"

definition exprStoredListAnswer :: "string \<Rightarrow> xval option" where
  "exprStoredListAnswer name =
     (if name = ''any'' \<or> name = ''all'' then Some (VBool False)
      else if name = ''count'' then Some (VInt 0) else None)"

section \<open>Operators over evaluated operands\<close>

definition ident :: "evalOptions \<Rightarrow> scope \<Rightarrow> string \<Rightarrow> xval comp" where
  "ident o1 sc name =
     (case lookup o1 sc name of
        Some v \<Rightarrow> ret v
      | None \<Rightarrow> if name = ''now'' then ret (VString (eo_Now o1)) else refuse ''unknown_name'')"

definition binaryValues :: "golib \<Rightarrow> bool \<Rightarrow> string \<Rightarrow> xval \<Rightarrow> xval \<Rightarrow> xval res" where
  "binaryValues lib rightStored opr l r =
     (if opr = ''=='' then Inr (VBool (exprEqual l r))
      else if opr = ''!='' then Inr (VBool (\<not> exprEqual l r))
      else if opr \<in> {''<'', ''<='', ''>'', ''>=''} then Inr (VBool (exprOrdered opr l r))
      else if opr = ''in'' then
        (if exprStoredMismatch r \<and> rightStored then Inr (VBool False) else map_sum id VBool (exprIn l r))
      else if opr = ''startsWith'' then map_sum id VBool (exprStartsWith l r)
      else if opr = ''+'' then exprPlus lib l r
      else if opr \<in> {''-'', ''*'', ''/'', ''%''} then numericBinary opr l r
      else Inl (ExprError ''unsupported_node''))"

definition coalesceBlank :: "xval \<Rightarrow> bool" where
  "coalesceBlank v \<longleftrightarrow> IsAbsent v \<or> (case v of VString s \<Rightarrow> TrimSpace s = '''' | _ \<Rightarrow> False)"

fun coalesceSelect :: "xval comp list \<Rightarrow> xval comp" where
  "coalesceSelect [] = ret VNil"
| "coalesceSelect [a] = andThen a (\<lambda>v. ret (exprUnsentinel v))"
| "coalesceSelect (a # b # r) =
     andThen a (\<lambda>v. if coalesceBlank v then coalesceSelect (b # r) else ret v)"

definition binary ::
  "evalOptions \<Rightarrow> bool \<Rightarrow> string \<Rightarrow> xval comp \<Rightarrow> xval comp \<Rightarrow> bool comp \<Rightarrow> bool comp \<Rightarrow> xval comp" where
  "binary o1 rightStored opr el er cl cr =
     (if opr = ''&&'' \<or> opr = ''||'' then
        andThen cl (\<lambda>lb. if (opr = ''&&'' \<and> \<not> lb) \<or> (opr = ''||'' \<and> lb) then ret (VBool lb)
                         else andThen cr (\<lambda>rb. ret (VBool rb)))
      else if opr = ''??'' then coalesceSelect [el, er]
      else andThen el (\<lambda>l. andThen er (\<lambda>r. lift (binaryValues (eo_lib o1) rightStored opr l r))))"

definition unary :: "string \<Rightarrow> xval comp \<Rightarrow> bool comp \<Rightarrow> xval comp" where
  "unary opr ev cond =
     (if opr = ''!'' then andThen cond (\<lambda>b. ret (VBool (\<not> b)))
      else andThen ev (\<lambda>v. if opr = ''-'' then lift (negate v) else refuse ''unsupported_node''))"

definition condition :: "bool \<Rightarrow> xval \<Rightarrow> bool comp" where
  "condition stored v =
     (case v of
        VBool b \<Rightarrow> ret b
      | VNil \<Rightarrow> ret False
      | VAbsent \<Rightarrow> ret False
      | _ \<Rightarrow> if stored then ret False else refuse ''condition_not_boolean'')"

text \<open>List and object literals under the container rule, and the arguments of a call.\<close>

fun listLiteral :: "xval comp list \<Rightarrow> xval list comp" where
  "listLiteral [] = ret []"
| "listLiteral (c # cs) =
     andThen c (\<lambda>v. andThen (listLiteral cs) (\<lambda>vs. ret (if v = VAbsent then vs else v # vs)))"

fun mapEntries :: "xmap \<Rightarrow> (string \<times> xval comp) list \<Rightarrow> xmap comp" where
  "mapEntries acc [] = ret acc"
| "mapEntries acc ((k, c) # r) =
     andThen c (\<lambda>v. mapEntries (if v = VAbsent then acc else mapPut k v acc) r)"

fun evalArgs :: "xval comp list \<Rightarrow> xval list comp" where
  "evalArgs [] = ret []"
| "evalArgs (c # cs) = andThen c (\<lambda>v. andThen (evalArgs cs) (\<lambda>vs. ret (v # vs)))"

section \<open>Functions of the catalog\<close>

definition exprIsLambda :: "expr \<Rightarrow> bool" where
  "exprIsLambda e \<longleftrightarrow> (case Unparen e of LambdaE _ _ \<Rightarrow> True | _ \<Rightarrow> False)"

definition exprLambdaParams :: "string \<Rightarrow> nat" where
  "exprLambdaParams key = (if key = ''list.reduce'' then 2 else 1)"

definition argFits :: "catalogFn \<Rightarrow> string \<times> bool \<Rightarrow> expr \<Rightarrow> bool" where
  "argFits fn p a \<longleftrightarrow>
     (case Unparen a of
        LambdaE ps _ \<Rightarrow> fst p = ''lambda'' \<and> length ps = exprLambdaParams (Key fn)
      | _ \<Rightarrow> fst p \<noteq> ''lambda'')"

definition exprCheckShape :: "catalogFn \<Rightarrow> expr list \<Rightarrow> (string \<times> expr) list \<Rightarrow> bool" where
  "exprCheckShape fn args named \<longleftrightarrow>
     named = [] \<and> length (filter (\<lambda>p. \<not> snd p) (cf_Params fn)) \<le> length args \<and>
     length args \<le> length (cf_Params fn) \<and>
     list_all (\<lambda>(p, a). argFits fn p a) (zip (cf_Params fn) args)"

definition upper_char :: "char \<Rightarrow> char" where
  "upper_char c = (let n = of_char c :: nat in if 97 \<le> n \<and> n \<le> 122 then char_of (n - 32) else c)"

definition canonicalID :: "evalOptions \<Rightarrow> xval \<Rightarrow> xval \<Rightarrow> xval comp" where
  "canonicalID o1 value concept =
     (case concept of
        VString c \<Rightarrow>
          if TrimSpace c = '''' then refuse ''invalid_argument''
          else let text = TrimSpace (exprText (eo_lib o1) value)
               in if text = '''' then ret (VString '''')
                  else (case eo_CanonicalID o1 of
                          None \<Rightarrow> ret (VString text)
                        | Some h \<Rightarrow> andThen (askHook (\<lambda>s. h s text (TrimSpace c))) (\<lambda>t. ret (VString t)))
      | _ \<Rightarrow> refuse ''invalid_argument'')"

definition variable :: "evalOptions \<Rightarrow> string \<Rightarrow> xval \<Rightarrow> xval comp" where
  "variable o1 fn arg =
     (case arg of
        VString name \<Rightarrow>
          if TrimSpace name = '''' then refuse ''invalid_argument''
          else (case eo_Vars o1 of
                  None \<Rightarrow> refuse ''var_not_available''
                | Some h \<Rightarrow> andThen (askHook (\<lambda>s. h s fn (TrimSpace name))) (\<lambda>t. ret (VString t)))
      | _ \<Rightarrow> refuse ''invalid_argument'')"

definition exprStringArg :: "xval \<Rightarrow> string res" where
  "exprStringArg v = (case v of VString s \<Rightarrow> Inr s | _ \<Rightarrow> Inl (ExprError ''invalid_argument''))"

definition exprAddDuration :: "golib \<Rightarrow> xval \<Rightarrow> xval \<Rightarrow> xval comp" where
  "exprAddDuration lib a b =
     andThen (lift (exprStringArg a)) (\<lambda>ts. andThen (lift (exprStringArg b)) (\<lambda>dur.
       case parseDate lib ts of
         None \<Rightarrow> refuse ''invalid_argument''
       | Some t \<Rightarrow> (case parseISO8601Duration dur of
                     None \<Rightarrow> refuse ''invalid_argument''
                   | Some d \<Rightarrow> ret (VString (gl_RFC3339Nano lib (t + d))))))"

definition exprDaysBetween :: "golib \<Rightarrow> xval \<Rightarrow> xval \<Rightarrow> xval comp" where
  "exprDaysBetween lib a b =
     andThen (lift (exprStringArg a)) (\<lambda>from. andThen (lift (exprStringArg b)) (\<lambda>till.
       case EvaluateDaysBetween lib from till of
         None \<Rightarrow> refuse ''invalid_argument''
       | Some n \<Rightarrow> ret (VInt n)))"

definition functionImpl :: "evalOptions \<Rightarrow> string \<Rightarrow> xval list \<Rightarrow> xval comp" where
  "functionImpl o1 name args =
     (case args of
        [a] \<Rightarrow>
          let text = exprText (eo_lib o1) a
          in if name = ''lower'' then ret (VString (ToLower text))
             else if name = ''upper'' then ret (VString (map upper_char text))
             else if name = ''trim'' then ret (VString (TrimSpace text))
             else if name = ''hash'' then ret (VString (gl_Sha256Hex (eo_lib o1) text))
             else if name = ''shortId'' then ret (VString (EvaluateShortId text))
             else if name = ''toString'' then ret (VString text)
             else if name = ''error'' then fail (Raised text)
             else if name \<in> {''var'', ''systemVar'', ''secret'', ''systemSecret''} then variable o1 name a
             else fail Panic
      | [a, b] \<Rightarrow>
          if name = ''canonicalId'' then canonicalID o1 a b
          else if name = ''addDuration'' then exprAddDuration (eo_lib o1) a b
          else if name = ''daysBetween'' then exprDaysBetween (eo_lib o1) a b
          else fail Panic
      | _ \<Rightarrow> fail Panic)"

definition exprFunctionImpls :: "string list" where
  "exprFunctionImpls = map cf_Name functionEntries"

text \<open>
  \<^verbatim>\<open>function\<close> and \<^verbatim>\<open>applyPredicate\<close>: the evaluations of the arguments are handed in, and
  \<open>applyBody\<close> evaluates a predicate's body with its parameter bound.
\<close>

definition applyPredicate ::
  "evalOptions \<Rightarrow> scope \<Rightarrow> expr list \<Rightarrow> (string \<times> expr) list \<Rightarrow> xval comp list \<Rightarrow>
   (xval \<Rightarrow> bool \<Rightarrow> bool comp) \<Rightarrow> xval comp" where
  "applyPredicate o1 sc args named argc applyBody =
     (case (args, argc) of
        ([a], [c]) \<Rightarrow>
          if named \<noteq> [] then refuse ''argument_count''
          else if exprIsLambda a then refuse ''argument_count''
          else andThen c (\<lambda>v. andThen (applyBody v (exprStoredRead o1 sc a)) (\<lambda>b. ret (VBool b)))
      | _ \<Rightarrow> refuse ''argument_count'')"

definition catalogFunction :: "string \<Rightarrow> catalogFn option" where
  "catalogFunction name =
     (case exprCatalog name of Some fn \<Rightarrow> if cf_Receiver fn = '''' then Some fn else None | None \<Rightarrow> None)"

definition callFunction ::
  "evalOptions \<Rightarrow> scope \<Rightarrow> string \<Rightarrow> expr list \<Rightarrow> (string \<times> expr) list \<Rightarrow> xval comp list \<Rightarrow>
   (string \<Rightarrow> expr \<Rightarrow> xval \<Rightarrow> bool \<Rightarrow> bool comp) \<Rightarrow> xval comp" where
  "callFunction o1 sc name args named argc applyBody =
     (case catalogFunction name of
        Some fn \<Rightarrow>
          if name \<notin> set exprFunctionImpls then refuse ''unknown_function''
          else if \<not> exprCheckShape fn args named then refuse ''argument_count''
          else andThen (evalArgs argc) (functionImpl o1 name)
      | None \<Rightarrow>
          (case (case eo_Predicates o1 of None \<Rightarrow> None | Some h \<Rightarrow> h name) of
             Some (param, body) \<Rightarrow> applyPredicate o1 sc args named argc (applyBody param body)
           | None \<Rightarrow> refuse ''unknown_function''))"

definition constructCall ::
  "evalOptions \<Rightarrow> string \<Rightarrow> string \<Rightarrow> expr list \<Rightarrow> (string \<times> xval comp) list \<Rightarrow> xval comp" where
  "constructCall o1 kind name args namedc =
     (case eo_Calls o1 of
        None \<Rightarrow> refuse ''construct_call_not_allowed''
      | Some h \<Rightarrow>
          if args \<noteq> [] then refuse ''argument_count''
          else andThen (mapEntries [] namedc) (\<lambda>m. askHook (\<lambda>s. h s kind name m)))"

section \<open>Methods\<close>

text \<open>
  A lambda argument as its parameters and the evaluations of its body, as a value and as a
  condition, under bindings of the parameters.
\<close>

type_synonym lam = "string list \<times> (binds \<Rightarrow> xval comp) \<times> (binds \<Rightarrow> bool comp)"

fun listAny :: "(xval \<Rightarrow> bool comp) \<Rightarrow> xval list \<Rightarrow> bool comp" where
  "listAny t [] = ret False"
| "listAny t (el # els) = andThen (t el) (\<lambda>ok. if ok then ret True else listAny t els)"

fun listAll :: "(xval \<Rightarrow> bool comp) \<Rightarrow> xval list \<Rightarrow> bool comp" where
  "listAll t [] = ret True"
| "listAll t (el # els) = andThen (t el) (\<lambda>ok. if ok then listAll t els else ret False)"

fun listWhere :: "(xval \<Rightarrow> bool comp) \<Rightarrow> xval list \<Rightarrow> xval list comp" where
  "listWhere t [] = ret []"
| "listWhere t (el # els) =
     andThen (t el) (\<lambda>ok. andThen (listWhere t els) (\<lambda>vs. ret (if ok then el # vs else vs)))"

text \<open>Each element's projection or key, the sentinel turned into nil.\<close>

fun listSelect :: "(xval \<Rightarrow> xval comp) \<Rightarrow> xval list \<Rightarrow> xval list comp" where
  "listSelect f [] = ret []"
| "listSelect f (el # els) =
     andThen (f el) (\<lambda>v. andThen (listSelect f els) (\<lambda>vs. ret (exprUnsentinel v # vs)))"

fun aggregateLoop ::
  "string \<Rightarrow> (xval \<Rightarrow> xval comp) \<Rightarrow> float64 \<Rightarrow> float64 option \<Rightarrow> xval list \<Rightarrow> (float64 \<times> float64 option) comp" where
  "aggregateLoop meth f acc best [] = ret (acc, best)"
| "aggregateLoop meth f acc best (el # els) =
     andThen (f el) (\<lambda>v. case runtimeToFloat64 v of
        None \<Rightarrow> refuse ''operand_type''
      | Some x \<Rightarrow>
          aggregateLoop meth f (fadd acc x)
            (if meth = ''min'' then (case best of None \<Rightarrow> Some x | Some b \<Rightarrow> if fless x b then Some x else best)
             else if meth = ''max'' then (case best of None \<Rightarrow> Some x | Some b \<Rightarrow> if fless b x then Some x else best)
             else best) els)"

definition listAggregate :: "string \<Rightarrow> (xval \<Rightarrow> xval comp) \<Rightarrow> xval list \<Rightarrow> xval comp" where
  "listAggregate meth f coll =
     (if coll = [] then ret (if meth = ''sum'' then VFloat (Fin 0) else VNil)
      else andThen (aggregateLoop meth f (Fin 0) None coll) (\<lambda>(acc, best).
        let v = (if meth = ''sum'' then acc
                 else if meth = ''avg'' then fdiv acc (float_of_int (int (length coll)))
                 else case best of Some b \<Rightarrow> b | None \<Rightarrow> Fin 0)
        in if is_fin v then ret (VFloat v) else refuse ''arithmetic_overflow''))"

fun addToGroup :: "string \<Rightarrow> xval \<Rightarrow> xval \<Rightarrow> (string \<times> xval \<times> xval list) list \<Rightarrow> (string \<times> xval \<times> xval list) list" where
  "addToGroup ks k el [] = [(ks, k, [el])]"
| "addToGroup ks k el ((a, b, els) # g) =
     (if a = ks then (a, b, els @ [el]) # g else (a, b, els) # addToGroup ks k el g)"

definition groupByKeys :: "golib \<Rightarrow> (xval \<times> xval) list \<Rightarrow> xval list" where
  "groupByKeys lib items =
     map (\<lambda>(_, k, els). VMap [(''key'', k), (''items'', VList els)])
       (foldl (\<lambda>g (k, el). addToGroup (exprKey lib k) k el g) [] items)"

fun distinctByKeys :: "string set \<Rightarrow> (string \<times> xval) list \<Rightarrow> xval list" where
  "distinctByKeys seen [] = []"
| "distinctByKeys seen ((ks, el) # r) =
     (if ks \<in> seen then distinctByKeys seen r else el # distinctByKeys (insert ks seen) r)"

definition exprClampCount :: "exprNumber \<Rightarrow> nat \<Rightarrow> nat" where
  "exprClampCount c n =
     (let i = (case c of NInt i \<Rightarrow> i | NFloat f \<Rightarrow> ClampFloat64ToInt64 f)
      in if i < 0 then 0 else if int n < i then n else nat i)"

definition listTakeSkip :: "string \<Rightarrow> xval comp \<Rightarrow> xval list \<Rightarrow> xval comp" where
  "listTakeSkip meth count coll =
     andThen count (\<lambda>v. case exprNumberOf v of
        None \<Rightarrow> refuse ''invalid_argument''
      | Some n \<Rightarrow> let k = exprClampCount n (length coll)
                  in ret (VList (if meth = ''take'' then take k coll else drop k coll)))"

fun reduceLoop :: "(xval \<Rightarrow> xval \<Rightarrow> xval comp) \<Rightarrow> xval \<Rightarrow> xval list \<Rightarrow> xval comp" where
  "reduceLoop f acc [] = ret acc"
| "reduceLoop f acc (el # els) = andThen (f acc el) (\<lambda>acc'. reduceLoop f acc' els)"

definition stringIncludes :: "xval \<Rightarrow> xval comp \<Rightarrow> xval comp" where
  "stringIncludes recv sub =
     (case recv of
        VList _ \<Rightarrow> refuse ''operand_type''
      | _ \<Rightarrow> andThen sub (\<lambda>needle. case needle of
                VNil \<Rightarrow> ret (VBool False)
              | VAbsent \<Rightarrow> ret (VBool False)
              | VString n \<Rightarrow>
                  if TrimSpace n = '''' then ret (VBool False)
                  else (case recv of VString s \<Rightarrow> ret (VBool (Contains s n)) | _ \<Rightarrow> ret (VBool False))
              | _ \<Rightarrow> refuse ''invalid_argument''))"

text \<open>
  Argument \<open>i\<close> of a call as the lambda \<^verbatim>\<open>bind\<close> and \<^verbatim>\<open>listReduce\<close> read it: not a lambda,
  or one of too few parameters, is a panic.
\<close>

definition withLambda :: "lam option list \<Rightarrow> nat \<Rightarrow> nat \<Rightarrow> (lam \<Rightarrow> 'a comp) \<Rightarrow> 'a comp" where
  "withLambda lams i arity k =
     (if length lams \<le> i then fail Panic
      else case lams ! i of
             None \<Rightarrow> fail Panic
           | Some l \<Rightarrow> if length (fst l) < arity then fail Panic else k l)"

definition withArg :: "xval comp list \<Rightarrow> nat \<Rightarrow> (xval comp \<Rightarrow> 'a comp) \<Rightarrow> 'a comp" where
  "withArg argc i k = (if length argc \<le> i then fail Panic else k (argc ! i))"

fun lamApply :: "bool \<Rightarrow> lam \<Rightarrow> xval \<Rightarrow> xval comp" where
  "lamApply stored (ps, ap, ts) el = ap [(hd ps, el, stored)]"

fun lamTest :: "bool \<Rightarrow> lam \<Rightarrow> xval \<Rightarrow> bool comp" where
  "lamTest stored (ps, ap, ts) el = ts [(hd ps, el, stored)]"

fun lamFold :: "lam \<Rightarrow> xval \<Rightarrow> xval \<Rightarrow> xval comp" where
  "lamFold (ps, ap, ts) acc el = ap [(ps ! 0, acc, False), (ps ! 1, el, False)]"

text \<open>The list methods, with whether the receiver was read from a stored row.\<close>

definition listMethod ::
  "golib \<Rightarrow> string \<Rightarrow> bool \<Rightarrow> xval comp list \<Rightarrow> lam option list \<Rightarrow> xval list \<Rightarrow> xval comp" where
  "listMethod lib name stored argc lams coll =
     (let lambda1 = withLambda lams 0 1
      in if name = ''count'' then ret (VInt (wrap64 (int (length coll))))
         else if name = ''any'' then lambda1 (\<lambda>l. andThen (listAny (lamTest stored l) coll) (\<lambda>b. ret (VBool b)))
         else if name = ''all'' then lambda1 (\<lambda>l. andThen (listAll (lamTest stored l) coll) (\<lambda>b. ret (VBool b)))
         else if name = ''where'' then lambda1 (\<lambda>l. andThen (listWhere (lamTest stored l) coll) (\<lambda>vs. ret (VList vs)))
         else if name = ''select'' then lambda1 (\<lambda>l. andThen (listSelect (lamApply stored l) coll) (\<lambda>vs. ret (VList vs)))
         else if name = ''first'' then ret (if coll = [] then VNil else hd coll)
         else if name = ''last'' then ret (if coll = [] then VNil else last coll)
         else if name = ''single'' then (case coll of [v] \<Rightarrow> ret v | _ \<Rightarrow> refuse ''single_requires_one'')
         else if name = ''empty'' then ret (VBool (coll = []))
         else if name \<in> {''sum'', ''min'', ''max'', ''avg''} then lambda1 (\<lambda>l. listAggregate name (lamApply stored l) coll)
         else if name = ''orderBy'' \<or> name = ''orderByDesc'' then
           lambda1 (\<lambda>l. andThen (listSelect (lamApply stored l) coll)
             (\<lambda>ks. ret (VList (orderByKeys lib (name = ''orderByDesc'') (zip ks coll)))))
         else if name = ''groupBy'' then
           lambda1 (\<lambda>l. andThen (listSelect (lamApply stored l) coll) (\<lambda>ks. ret (VList (groupByKeys lib (zip ks coll)))))
         else if name = ''distinct'' then
           (if length argc = 1
            then lambda1 (\<lambda>l. andThen (listSelect (lamApply stored l) coll)
                   (\<lambda>ks. ret (VList (distinctByKeys {} (zip (map (exprKey lib) ks) coll)))))
            else ret (VList (distinctByKeys {} (zip (map (exprKey lib) coll) coll))))
         else if name = ''take'' \<or> name = ''skip'' then withArg argc 0 (\<lambda>c. listTakeSkip name c coll)
         else if name = ''reduce'' then
           withArg argc 0 (\<lambda>c. andThen c (\<lambda>acc. withLambda lams 1 2 (\<lambda>l. reduceLoop (lamFold l) acc coll)))
         else if name = ''nodes'' then ret (VList coll)
         else refuse ''unknown_method'')"

definition absentReceiverMethod :: "string \<Rightarrow> xval comp list \<Rightarrow> xval comp" where
  "absentReceiverMethod name argc =
     (if name = ''count'' then ret (VInt 0)
      else if name = ''any'' then ret (VBool False)
      else if name = ''all'' \<or> name = ''empty'' then ret (VBool True)
      else if name = ''first'' \<or> name = ''last'' then ret VAbsent
      else if name = ''sum'' then ret (VFloat (Fin 0))
      else if name \<in> {''min'', ''max'', ''avg''} then ret VNil
      else if name = ''single'' then refuse ''single_requires_one''
      else if name = ''reduce'' then withArg argc 0 (\<lambda>c. c)
      else ret (VList []))"

text \<open>A receiver as a collection: None for no collection at all, the outer None for the error.\<close>

fun exprCollection :: "xval \<Rightarrow> xval list option option" where
  "exprCollection VNil = Some None"
| "exprCollection VAbsent = Some None"
| "exprCollection (VList xs) = Some (Some xs)"
| "exprCollection (VMap m) =
     (case map_of m ''nodes'' of
        None \<Rightarrow> Some (Some [VMap m])
      | Some nodes \<Rightarrow> (case exprCollection nodes of
                    None \<Rightarrow> None
                  | Some None \<Rightarrow> Some (Some [])
                  | Some (Some xs) \<Rightarrow> Some (Some xs)))"
| "exprCollection (VRow i c t by ca prov payload) = Some (Some [VRow i c t by ca prov payload])"
| "exprCollection _ = None"

text \<open>
  \<^verbatim>\<open>method\<close>: the shape against the catalog before the receiver is evaluated, then the entry
  the receiver's type selects.
\<close>

definition methodOn ::
  "evalOptions \<Rightarrow> string \<Rightarrow> bool \<Rightarrow> expr list \<Rightarrow> (string \<times> expr) list \<Rightarrow> xval comp list \<Rightarrow> lam option list \<Rightarrow>
   catalogFn option \<Rightarrow> catalogFn option \<Rightarrow> xval \<Rightarrow> xval comp" where
  "methodOn o1 name stored args named argc lams listFn strFn recv =
     (case listFn of
        None \<Rightarrow> if name = ''includes'' then withArg argc 0 (stringIncludes recv) else refuse ''unknown_method''
      | Some lf \<Rightarrow>
          if exprStoredMismatch recv \<and> \<not> (isString recv \<and> strFn \<noteq> None) \<and> stored \<and>
             exprStoredListAnswer name \<noteq> None
          then ret (the (exprStoredListAnswer name))
          else (case recv of
             VString s \<Rightarrow>
               (case strFn of
                  None \<Rightarrow> refuse ''operand_type''
                | Some sf \<Rightarrow>
                    if \<not> exprCheckShape sf args named then refuse ''argument_count''
                    else if name = ''count'' then ret (VInt (wrap64 (int (length s))))
                    else refuse ''unknown_method'')
           | _ \<Rightarrow>
               if \<not> exprCheckShape lf args named then refuse ''argument_count''
               else (case exprCollection recv of
                  None \<Rightarrow> refuse ''operand_type''
                | Some None \<Rightarrow> absentReceiverMethod name argc
                | Some (Some coll) \<Rightarrow> listMethod (eo_lib o1) name stored argc lams coll)))"

definition callMethod ::
  "evalOptions \<Rightarrow> scope \<Rightarrow> string \<Rightarrow> expr \<Rightarrow> expr list \<Rightarrow> (string \<times> expr) list \<Rightarrow>
   xval comp \<Rightarrow> xval comp list \<Rightarrow> lam option list \<Rightarrow> xval comp" where
  "callMethod o1 sc name receiver args named rc argc lams =
     (let listFn = exprMethodEntry ''list'' name; strFn = exprMethodEntry ''string'' name
      in if listFn = None \<and> strFn = None then refuse ''unknown_method''
         else let fits = (\<lambda>fn. case fn of None \<Rightarrow> False | Some f \<Rightarrow> exprCheckShape f args named)
              in if \<not> fits listFn \<and> \<not> fits strFn then refuse ''argument_count''
                 else andThen rc (methodOn o1 name (exprStoredRead o1 sc receiver) args named argc lams listFn strFn))"

section \<open>The evaluator\<close>

lemma Unparen_size: "Unparen a = LambdaE ps b \<Longrightarrow> size b < size a"
  by (induction a rule: Unparen.induct) auto

lemma size_arg: "(a :: expr) \<in> set as \<Longrightarrow> size a \<le> size_list size as"
  by (induction as) auto

lemma size_entry: "p \<in> set es \<Longrightarrow> size (snd p) < Suc (size_list (size_prod (\<lambda>_. 0) size) es)"
  by (induction es) (auto simp: less_Suc_eq_le le_add1 trans_le_add2)

function (sequential) eval :: "evalOptions \<Rightarrow> nat \<Rightarrow> scope \<Rightarrow> expr \<Rightarrow> xval comp"
  and evalCondition :: "evalOptions \<Rightarrow> nat \<Rightarrow> scope \<Rightarrow> expr \<Rightarrow> bool comp" where
  "eval o1 d sc (IdentE n) = andThen (tick o1) (\<lambda>_. ident o1 sc n)"
| "eval o1 d sc (MemberE ob f) =
     andThen (tick o1) (\<lambda>_. andThen (eval o1 d sc ob) (\<lambda>v. ret (exprMember (eo_lib o1) v f)))"
| "eval o1 d sc (CallE kind name rcv args named) =
     andThen (tick o1) (\<lambda>_.
       let argc = map (\<lambda>a. eval o1 d sc a) args
       in if kind \<noteq> '''' then constructCall o1 kind name args (map (\<lambda>p. (fst p, eval o1 d sc (snd p))) named)
          else case rcv of
            Some r \<Rightarrow>
              callMethod o1 sc name r args named (eval o1 d sc r) argc
                (map (\<lambda>a. case Unparen a of
                            LambdaE ps b \<Rightarrow> Some (ps, \<lambda>bs. eval o1 d (LambdaScope bs sc) b,
                                                     \<lambda>bs. evalCondition o1 d (LambdaScope bs sc) b)
                          | _ \<Rightarrow> None) args)
          | None \<Rightarrow>
              callFunction o1 sc name args named argc
                (\<lambda>param body v stored.
                   if exprMaxPredicateDepth \<le> d then refuse ''predicate_depth_exceeded''
                   else evalCondition o1 (Suc d) (LambdaScope [(param, v, stored)] RootScope) body))"
| "eval o1 d sc (UnaryE opr e) =
     andThen (tick o1) (\<lambda>_. unary opr (eval o1 d sc e) (evalCondition o1 d sc e))"
| "eval o1 d sc (BinaryE opr l r) =
     andThen (tick o1) (\<lambda>_. binary o1 (exprStoredRead o1 sc r) opr
       (eval o1 d sc l) (eval o1 d sc r) (evalCondition o1 d sc l) (evalCondition o1 d sc r))"
| "eval o1 d sc (TernaryE c t e) =
     andThen (tick o1) (\<lambda>_. andThen (evalCondition o1 d sc c)
       (\<lambda>ok. if ok then eval o1 d sc t else eval o1 d sc e))"
| "eval o1 d sc (ListE es) =
     andThen (tick o1) (\<lambda>_. andThen (listLiteral (map (\<lambda>e. eval o1 d sc e) es)) (\<lambda>vs. ret (VList vs)))"
| "eval o1 d sc (MapE es) =
     andThen (tick o1) (\<lambda>_. andThen (mapEntries [] (map (\<lambda>p. (fst p, eval o1 d sc (snd p))) es))
       (\<lambda>m. ret (VMap m)))"
| "eval o1 d sc (ParenE e) = andThen (tick o1) (\<lambda>_. eval o1 d sc e)"
| "eval o1 d sc (LiteralE v) = andThen (tick o1) (\<lambda>_. ret v)"
| "eval o1 d sc NilE = andThen (tick o1) (\<lambda>_. ret VNil)"
| "eval o1 d sc (LambdaE ps b) = andThen (tick o1) (\<lambda>_. refuse ''lambda_not_callable'')"
| "evalCondition o1 d sc (ParenE e) = andThen (tick o1) (\<lambda>_. evalCondition o1 d sc e)"
| "evalCondition o1 d sc (TernaryE c t e) =
     andThen (tick o1) (\<lambda>_. andThen (evalCondition o1 d sc c)
       (\<lambda>ok. if ok then evalCondition o1 d sc t else evalCondition o1 d sc e))"
| "evalCondition o1 d sc e =
     andThen (eval o1 d sc e) (condition (exprStoredRead o1 sc e))"
  by pat_completeness auto

termination
  by (relation "measures [\<lambda>x. exprMaxPredicateDepth - (case x of Inl (_, d, _, _) \<Rightarrow> d | Inr (_, d, _, _) \<Rightarrow> d),
                          \<lambda>x. case x of Inl (_, _, _, e) \<Rightarrow> size e | Inr (_, _, _, e) \<Rightarrow> size e,
                          \<lambda>x. case x of Inl _ \<Rightarrow> 0 | Inr _ \<Rightarrow> 1]")
     (auto simp: less_Suc_eq_le dest!: Unparen_size size_entry size_arg)

definition EvalExpr :: "evalOptions \<Rightarrow> expr \<Rightarrow> xval res" where
  "EvalExpr o1 e = fst (eval o1 0 RootScope e 0)"

definition EvalCondition :: "evalOptions \<Rightarrow> expr \<Rightarrow> bool res" where
  "EvalCondition o1 e = fst (evalCondition o1 0 RootScope e 0)"

section \<open>Cost\<close>

text \<open>
  \<^verbatim>\<open>EstimateCost\<close> (expr_cost.go): one per node, a method's lambda body once per element of a
  collection of assumed size, saturating.
\<close>

definition DefaultCollectionSizeEstimate :: nat where
  "DefaultCollectionSizeEstimate = 1000"

definition maxInt32 :: nat where
  "maxInt32 = 2147483647"

definition exprCostAdd :: "nat \<Rightarrow> nat \<Rightarrow> nat" where
  "exprCostAdd a b = (if int maxInt32 - int b < int a then maxInt32 else a + b)"

definition exprCostMul :: "nat \<Rightarrow> nat \<Rightarrow> nat" where
  "exprCostMul a b = (if a = 0 \<or> b = 0 then 0 else if maxInt32 div b < a then maxInt32 else a * b)"

function (sequential) exprCost :: "expr \<Rightarrow> nat" where
  "exprCost (MemberE e f) = exprCostAdd 1 (exprCost e)"
| "exprCost (UnaryE opr e) = exprCostAdd 1 (exprCost e)"
| "exprCost (BinaryE opr l r) = exprCostAdd 1 (exprCostAdd (exprCost l) (exprCost r))"
| "exprCost (TernaryE c t e) = exprCostAdd 1 (exprCostAdd (exprCost c) (exprCostAdd (exprCost t) (exprCost e)))"
| "exprCost (ParenE e) = exprCostAdd 1 (exprCost e)"
| "exprCost (ListE es) = foldl (\<lambda>c e. exprCostAdd c (exprCost e)) 1 es"
| "exprCost (MapE es) = foldl (\<lambda>c p. exprCostAdd c (exprCost (snd p))) 1 es"
| "exprCost (LambdaE ps b) = exprCostAdd 1 (exprCost b)"
| "exprCost (CallE kind name rcv args named) =
     (let c0 = (case rcv of None \<Rightarrow> 1 | Some r \<Rightarrow> exprCostAdd 1 (exprCost r));
          c1 = foldl (\<lambda>c a. case Unparen a of
                              LambdaE ps b \<Rightarrow>
                                if rcv \<noteq> None
                                then exprCostAdd c (exprCostMul DefaultCollectionSizeEstimate (exprCost b))
                                else exprCostAdd c (exprCost a)
                            | _ \<Rightarrow> exprCostAdd c (exprCost a)) c0 args
      in foldl (\<lambda>c p. exprCostAdd c (exprCost (snd p))) c1 named)"
| "exprCost _ = 1"
  by pat_completeness auto

termination
  by (relation "measure size") (auto simp: less_Suc_eq_le dest!: Unparen_size size_entry size_arg)

end
