(* ===== verification/ExprLogic.thy ===== *)
theory ExprLogic
  imports ExprEval "HOL-Library.Extended_Nat" "HOL-Library.Multiset"
begin

text \<open>
  A program logic for evaluations, and the one induction over the evaluator. \<open>sat P c Q m\<close> says
  that \<open>m\<close>, started anywhere, moves the step counter as the relation \<open>P\<close> allows, by at most \<open>c\<close>,
  and that a value it answers satisfies \<open>Q\<close>. Two interfaces give the rules: \<open>step_law\<close>, what
  a relation on the counter must satisfy to be carried through, and \<open>value_law\<close>, what a predicate
  on values must satisfy to be kept by every operator.
\<close>

section \<open>The logic\<close>

definition err_of :: "'a res \<Rightarrow> xerr option" where
  "err_of r = (case r of Inl e \<Rightarrow> Some e | Inr _ \<Rightarrow> None)"

lemma err_of_simps [simp]: "err_of (Inl e) = Some e" "err_of (Inr v) = None"
  by (simp_all add: err_of_def)

definition sat ::
  "(nat \<Rightarrow> xerr option \<Rightarrow> nat \<Rightarrow> bool) \<Rightarrow> enat \<Rightarrow> ('a \<Rightarrow> bool) \<Rightarrow> 'a comp \<Rightarrow> bool" where
  "sat P c Q m \<longleftrightarrow>
     (\<forall>s. P s (err_of (fst (m s))) (snd (m s)) \<and> enat (snd (m s)) \<le> enat s + c \<and> (\<forall>v. fst (m s) = Inr v \<longrightarrow> Q v))"

lemma sat_weaken:
  assumes "sat P c Q m" "c \<le> c'" "\<And>v. Q v \<Longrightarrow> R v"
  shows "sat P c' R m"
  using assms unfolding sat_def by (meson add_left_mono order_trans)

locale step_law =
  fixes P :: "nat \<Rightarrow> xerr option \<Rightarrow> nat \<Rightarrow> bool"
  assumes P_refl: "P s None s"
    and P_fail: "e \<noteq> Panic \<Longrightarrow> e \<noteq> BudgetExceeded \<Longrightarrow> P s (Some e) s"
    and P_trans: "P s None t \<Longrightarrow> P t r u \<Longrightarrow> P s r u"
begin

lemma sat_ret: "Q x \<Longrightarrow> sat P c Q (ret x)"
  by (simp add: sat_def ret_def P_refl)

lemma sat_fail: "e \<noteq> Panic \<Longrightarrow> e \<noteq> BudgetExceeded \<Longrightarrow> sat P c Q (fail e)"
  by (simp add: sat_def fail_def P_fail)

lemma sat_refuse: "sat P c Q (refuse code)"
  by (simp add: refuse_def sat_fail)

lemma sat_lift:
  assumes "\<And>v. r = Inr v \<Longrightarrow> Q v" "r \<notin> {Inl Panic, Inl BudgetExceeded}"
  shows "sat P c Q (lift r)"
  using assms by (cases r) (auto simp: sat_def lift_def P_refl P_fail)

lemma sat_askHook: "(\<And>s v. h s = Inr v \<Longrightarrow> Q v) \<Longrightarrow> sat P c Q (askHook h)"
proof -
  assume h: "\<And>s v. h s = Inr v \<Longrightarrow> Q v"
  have "P s (err_of (map_sum HookError id (h s))) s \<and> (\<forall>v. map_sum HookError id (h s) = Inr v \<longrightarrow> Q v)" for s
    using h [of s] by (cases "h s") (auto simp: P_refl P_fail)
  then show ?thesis by (simp add: sat_def askHook_def)
qed

lemma sat_andThen:
  assumes "sat P c Q m" "\<And>x. Q x \<Longrightarrow> sat P c' R (f x)"
  shows "sat P (c + c') R (andThen m f)"
proof -
  have "P s (err_of (fst (andThen m f s))) (snd (andThen m f s)) \<and> enat (snd (andThen m f s)) \<le> enat s + (c + c') \<and>
        (\<forall>v. fst (andThen m f s) = Inr v \<longrightarrow> R v)" for s
  proof (cases "fst (m s)")
    case (Inl e)
    then have m: "m s = (Inl e, snd (m s))" by (metis prod.collapse)
    have 1: "P s (Some e) (snd (m s))" "enat (snd (m s)) \<le> enat s + c"
      using assms(1) Inl unfolding sat_def by (metis err_of_simps(1))+
    have "enat s + c \<le> enat s + (c + c')" by (simp add: add.assoc [symmetric])
    then have 2: "enat (snd (m s)) \<le> enat s + (c + c')" using 1(2) by (rule order_trans [rotated])
    have "andThen m f s = (Inl e, snd (m s))" by (subst andThen_def) (simp add: m [symmetric] split_beta Inl)
    then show ?thesis using 1 2 by simp
  next
    case (Inr x)
    have x: "Q x" "P s None (snd (m s))" "enat (snd (m s)) \<le> enat s + c"
      using assms(1) Inr unfolding sat_def by (metis err_of_simps(2))+
    have e: "andThen m f s = f x (snd (m s))" by (simp add: andThen_def split_beta Inr)
    have fx: "P t (err_of (fst (f x t))) (snd (f x t))" "enat (snd (f x t)) \<le> enat t + c'"
      "fst (f x t) = Inr v \<Longrightarrow> R v" for t v
      using assms(2) [OF x(1)] unfolding sat_def by blast+
    have "enat (snd (f x (snd (m s)))) \<le> enat (snd (m s)) + c'" by (rule fx)
    also have "\<dots> \<le> enat s + c + c'" by (rule add_right_mono [OF x(3)])
    finally have "enat (snd (f x (snd (m s)))) \<le> enat s + (c + c')" by (simp add: add.assoc)
    then show ?thesis unfolding e using P_trans [OF x(2) fx(1)] fx(3) by blast
  qed
  then show ?thesis unfolding sat_def by blast
qed

lemma sat_andThen_le:
  assumes "sat P c Q m" "\<And>x. Q x \<Longrightarrow> sat P c' R (f x)" "c + c' \<le> d"
  shows "sat P d R (andThen m f)"
  by (rule sat_weaken [OF sat_andThen [OF assms(1,2)] assms(3)])

lemma sat_then:
  assumes "sat P c Q m" "\<And>x. Q x \<Longrightarrow> sat P 0 R (f x)"
  shows "sat P c R (andThen m f)"
  by (rule sat_andThen_le [OF assms]) (simp_all only: add_0_right order_refl)

end

section \<open>Values kept by the operators\<close>

lemma binaryValues_bool:
  assumes "opr \<notin> {''+'', ''-'', ''*'', ''/'', ''%''}" "binaryValues lib st opr l r = Inr v"
  shows "\<exists>b. v = VBool b"
proof -
  have m: "map_sum id VBool x = Inr v \<Longrightarrow> \<exists>b. v = VBool b" for x :: "bool res" by (cases x) auto
  show ?thesis
  proof (cases "opr \<in> {''=='', ''!='', ''<'', ''<='', ''>'', ''>=''}")
    case True
    then show ?thesis using assms(2) by (elim insertE emptyE) (auto simp: binaryValues_def)
  next
    case c: False
    show ?thesis
    proof (cases "opr = ''in''")
      case True
      then have "binaryValues lib st opr l r = (if exprStoredMismatch r \<and> st then Inr (VBool False) else map_sum id VBool (exprIn l r))"
        by (simp add: binaryValues_def)
      then show ?thesis using assms(2) m [of "exprIn l r"] by (cases "exprStoredMismatch r \<and> st") auto
    next
      case False
      then have "binaryValues lib st opr l r =
          (if opr = ''startsWith'' then map_sum id VBool (exprStartsWith l r) else Inl (ExprError ''unsupported_node''))"
        using c assms(1) by (simp add: binaryValues_def)
      then show ?thesis using assms(2) m [of "exprStartsWith l r"] by (simp split: if_split_asm)
    qed
  qed
qed

text \<open>
  \<open>M\<close> bounds the length of a collection, \<open>N\<close> the elements of a list literal, and \<open>withPlus\<close> says whether
  \<^verbatim>\<open>+\<close> may be used.
\<close>

locale value_law =
  fixes okv :: "xval \<Rightarrow> bool" and N :: enat and M :: enat and withPlus :: bool
  assumes ok_atoms: "okv VNil" "okv VAbsent" "okv (VBool b)" "okv (VString t)"
    and ok_int: "in64 i \<Longrightarrow> okv (VInt i)"
    and ok_float: "is_fin f \<Longrightarrow> okv (VFloat f)"
    and ok_member: "okv v \<Longrightarrow> okv (exprMember lib v fld)"
    and ok_numeric: "okv l \<Longrightarrow> okv r \<Longrightarrow> numericBinary opr l r = Inr v \<Longrightarrow> okv v"
    and ok_plus: "withPlus \<Longrightarrow> okv l \<Longrightarrow> okv r \<Longrightarrow> exprPlus lib l r = Inr v \<Longrightarrow> okv v"
    and ok_negate: "okv l \<Longrightarrow> negate l = Inr v \<Longrightarrow> okv v"
    and ok_elem: "okv (VList xs) \<Longrightarrow> x \<in> set xs \<Longrightarrow> okv x"
    and ok_length: "okv (VList xs) \<Longrightarrow> enat (length xs) \<le> M"
    and ok_sublist: "okv (VList xs) \<Longrightarrow> set ys \<subseteq> set xs \<Longrightarrow> length ys \<le> length xs \<Longrightarrow> okv (VList ys)"
    and ok_image: "okv (VList xs) \<Longrightarrow> length ys \<le> length xs \<Longrightarrow> (\<forall>y \<in> set ys. okv y \<and> y \<noteq> VAbsent) \<Longrightarrow> okv (VList ys)"
    and ok_literal: "enat (length ys) \<le> N \<Longrightarrow> (\<forall>y \<in> set ys. okv y \<and> y \<noteq> VAbsent) \<Longrightarrow> okv (VList ys)"
    and ok_nomap: "okv (VMap [])"
    and ok_put: "okv (VMap m) \<Longrightarrow> okv v \<Longrightarrow> v \<noteq> VAbsent \<Longrightarrow> okv (VMap (mapPut k v m))"
    and ok_collection: "okv v \<Longrightarrow> exprCollection v = Some (Some xs) \<Longrightarrow> okv (VList xs)"
begin

lemma ok_unsentinel: "okv v \<Longrightarrow> okv (exprUnsentinel v) \<and> exprUnsentinel v \<noteq> VAbsent"
  by (simp add: exprUnsentinel_def ok_atoms)

lemma ok_binaryValues:
  assumes "okv l" "okv r" "opr = ''+'' \<Longrightarrow> withPlus" "binaryValues lib st opr l r = Inr v"
  shows "okv v"
proof -
  consider "opr = ''+''" | "opr \<in> {''-'', ''*'', ''/'', ''%''}" | "opr \<notin> {''+'', ''-'', ''*'', ''/'', ''%''}" by blast
  then show ?thesis
  proof cases
    case 1
    then have "exprPlus lib l r = Inr v" using assms(4) by (simp add: binaryValues_def)
    then show ?thesis by (rule ok_plus [OF assms(3) [OF 1] assms(1,2)])
  next
    case 2
    then have "numericBinary opr l r = Inr v" using assms(4) by (auto simp: binaryValues_def)
    then show ?thesis by (rule ok_numeric [OF assms(1,2)])
  next
    case 3
    then have "\<exists>b. v = VBool b" using assms(4) by (rule binaryValues_bool)
    then show ?thesis using ok_atoms(3) by blast
  qed
qed

end

lemma binary_refusals: "binaryValues lib st opr l r \<notin> {Inl Panic, Inl BudgetExceeded}"
proof -
  have 1: "exprIn l r \<notin> {Inl Panic, Inl BudgetExceeded}" by (cases r) auto
  have 2: "exprStartsWith l r \<notin> {Inl Panic, Inl BudgetExceeded}" by (cases r) auto
  have 3: "exprArithmetic o2 a b \<notin> {Inl Panic, Inl BudgetExceeded}" for o2 a b
    by (auto simp: exprArithmetic_def intArithmetic_def floatArithmetic_def overflow_def Let_def
          split: exprNumber.splits option.splits if_splits)
  have 4: "exprPlus lib l r \<notin> {Inl Panic, Inl BudgetExceeded}"
    using 3 by (simp add: exprPlus_def overflow_def split: option.splits xval.splits if_splits)
  have 5: "numericBinary o2 l r \<notin> {Inl Panic, Inl BudgetExceeded}" for o2
    using 3 by (simp add: numericBinary_def split: option.splits)
  have 6: "map_sum id VBool x \<notin> {Inl Panic, Inl BudgetExceeded}" if "x \<notin> {Inl Panic, Inl BudgetExceeded}" for x
    using that by (cases x) auto
  show ?thesis using 4 5 6 [OF 1] 6 [OF 2] by (simp add: binaryValues_def)
qed

lemma negate_refusals: "negate v \<notin> {Inl Panic, Inl BudgetExceeded}"
  by (auto simp: negate_def overflow_def split: option.splits exprNumber.splits)

section \<open>The cost of an evaluation\<close>

text \<open>
  What an expression may cost when a collection has at most \<open>M\<close> elements and the body of a
  predicate costs at most \<open>pc\<close>, without saturation.
\<close>

function (sequential) costOf :: "enat \<Rightarrow> enat \<Rightarrow> expr \<Rightarrow> enat" where
  "costOf M pc (MemberE e f) = 1 + costOf M pc e"
| "costOf M pc (UnaryE opr e) = 1 + costOf M pc e"
| "costOf M pc (BinaryE opr l r) = 1 + (costOf M pc l + costOf M pc r)"
| "costOf M pc (TernaryE c t e) = 1 + (costOf M pc c + (costOf M pc t + costOf M pc e))"
| "costOf M pc (ParenE e) = 1 + costOf M pc e"
| "costOf M pc (ListE es) = 1 + sum_list (map (\<lambda>e. costOf M pc e) es)"
| "costOf M pc (MapE es) = 1 + sum_list (map (\<lambda>p. costOf M pc (snd p)) es)"
| "costOf M pc (LambdaE ps b) = 1 + costOf M pc b"
| "costOf M pc (CallE kind name rcv args named) =
     1 + ((case rcv of None \<Rightarrow> (if kind = '''' \<and> catalogFunction name = None then pc else 0) | Some r \<Rightarrow> costOf M pc r)
          + (sum_list (map (\<lambda>a. case Unparen a of
                                 LambdaE ps b \<Rightarrow> if rcv \<noteq> None then M * costOf M pc b else costOf M pc a
                               | _ \<Rightarrow> costOf M pc a) args)
             + sum_list (map (\<lambda>p. costOf M pc (snd p)) named)))"
| "costOf M pc _ = 1"
  by pat_completeness auto

termination
  by (relation "measure (\<lambda>(_, _, e). size e)") (auto simp: less_Suc_eq_le dest!: Unparen_size size_entry size_arg)

text \<open>A test at every node of an expression.\<close>

function (sequential) allNodes :: "(expr \<Rightarrow> bool) \<Rightarrow> expr \<Rightarrow> bool" where
  "allNodes p (MemberE e f) \<longleftrightarrow> p (MemberE e f) \<and> allNodes p e"
| "allNodes p (UnaryE opr e) \<longleftrightarrow> p (UnaryE opr e) \<and> allNodes p e"
| "allNodes p (BinaryE opr l r) \<longleftrightarrow> p (BinaryE opr l r) \<and> allNodes p l \<and> allNodes p r"
| "allNodes p (TernaryE c t e) \<longleftrightarrow> p (TernaryE c t e) \<and> allNodes p c \<and> allNodes p t \<and> allNodes p e"
| "allNodes p (ParenE e) \<longleftrightarrow> p (ParenE e) \<and> allNodes p e"
| "allNodes p (ListE es) \<longleftrightarrow> p (ListE es) \<and> list_all (\<lambda>e. allNodes p e) es"
| "allNodes p (MapE es) \<longleftrightarrow> p (MapE es) \<and> list_all (\<lambda>x. allNodes p (snd x)) es"
| "allNodes p (LambdaE ps b) \<longleftrightarrow> p (LambdaE ps b) \<and> allNodes p b"
| "allNodes p (CallE kind name rcv args named) \<longleftrightarrow>
     p (CallE kind name rcv args named) \<and> (case rcv of None \<Rightarrow> True | Some r \<Rightarrow> allNodes p r) \<and>
     list_all (\<lambda>a. allNodes p a) args \<and> list_all (\<lambda>x. allNodes p (snd x)) named"
| "allNodes p e \<longleftrightarrow> p e"
  by pat_completeness auto

termination
  by (relation "measure (\<lambda>(_, e). size e)") (auto simp: less_Suc_eq_le dest!: size_entry size_arg)

lemma allNodes_Unparen: "allNodes p a \<Longrightarrow> Unparen a = LambdaE ps b \<Longrightarrow> allNodes p b"
  by (induction a rule: Unparen.induct) auto

definition nodeOk :: "(xval \<Rightarrow> bool) \<Rightarrow> enat \<Rightarrow> bool \<Rightarrow> expr \<Rightarrow> bool" where
  "nodeOk okv N withPlus e \<longleftrightarrow>
     (case e of
        LiteralE v \<Rightarrow> okv v
      | ListE es \<Rightarrow> enat (length es) \<le> N
      | BinaryE opr _ _ \<Rightarrow> opr = ''+'' \<longrightarrow> withPlus
      | _ \<Rightarrow> True)"

section \<open>Lists the methods rebuild\<close>

lemma mset_insertBack [simp]: "mset (insertBack lt x ys) = add_mset x (mset ys)"
  by (induction ys) auto

lemma mset_SliceStable: "mset (SliceStable lt xs) = mset xs"
proof -
  have "mset (foldl (\<lambda>acc x. insertBack lt x acc) ys xs) = mset ys + mset xs" for ys
    by (induction xs arbitrary: ys) auto
  then show ?thesis by (simp add: SliceStable_def)
qed

lemma orderByKeys_mset:
  assumes "length ks = length coll"
  shows "mset (orderByKeys lib desc (zip ks coll)) = mset coll"
  using assms by (simp add: orderByKeys_def mset_SliceStable) (metis map_snd_zip mset_map)

lemma distinctByKeys_sub:
  "set (distinctByKeys seen ps) \<subseteq> snd ` set ps \<and> length (distinctByKeys seen ps) \<le> length ps"
  by (induction seen ps rule: distinctByKeys.induct) auto

lemma distinctByKeys_zip:
  "set (distinctByKeys seen (zip as coll)) \<subseteq> set coll \<and> length (distinctByKeys seen (zip as coll)) \<le> length coll"
proof -
  have "snd ` set (zip as coll) \<subseteq> set coll" by (auto dest: set_zip_rightD)
  then show ?thesis using distinctByKeys_sub [of seen "zip as coll"] by auto
qed

lemma addToGroup_inv:
  assumes "\<forall>(a, b, els) \<in> set g. R b \<and> set els \<subseteq> S \<and> length els \<le> n" "R k" "el \<in> S"
  shows "(\<forall>(a, b, els) \<in> set (addToGroup ks k el g). R b \<and> set els \<subseteq> S \<and> length els \<le> Suc n) \<and>
         length (addToGroup ks k el g) \<le> Suc (length g)"
  using assms by (induction ks k el g rule: addToGroup.induct) auto

lemma groups_inv:
  assumes "\<forall>(k, el) \<in> set items. R k \<and> el \<in> S"
    "\<forall>(a, b, els) \<in> set g. R b \<and> set els \<subseteq> S \<and> length els \<le> n" "length g \<le> n"
  shows "let g' = foldl (\<lambda>g (k, el). addToGroup (exprKey lib k) k el g) g items
         in (\<forall>(a, b, els) \<in> set g'. R b \<and> set els \<subseteq> S \<and> length els \<le> n + length items) \<and>
            length g' \<le> n + length items"
  using assms
proof (induction items arbitrary: g n)
  case Nil
  then show ?case by simp
next
  case (Cons it items)
  obtain k el where it: "it = (k, el)" by (cases it)
  have "R k" "el \<in> S" using Cons.prems(1) it by auto
  from addToGroup_inv [OF Cons.prems(2) this, of "exprKey lib k"]
  have "\<forall>(a, b, els) \<in> set (addToGroup (exprKey lib k) k el g). R b \<and> set els \<subseteq> S \<and> length els \<le> Suc n"
    "length (addToGroup (exprKey lib k) k el g) \<le> Suc n"
    using Cons.prems(3) by auto
  from Cons.IH [OF _ this] Cons.prems(1) show ?case by (simp add: it)
qed

section \<open>The evaluator keeps both laws\<close>

lemma enat_Suc_mult: "enat (Suc n) * c = c + enat n * c"
  by (simp add: eSuc_enat [symmetric] mult_eSuc)

fun scope_ok :: "(xval \<Rightarrow> bool) \<Rightarrow> scope \<Rightarrow> bool" where
  "scope_ok okv RootScope \<longleftrightarrow> True"
| "scope_ok okv (LambdaScope bs p) \<longleftrightarrow> (\<forall>b \<in> set bs. okv (fst (snd b))) \<and> scope_ok okv p"

text \<open>
  What the evaluations handed to a method must satisfy, with the cost \<open>C\<close> of each: a value argument
  costs \<open>C\<close>, and the body of a lambda costs \<open>c\<close> per element where \<open>C = M * c\<close>.
\<close>

fun lam_ok :: "(nat \<Rightarrow> xerr option \<Rightarrow> nat \<Rightarrow> bool) \<Rightarrow> (xval \<Rightarrow> bool) \<Rightarrow> enat \<Rightarrow> enat \<Rightarrow> lam \<Rightarrow> bool" where
  "lam_ok P okv M C (ps, ap, ts) \<longleftrightarrow>
     (\<exists>c. C = M * c \<and> (\<forall>bs. (\<forall>b \<in> set bs. okv (fst (snd b))) \<longrightarrow> sat P c okv (ap bs) \<and> sat P c (\<lambda>_. True) (ts bs)))"

definition lambdaMethods :: "string list" where
  "lambdaMethods = [''any'', ''all'', ''where'', ''select'', ''sum'', ''min'', ''max'', ''avg'', ''orderBy'', ''orderByDesc'', ''groupBy'']"

definition methodShape :: "string \<Rightarrow> lam option list \<Rightarrow> bool" where
  "methodShape name lams \<longleftrightarrow>
     (name \<in> set lambdaMethods \<longrightarrow> (\<exists>l. lams = [Some l] \<and> length (fst l) = 1)) \<and>
     (name = ''distinct'' \<longrightarrow> lams = [] \<or> (\<exists>l. lams = [Some l] \<and> length (fst l) = 1)) \<and>
     (name \<in> {''take'', ''skip''} \<longrightarrow> lams = [None]) \<and>
     (name = ''reduce'' \<longrightarrow> (\<exists>l. lams = [None, Some l] \<and> length (fst l) = 2))"

text \<open>The shapes the catalog asks for, read off its entries.\<close>

definition lamOf :: "expr \<Rightarrow> lam option \<Rightarrow> bool" where
  "lamOf a lo \<longleftrightarrow> (case Unparen a of LambdaE ps b \<Rightarrow> (\<exists>x. lo = Some (ps, x)) | _ \<Rightarrow> lo = None)"

lemma catalog_lambdaMethods:
  "list_all (\<lambda>n. exprMethodEntry ''list'' n = Some (methodEntry ''list'' n [''lambda''])) lambdaMethods"
  by code_simp

lemma catalog_others:
  "exprMethodEntry ''list'' ''distinct'' = Some \<lparr>cf_Name = ''distinct'', cf_Receiver = ''list'', cf_Params = [(''lambda'', True)]\<rparr>"
  "exprMethodEntry ''list'' ''take'' = Some (methodEntry ''list'' ''take'' [''number''])"
  "exprMethodEntry ''list'' ''skip'' = Some (methodEntry ''list'' ''skip'' [''number''])"
  "exprMethodEntry ''list'' ''reduce'' = Some (methodEntry ''list'' ''reduce'' [''any'', ''lambda''])"
  "exprMethodEntry ''list'' ''includes'' = None"
  "exprMethodEntry ''string'' ''includes'' = Some (methodEntry ''string'' ''includes'' [''string''])"
  by code_simp+

lemma argFits_lambda:
  assumes "argFits fn (''lambda'', b) a" "lamOf a lo"
  shows "\<exists>l. lo = Some l \<and> length (fst l) = exprLambdaParams (Key fn)"
  using assms by (auto simp: argFits_def lamOf_def split: expr.splits)

lemma argFits_value: "argFits fn (t, b) a \<Longrightarrow> t \<noteq> ''lambda'' \<Longrightarrow> lamOf a lo \<Longrightarrow> lo = None"
  by (auto simp: argFits_def lamOf_def split: expr.splits)

lemma shape_one_lambda:
  assumes "exprCheckShape fn args named" "cf_Params fn = [(''lambda'', opt)]" "list_all2 lamOf args lams"
    "exprLambdaParams (Key fn) = 1"
  shows "lams = [] \<and> opt \<or> (\<exists>l. lams = [Some l] \<and> length (fst l) = 1)"
proof (cases args)
  case Nil
  then show ?thesis using assms(1-3) by (auto simp: exprCheckShape_def split: if_splits)
next
  case (Cons a as)
  then have a: "as = []" "argFits fn (''lambda'', opt) a" using assms(1,2) by (auto simp: exprCheckShape_def)
  then obtain lo where "lams = [lo]" "lamOf a lo" using assms(3) Cons by (auto simp: list_all2_Cons1)
  then show ?thesis using argFits_lambda [OF a(2)] assms(4) by metis
qed

lemma shape_one_value:
  assumes "exprCheckShape fn args named" "cf_Params fn = [(t, False)]" "list_all2 lamOf args lams" "t \<noteq> ''lambda''"
  shows "lams = [None]"
proof -
  obtain a where "args = [a]" using assms(1,2) by (auto simp: exprCheckShape_def length_Suc_conv le_Suc_eq)
  then show ?thesis using assms argFits_value by (auto simp: exprCheckShape_def list_all2_Cons1)
qed



lemma check_methodShape:
  assumes "exprMethodEntry ''list'' name = Some fn" "exprCheckShape fn args named" "list_all2 lamOf args lams"
  shows "methodShape name lams"
proof -
  have 1: "\<exists>l. lams = [Some l] \<and> length (fst l) = 1" if n: "name \<in> set lambdaMethods"
  proof -
    have "fn = methodEntry ''list'' name [''lambda'']"
      using catalog_lambdaMethods n assms(1) by (simp add: list_all_iff)
    moreover have "name \<noteq> ''reduce''" using n by (auto simp: lambdaMethods_def)
    ultimately have "cf_Params fn = [(''lambda'', False)]" "exprLambdaParams (Key fn) = 1"
      by (simp_all add: methodEntry_def exprLambdaParams_def Key_def)
    then show ?thesis using shape_one_lambda [OF assms(2) _ assms(3)] by blast
  qed
  have 2: "lams = [] \<or> (\<exists>l. lams = [Some l] \<and> length (fst l) = 1)" if "name = ''distinct''"
  proof -
    have "fn = \<lparr>cf_Name = ''distinct'', cf_Receiver = ''list'', cf_Params = [(''lambda'', True)]\<rparr>"
      using assms(1) that by (simp add: catalog_others)
    then have "cf_Params fn = [(''lambda'', True)]" "exprLambdaParams (Key fn) = 1"
      by (simp_all add: exprLambdaParams_def Key_def)
    then show ?thesis using shape_one_lambda [OF assms(2) _ assms(3)] by blast
  qed
  have 3: "lams = [None]" if "name \<in> {''take'', ''skip''}"
  proof -
    have "cf_Params fn = [(''number'', False)]"
      using that assms(1) by (elim insertE emptyE) (auto simp: catalog_others methodEntry_def)
    then show ?thesis using shape_one_value [OF assms(2) _ assms(3)] by simp
  qed
  have 4: "\<exists>l. lams = [None, Some l] \<and> length (fst l) = 2" if n: "name = ''reduce''"
  proof -
    have fn: "fn = methodEntry ''list'' ''reduce'' [''any'', ''lambda'']" using assms(1) n by (simp add: catalog_others)
    then obtain a b where ab: "args = [a, b]" "argFits fn (''any'', False) a" "argFits fn (''lambda'', False) b"
      using assms(2) by (auto simp: exprCheckShape_def methodEntry_def length_Suc_conv le_Suc_eq)
    moreover have "exprLambdaParams (Key fn) = 2" by (simp add: fn exprLambdaParams_def Key_def methodEntry_def)
    ultimately show ?thesis using assms(3) argFits_value [OF ab(2)] argFits_lambda [OF ab(3)]
      by (auto simp: list_all2_Cons1)
  qed
  show ?thesis unfolding methodShape_def using 1 2 3 4 by blast
qed

locale eval_law = step_law P + value_law okv N M withPlus
  for P :: "nat \<Rightarrow> xerr option \<Rightarrow> nat \<Rightarrow> bool" and okv N M withPlus +
  fixes o1 :: evalOptions and pc :: enat
  assumes tick_law: "P s (err_of (fst (tick o1 s))) (snd (tick o1 s))"
    and root_ok: "eo_root o1 n = Some v \<Longrightarrow> okv v"
    and calls_ok: "eo_Calls o1 = Some h \<Longrightarrow> h s k n m = Inr v \<Longrightarrow> okv v"
    and preds_ok: "eo_Predicates o1 = Some h2 \<Longrightarrow> h2 n = Some (p, body) \<Longrightarrow>
                     allNodes (nodeOk okv N withPlus) body \<and> pc = \<infinity>"
begin

lemma sat_tick: "sat P 1 (\<lambda>_. True) (tick o1)"
proof -
  have "snd (tick o1 s) = Suc s" for s by (simp add: tick_def split: option.split)
  then show ?thesis using tick_law by (simp add: sat_def one_enat_def)
qed

lemma sat_step: "sat P c Q m \<Longrightarrow> sat P (1 + c) Q (andThen (tick o1) (\<lambda>_. m))"
  by (rule sat_andThen [OF sat_tick])

lemma lookup_ok: "scope_ok okv sc \<Longrightarrow> lookup o1 sc n = Some v \<Longrightarrow> okv v"
  by (induction sc) (auto simp: root_ok split: option.splits dest!: map_of_SomeD)

lemma sat_ident: "scope_ok okv sc \<Longrightarrow> sat P c okv (ident o1 sc n)"
  by (auto simp: ident_def ok_atoms split: option.split intro: sat_ret sat_refuse lookup_ok)

lemma sat_condition: "sat P c (\<lambda>_. True) (condition st v)"
  by (auto simp: condition_def intro: sat_ret sat_refuse split: xval.split)

lemma sat_bool: "sat P c (\<lambda>_. True) m \<Longrightarrow> sat P c okv (andThen m (\<lambda>b. ret (VBool b)))"
  by (erule sat_then) (auto intro: sat_ret ok_atoms)

lemma sat_binary:
  assumes "sat P cl okv el" "sat P cr okv er" "sat P cl (\<lambda>_. True) cnl" "sat P cr (\<lambda>_. True) cnr"
    "opr = ''+'' \<Longrightarrow> withPlus"
  shows "sat P (cl + cr) okv (binary o1 st opr el er cnl cnr)"
proof -
  have 1: "sat P (cl + cr) okv (andThen cnl (\<lambda>lb. if C lb then ret (VBool lb) else andThen cnr (\<lambda>rb. ret (VBool rb))))" for C
    by (rule sat_andThen [OF assms(3)]) (auto intro: sat_ret ok_atoms sat_bool assms(4))
  have 2: "sat P (cl + cr) okv (coalesceSelect [el, er])"
    unfolding coalesceSelect.simps
    by (rule sat_andThen [OF assms(1)])
       (auto intro!: sat_ret sat_then [OF assms(2)] simp: ok_unsentinel)
  have "sat P 0 okv (lift (binaryValues lib st opr l r))" if "okv l" "okv r" for lib l r
    by (rule sat_lift [OF ok_binaryValues [OF that assms(5)] binary_refusals])
  then have 3: "sat P (cl + cr) okv (andThen el (\<lambda>l. andThen er (\<lambda>r. lift (binaryValues lib st opr l r))))" for lib
    by (intro sat_andThen [OF assms(1)] sat_then [OF assms(2)])
  show ?thesis unfolding binary_def using 1 2 3 by simp
qed

lemma sat_unary:
  assumes "sat P c okv ev" "sat P c (\<lambda>_. True) t"
  shows "sat P c okv (unary opr ev t)"
proof -
  have "sat P c okv (andThen t (\<lambda>b. ret (VBool (\<not> b))))"
    by (rule sat_then [OF assms(2)]) (simp add: sat_ret ok_atoms)
  moreover have "sat P c okv (andThen ev (\<lambda>v. if opr = ''-'' then lift (negate v) else refuse ''unsupported_node''))"
    by (rule sat_then [OF assms(1)]) (auto intro!: sat_refuse sat_lift [OF _ negate_refusals] dest: ok_negate)
  ultimately show ?thesis by (simp add: unary_def)
qed

lemma sat_listLiteral:
  assumes "list_all2 (\<lambda>c m. sat P c okv m) cs ms"
  shows "sat P (sum_list cs) (\<lambda>vs. length vs \<le> length ms \<and> (\<forall>v \<in> set vs. okv v \<and> v \<noteq> VAbsent)) (listLiteral ms)"
  using assms
proof (induction rule: list_all2_induct)
  case Nil
  then show ?case by (simp add: sat_ret)
next
  case (Cons c cs m ms)
  show ?case unfolding listLiteral.simps sum_list.Cons
    by (rule sat_andThen [OF Cons(1)], rule sat_then [OF Cons(3)]) (auto intro!: sat_ret)
qed

lemma sat_mapEntries:
  assumes "list_all2 (\<lambda>c km. sat P c okv (snd km)) cs ms" "okv (VMap acc)"
  shows "sat P (sum_list cs) (\<lambda>m. okv (VMap m)) (mapEntries acc ms)"
  using assms
proof (induction arbitrary: acc rule: list_all2_induct)
  case Nil
  then show ?case by (simp add: sat_ret)
next
  case (Cons c cs km ms)
  obtain k m where [simp]: "km = (k, m)" by (cases km)
  have "sat P c okv m" using Cons(1) by simp
  then show ?case unfolding \<open>km = (k, m)\<close> mapEntries.simps sum_list.Cons
    by (rule sat_andThen, intro Cons(3)) (auto intro: ok_put Cons(4))
qed

lemma sat_evalArgs:
  assumes "list_all2 (\<lambda>c m. sat P c okv m) cs ms"
  shows "sat P (sum_list cs) (\<lambda>vs. length vs = length ms) (evalArgs ms)"
  using assms
proof (induction rule: list_all2_induct)
  case Nil
  then show ?case by (simp add: sat_ret)
next
  case (Cons c cs m ms)
  show ?case unfolding evalArgs.simps sum_list.Cons
    by (rule sat_andThen [OF Cons(1)], rule sat_then [OF Cons(3)]) (auto intro!: sat_ret)
qed

lemma sat_listAny:
  assumes "\<And>x. x \<in> set xs \<Longrightarrow> sat P c (\<lambda>_. True) (t x)"
  shows "sat P (enat (length xs) * c) (\<lambda>_. True) (listAny t xs)"
  using assms
proof (induction xs)
  case (Cons x xs)
  show ?case unfolding listAny.simps length_Cons enat_Suc_mult
    by (rule sat_andThen [OF Cons.prems [of x]]) (use Cons in \<open>auto intro: sat_ret\<close>)
qed (simp add: sat_ret)

lemma sat_listAll:
  assumes "\<And>x. x \<in> set xs \<Longrightarrow> sat P c (\<lambda>_. True) (t x)"
  shows "sat P (enat (length xs) * c) (\<lambda>_. True) (listAll t xs)"
  using assms
proof (induction xs)
  case (Cons x xs)
  show ?case unfolding listAll.simps length_Cons enat_Suc_mult
    by (rule sat_andThen [OF Cons.prems [of x]]) (use Cons in \<open>auto intro: sat_ret\<close>)
qed (simp add: sat_ret)

lemma sat_listWhere:
  assumes "\<And>x. x \<in> set xs \<Longrightarrow> sat P c (\<lambda>_. True) (t x)"
  shows "sat P (enat (length xs) * c) (\<lambda>vs. set vs \<subseteq> set xs \<and> length vs \<le> length xs) (listWhere t xs)"
  using assms
proof (induction xs)
  case (Cons x xs)
  have "sat P (enat (length xs) * c) (\<lambda>vs. set vs \<subseteq> set xs \<and> length vs \<le> length xs) (listWhere t xs)"
    using Cons by simp
  then have "sat P (enat (length xs) * c) (\<lambda>vs. set vs \<subseteq> set (x # xs) \<and> length vs \<le> length (x # xs))
      (andThen (listWhere t xs) (\<lambda>vs. ret (if ok then x # vs else vs)))" for ok
    by (rule sat_then) (auto intro!: sat_ret)
  then show ?case unfolding listWhere.simps length_Cons [of x xs, THEN arg_cong, of enat] enat_Suc_mult
    by (intro sat_andThen [OF Cons.prems [of x]]) simp_all
qed (simp add: sat_ret)

lemma sat_listSelect:
  assumes "\<And>x. x \<in> set xs \<Longrightarrow> sat P c okv (f x)"
  shows "sat P (enat (length xs) * c) (\<lambda>vs. length vs = length xs \<and> (\<forall>v \<in> set vs. okv v \<and> v \<noteq> VAbsent)) (listSelect f xs)"
  using assms
proof (induction xs)
  case (Cons x xs)
  have "sat P (enat (length xs) * c) (\<lambda>vs. length vs = length xs \<and> (\<forall>v \<in> set vs. okv v \<and> v \<noteq> VAbsent)) (listSelect f xs)"
    using Cons by simp
  then have "okv v \<Longrightarrow> sat P (enat (length xs) * c)
      (\<lambda>vs. length vs = length (x # xs) \<and> (\<forall>v \<in> set vs. okv v \<and> v \<noteq> VAbsent))
      (andThen (listSelect f xs) (\<lambda>vs. ret (exprUnsentinel v # vs)))" for v
    by (rule sat_then) (rule sat_ret, simp add: ok_unsentinel)
  then show ?case unfolding listSelect.simps length_Cons [of x xs, THEN arg_cong, of enat] enat_Suc_mult
    by (intro sat_andThen [OF Cons.prems [of x]]) simp_all
qed (simp add: sat_ret)

lemma sat_aggregateLoop:
  assumes "\<And>x. x \<in> set xs \<Longrightarrow> sat P c okv (f x)"
  shows "sat P (enat (length xs) * c) (\<lambda>_. True) (aggregateLoop name f acc best xs)"
  using assms
proof (induction xs arbitrary: acc best)
  case (Cons x xs)
  show ?case unfolding aggregateLoop.simps length_Cons enat_Suc_mult
    by (rule sat_andThen [OF Cons.prems [of x]])
       (use Cons in \<open>auto intro: sat_refuse split: option.split\<close>)
qed (simp add: sat_ret)

lemma sat_listAggregate:
  assumes "\<And>x. x \<in> set xs \<Longrightarrow> sat P c okv (f x)"
  shows "sat P (enat (length xs) * c) okv (listAggregate name f xs)"
proof (cases "xs = []")
  case False
  then show ?thesis unfolding listAggregate_def
    by (auto intro!: sat_then [OF sat_aggregateLoop [OF assms]] sat_ret sat_refuse ok_float
          simp: Let_def split: prod.split)
qed (auto simp: listAggregate_def intro!: sat_ret ok_float ok_atoms)

lemma sat_reduceLoop:
  assumes "\<And>a x. okv a \<Longrightarrow> x \<in> set xs \<Longrightarrow> sat P c okv (f a x)" "okv acc"
  shows "sat P (enat (length xs) * c) okv (reduceLoop f acc xs)"
  using assms
proof (induction xs arbitrary: acc)
  case (Cons x xs)
  show ?case unfolding reduceLoop.simps length_Cons enat_Suc_mult
    by (rule sat_andThen [OF Cons.prems(1) [of acc x]]) (use Cons in auto)
qed (simp add: sat_ret)

lemma ok_groups:
  assumes "okv (VList coll)" "length ks = length coll" "\<forall>v \<in> set ks. okv v \<and> v \<noteq> VAbsent"
  shows "okv (VList (groupByKeys lib (zip ks coll)))"
proof -
  let ?g = "foldl (\<lambda>g (k, el). addToGroup (exprKey lib k) k el g) [] (zip ks coll)"
  have "\<forall>(k, el) \<in> set (zip ks coll). (okv k \<and> k \<noteq> VAbsent) \<and> el \<in> set coll"
    using assms(3) by (auto dest: set_zip_leftD set_zip_rightD)
  from groups_inv [OF this, of "[]" 0 lib]
  have g: "\<forall>(a, b, els) \<in> set ?g. (okv b \<and> b \<noteq> VAbsent) \<and> set els \<subseteq> set coll \<and> length els \<le> length coll"
    "length ?g \<le> length coll"
    using assms(2) by (simp_all add: Let_def)
  have "okv (VMap [(''key'', b), (''items'', VList els)])" if "(a, b, els) \<in> set ?g" for a b els
  proof -
    have "okv b" "b \<noteq> VAbsent" "okv (VList els)" using g(1) that ok_sublist [OF assms(1), of els] by auto
    then show ?thesis using ok_put [OF ok_put [OF ok_nomap], of b "VList els" "''items''" "''key''"] by simp
  qed
  then show ?thesis unfolding groupByKeys_def by (intro ok_image [OF assms(1)]) (auto simp: g(2))
qed

lemma lam_loop:
  assumes "lam_ok P okv M C l" "okv (VList coll)"
  obtains c where "\<And>x. x \<in> set coll \<Longrightarrow> sat P c (\<lambda>_. True) (lamTest st l x)"
    "\<And>x. x \<in> set coll \<Longrightarrow> sat P c okv (lamApply st l x)"
    "\<And>a x. okv a \<Longrightarrow> x \<in> set coll \<Longrightarrow> sat P c okv (lamFold l a x)" "enat (length coll) * c \<le> C"
proof -
  obtain ps ap ts where l: "l = (ps, ap, ts)" by (cases l)
  from assms(1) obtain c where c: "C = M * c"
    "\<And>bs. \<forall>b \<in> set bs. okv (fst (snd b)) \<Longrightarrow> sat P c okv (ap bs) \<and> sat P c (\<lambda>_. True) (ts bs)"
    unfolding l by auto
  have "enat (length coll) * c \<le> C" unfolding c(1) by (rule mult_right_mono [OF ok_length [OF assms(2)]]) simp
  then show ?thesis using c(2) ok_elem [OF assms(2)] by (intro that [of c]) (simp_all add: l)
qed

lemma sat_lambdaMethod:
  assumes "okv (VList coll)" "name \<in> set lambdaMethods \<or> name = ''distinct'' \<and> length argc = 1"
    and l: "length (fst l) = 1" "lam_ok P okv M C l"
  shows "sat P C okv (listMethod lib name st argc [Some l] coll)"
proof -
  obtain c where c: "\<And>x. x \<in> set coll \<Longrightarrow> sat P c (\<lambda>_. True) (lamTest st l x)"
    "\<And>x. x \<in> set coll \<Longrightarrow> sat P c okv (lamApply st l x)" "enat (length coll) * c \<le> C"
    using lam_loop [OF l(2) assms(1), of st thesis] by blast
  have w: "withLambda [Some l] 0 (Suc 0) k = k l" for k :: "lam \<Rightarrow> xval comp" using l(1) by (simp add: withLambda_def)
  have any: "sat P C okv (andThen (listAny (lamTest st l) coll) (\<lambda>b. ret (VBool b)))"
    by (rule sat_bool [OF sat_weaken [OF sat_listAny [OF c(1)] c(3)]]) simp_all
  have all: "sat P C okv (andThen (listAll (lamTest st l) coll) (\<lambda>b. ret (VBool b)))"
    by (rule sat_bool [OF sat_weaken [OF sat_listAll [OF c(1)] c(3)]]) simp_all
  have wher: "sat P C okv (andThen (listWhere (lamTest st l) coll) (\<lambda>vs. ret (VList vs)))"
    by (rule sat_andThen_le [OF sat_listWhere [OF c(1)], where c' = 0])
       (auto intro!: sat_ret ok_sublist [OF assms(1)] simp: c(3))
  have keys: "sat P C okv (andThen (listSelect (lamApply st l) coll) (\<lambda>ks. ret (VList (g ks))))"
    if "\<And>ks. length ks = length coll \<Longrightarrow> \<forall>v \<in> set ks. okv v \<and> v \<noteq> VAbsent \<Longrightarrow> okv (VList (g ks))" for g
    by (rule sat_andThen_le [OF sat_listSelect [OF c(2)], where c' = 0]) (auto intro!: sat_ret that simp: c(3))
  have sel: "okv (VList ks)" if "length ks = length coll" "\<forall>v \<in> set ks. okv v \<and> v \<noteq> VAbsent" for ks
    using ok_image [OF assms(1), of ks] that by simp
  have ord: "okv (VList (orderByKeys lib desc (zip ks coll)))" if "length ks = length coll" for ks desc
    using ok_sublist [OF assms(1)] orderByKeys_mset [OF that, of lib desc] by (metis mset_eq_setD order_refl size_mset)
  have dis: "okv (VList (distinctByKeys {} (zip (map (exprKey lib) ks) coll)))" if "length ks = length coll" for ks
    using distinctByKeys_zip by (intro ok_sublist [OF assms(1)]) blast+
  have grp: "okv (VList (groupByKeys lib (zip ks coll)))"
    if "length ks = length coll" "\<forall>v \<in> set ks. okv v \<and> v \<noteq> VAbsent" for ks
    by (rule ok_groups [OF assms(1) that])
  have agg: "sat P C okv (listAggregate nm (lamApply st l) coll)" for nm
    by (rule sat_weaken [OF sat_listAggregate [OF c(2)] c(3)])
  have k: "sat P C okv (andThen (listSelect (lamApply st l) coll) (\<lambda>ks. ret (VList ks)))"
    "sat P C okv (andThen (listSelect (lamApply st l) coll) (\<lambda>ks. ret (VList (orderByKeys lib desc (zip ks coll)))))"
    "sat P C okv (andThen (listSelect (lamApply st l) coll) (\<lambda>ks. ret (VList (groupByKeys lib (zip ks coll)))))"
    "sat P C okv (andThen (listSelect (lamApply st l) coll)
       (\<lambda>ks. ret (VList (distinctByKeys {} (zip (map (exprKey lib) ks) coll)))))" for desc
    by (rule keys, erule (1) sel) (rule keys, erule ord, rule keys, erule (1) grp, rule keys, erule dis)
  have "name \<in> {''any'', ''all'', ''where'', ''select'', ''sum'', ''min'', ''max'', ''avg'', ''orderBy'',
      ''orderByDesc'', ''groupBy''} \<or> name = ''distinct'' \<and> length argc = 1"
    using assms(2) by (simp add: lambdaMethods_def)
  then show ?thesis
    unfolding insert_iff empty_iff
    by (elim disjE conjE FalseE) (simp_all add: listMethod_def w any all wher agg k)
qed

lemma listMethod_names:
  "listMethod lib ''count'' st argc lams coll = ret (VInt (wrap64 (int (length coll))))"
  "listMethod lib ''first'' st argc lams coll = ret (if coll = [] then VNil else hd coll)"
  "listMethod lib ''last'' st argc lams coll = ret (if coll = [] then VNil else last coll)"
  "listMethod lib ''single'' st argc lams coll = (case coll of [v] \<Rightarrow> ret v | _ \<Rightarrow> refuse ''single_requires_one'')"
  "listMethod lib ''empty'' st argc lams coll = ret (VBool (coll = []))"
  "listMethod lib ''nodes'' st argc lams coll = ret (VList coll)"
  by (simp_all add: listMethod_def)

lemma sat_plainMethod:
  assumes "okv (VList coll)"
    "name \<notin> set lambdaMethods" "name \<notin> {''distinct'', ''take'', ''skip'', ''reduce''}"
  shows "sat P c okv (listMethod lib name st argc lams coll)"
proof -
  have e: "okv x" if "x \<in> set coll" for x by (rule ok_elem [OF assms(1) that])
  have 1: "sat P c okv (ret (VInt (wrap64 (int (length coll)))))" by (intro sat_ret ok_int wrap64_range)
  have 2: "sat P c okv (ret (if coll = [] then VNil else hd coll))" "sat P c okv (ret (if coll = [] then VNil else last coll))"
    by (auto intro!: sat_ret simp: ok_atoms e)
  have 3: "sat P c okv (case coll of [v] \<Rightarrow> ret v | _ \<Rightarrow> refuse ''single_requires_one'')"
    using e by (auto intro!: sat_ret sat_refuse split: list.split)
  have 4: "sat P c okv (ret (VBool (coll = [])))" "sat P c okv (ret (VList coll))"
    by (simp_all add: sat_ret ok_atoms assms(1))
  show ?thesis
  proof (cases "name \<in> {''count'', ''first'', ''last'', ''single'', ''empty'', ''nodes''}")
    case True
    then show ?thesis by (elim insertE emptyE) (simp_all only: listMethod_names 1 2 3 4)
  next
    case False
    then have "listMethod lib name st argc lams coll = refuse ''unknown_method''"
      using assms(2,3) by (simp add: listMethod_def lambdaMethods_def)
    then show ?thesis by (simp add: sat_refuse)
  qed
qed

lemma sat_listTakeSkip:
  assumes "okv (VList coll)" "sat P c okv m"
  shows "sat P c okv (listTakeSkip name m coll)"
proof -
  have "okv (VList (if b then take k coll else drop k coll))" for b k
    by (rule ok_sublist [OF assms(1)]) (auto dest: in_set_takeD in_set_dropD)
  then show ?thesis unfolding listTakeSkip_def
    by (intro sat_then [OF assms(2)]) (simp add: Let_def sat_ret sat_refuse split: option.split)
qed

lemma sat_reduce:
  assumes "okv (VList coll)" "sat P c okv m" "lam_ok P okv M C l" "length (fst l) = 2"
  shows "sat P (c + C) okv (andThen m (\<lambda>acc. withLambda [None, Some l] 1 2 (\<lambda>l. reduceLoop (lamFold l) acc coll)))"
proof -
  obtain d where d: "\<And>a x. okv a \<Longrightarrow> x \<in> set coll \<Longrightarrow> sat P d okv (lamFold l a x)" "enat (length coll) * d \<le> C"
    using lam_loop [OF assms(3,1), of _ thesis] by blast
  have "sat P C okv (reduceLoop (lamFold l) acc coll)" if "okv acc" for acc
    by (rule sat_weaken [OF sat_reduceLoop [OF d(1) that] d(2)])
  then show ?thesis by (intro sat_andThen [OF assms(2)]) (simp add: withLambda_def assms(4))
qed

lemma sat_takeSkip:
  assumes "okv (VList coll)" "length argc = length cs" "length lams = length cs"
    and args: "\<And>i. i < length cs \<Longrightarrow>
      (case lams ! i of None \<Rightarrow> sat P (cs ! i) okv (argc ! i) | Some l \<Rightarrow> lam_ok P okv M (cs ! i) l)"
    and n: "name = ''take'' \<or> name = ''skip''" "lams = [None]"
  shows "sat P (sum_list cs) okv (listMethod lib name st argc lams coll)"
proof -
  obtain C m where c: "cs = [C]" "argc = [m]" using assms(2,3) n(2) by (auto simp: length_Suc_conv Suc_length_conv)
  have "listMethod lib name st argc lams coll = listTakeSkip name m coll"
    using n(1) by (auto simp: listMethod_def withArg_def c)
  moreover have "sat P C okv m" using args [of 0] by (simp add: c n(2))
  ultimately show ?thesis using sat_listTakeSkip [OF assms(1)] by (simp add: c)
qed

lemma sat_distinct:
  assumes "okv (VList coll)" "length argc = length cs" "length lams = length cs"
    and args: "\<And>i. i < length cs \<Longrightarrow>
      (case lams ! i of None \<Rightarrow> sat P (cs ! i) okv (argc ! i) | Some l \<Rightarrow> lam_ok P okv M (cs ! i) l)"
    and n: "lams = [] \<or> (\<exists>l. lams = [Some l] \<and> length (fst l) = 1)"
  shows "sat P (sum_list cs) okv (listMethod lib ''distinct'' st argc lams coll)"
  using n
proof (elim disjE exE conjE)
  assume "lams = []"
  then have "argc = []" "cs = []" using assms(2,3) by auto
  moreover have "okv (VList (distinctByKeys {} (zip (map (exprKey lib) coll) coll)))"
    using distinctByKeys_zip by (intro ok_sublist [OF assms(1)]) blast+
  ultimately show ?thesis by (simp add: listMethod_def sat_ret)
next
  fix l assume l: "lams = [Some l]" "length (fst l) = 1"
  then obtain C where "cs = [C]" using assms(3) by (auto simp: length_Suc_conv Suc_length_conv)
  then show ?thesis
    using sat_lambdaMethod [OF assms(1) disjI2 l(2), of "''distinct''" argc] args [of 0] l(1) assms(2) by simp
qed

lemma sat_listMethod:
  assumes "okv (VList coll)" "methodShape name lams" "length argc = length cs" "length lams = length cs"
    and args: "\<And>i. i < length cs \<Longrightarrow>
      (case lams ! i of None \<Rightarrow> sat P (cs ! i) okv (argc ! i) | Some l \<Rightarrow> lam_ok P okv M (cs ! i) l)"
  shows "sat P (sum_list cs) okv (listMethod lib name st argc lams coll)"
proof (cases "name \<in> set lambdaMethods")
  case True
  then obtain l where l: "lams = [Some l]" "length (fst l) = 1" using assms(2) by (auto simp: methodShape_def)
  then obtain C where "cs = [C]" using assms(4) by (auto simp: length_Suc_conv Suc_length_conv)
  then show ?thesis using sat_lambdaMethod [OF assms(1) disjI1 [OF True] l(2)] args [of 0] l(1) by simp
next
  case nl: False
  show ?thesis
  proof (cases "name \<in> {''distinct'', ''take'', ''skip'', ''reduce''}")
    case False
    then show ?thesis by (rule sat_plainMethod [OF assms(1) nl])
  next
    case True
    then show ?thesis
    proof (elim insertE emptyE)
      assume "name = ''distinct''"
      then show ?thesis using sat_distinct [OF assms(1,3,4) args] assms(2) by (simp add: methodShape_def)
    next
      assume n: "name = ''reduce''"
      then obtain l where l: "lams = [None, Some l]" "length (fst l) = 2" using assms(2) by (auto simp: methodShape_def)
      then obtain c C m m' where "cs = [c, C]" "argc = [m, m']" using assms(3,4) by (auto simp: length_Suc_conv Suc_length_conv)
      then show ?thesis using n args [of 0] args [of 1] sat_reduce [OF assms(1) _ _ l(2), of c m C] l(1)
        by (simp add: listMethod_def withArg_def)
    qed (use sat_takeSkip [OF assms(1,3,4) args] assms(2) in \<open>simp_all add: methodShape_def\<close>)
  qed
qed

end

end
