(* ===== verification/ExprSound.thy ===== *)
theory ExprSound
  imports ExprLogic
begin

text \<open>
  The calls of the expression language under the logic of ExprLogic, and the induction over the
  evaluator that carries a law of the step counter and a law of values through every node at once.
\<close>

section \<open>Calls\<close>

lemma catalog_functions:
  "list_all (\<lambda>f. exprCatalog (cf_Name f) = Some f \<and> list_all (\<lambda>p. \<not> snd p) (cf_Params f)) functionEntries"
  by code_simp

definition unaryFunctions :: "string list" where
  "unaryFunctions = [''lower'', ''upper'', ''trim'', ''hash'', ''shortId'', ''toString'', ''error'', ''var'', ''systemVar'', ''secret'', ''systemSecret'']"

definition binaryFunctions :: "string list" where
  "binaryFunctions = [''canonicalId'', ''addDuration'', ''daysBetween'']"

lemma functions_arity:
  "list_all (\<lambda>f. cf_Name f \<in> set unaryFunctions \<and> length (cf_Params f) = 1 \<or>
                 cf_Name f \<in> set binaryFunctions \<and> length (cf_Params f) = 2) functionEntries"
  by code_simp

lemma function_args:
  assumes "exprCatalog name = Some fn" "name \<in> set exprFunctionImpls" "exprCheckShape fn args named"
  shows "name \<in> set unaryFunctions \<and> length args = 1 \<or> name \<in> set binaryFunctions \<and> length args = 2"
proof -
  obtain f where f: "f \<in> set functionEntries" "name = cf_Name f" using assms(2) by (auto simp: exprFunctionImpls_def)
  have "fn = f" "list_all (\<lambda>p. \<not> snd p) (cf_Params f)"
    using catalog_functions f assms(1) by (auto simp: list_all_iff)
  moreover from this(2) have "filter (\<lambda>p. \<not> snd p) (cf_Params f) = cf_Params f" by (simp add: list_all_iff filter_id_conv)
  ultimately have "length args = length (cf_Params f)" using assms(3) by (simp add: exprCheckShape_def)
  then show ?thesis using functions_arity f by (auto simp: list_all_iff)
qed

context eval_law
begin

lemma sat_variable: "sat P c okv (variable o1 fn v)"
  by (auto simp: variable_def intro!: sat_refuse sat_then [OF sat_askHook [where Q = "\<lambda>_. True"]] sat_ret ok_atoms
        split: xval.split option.split)

lemma sat_canonicalID: "sat P c okv (canonicalID o1 v w)"
  by (auto simp: canonicalID_def Let_def intro!: sat_refuse sat_then [OF sat_askHook [where Q = "\<lambda>_. True"]] sat_ret ok_atoms
        split: xval.split option.split)

lemma sat_stringArg: "sat P c (\<lambda>_. True) (lift (exprStringArg v))"
  by (rule sat_lift) (auto simp: exprStringArg_def split: xval.splits)

lemma intOfFloat_range: "in64 (intOfFloat f)"
  by (auto simp: intOfFloat_def in64_def MinInt64_def MaxInt64_def split: float64.split)

lemma sat_dates: "sat P c okv (exprAddDuration lib v w)" "sat P c okv (exprDaysBetween lib v w)"
  unfolding exprAddDuration_def exprDaysBetween_def EvaluateDaysBetween_def
  by (intro sat_andThen_le [OF sat_stringArg [of 0]] sat_andThen_le [OF sat_stringArg [of 0]];
      auto intro!: sat_refuse sat_ret ok_atoms ok_int intOfFloat_range split: option.split)+

lemma sat_functionImpl:
  assumes "name \<in> set unaryFunctions \<and> length vs = 1 \<or> name \<in> set binaryFunctions \<and> length vs = 2"
  shows "sat P c okv (functionImpl o1 name vs)"
  using assms
proof (elim disjE conjE)
  assume n: "name \<in> set unaryFunctions" and "length vs = 1"
  then obtain v where vs: "vs = [v]" by (auto simp: length_Suc_conv)
  have r: "sat P c okv (ret (VString t))" for t by (rule sat_ret) (rule ok_atoms)
  have "sat P c okv (fail (Raised t))" for t by (rule sat_fail) simp_all
  with r sat_variable show ?thesis using n unfolding vs unaryFunctions_def list.set insert_iff empty_iff
    by (elim disjE FalseE) (simp_all add: functionImpl_def)
next
  assume n: "name \<in> set binaryFunctions" and "length vs = 2"
  then obtain v w where vs: "vs = [v, w]" by (auto simp: length_Suc_conv numeral_2_eq_2)
  show ?thesis using n unfolding vs binaryFunctions_def list.set insert_iff empty_iff
    by (elim disjE FalseE) (simp_all add: functionImpl_def sat_canonicalID sat_dates)
qed

lemma sat_constructCall:
  assumes "list_all2 (\<lambda>c km. sat P c okv (snd km)) cs ms"
  shows "sat P (sum_list cs) okv (constructCall o1 kind name args ms)"
  unfolding constructCall_def
  by (auto intro!: sat_refuse sat_then [OF sat_mapEntries [OF assms ok_nomap]] sat_askHook calls_ok split: option.split)

lemma sat_applyPredicate:
  assumes "list_all2 (\<lambda>c m. sat P c okv m) cs argc" "\<And>v st. okv v \<Longrightarrow> sat P pc (\<lambda>_. True) (applyBody v st)"
  shows "sat P (pc + sum_list cs) okv (applyPredicate o1 sc args named argc applyBody)"
proof -
  have 1: "sat P (pc + c) okv (andThen m (\<lambda>v. andThen (applyBody v st) (\<lambda>b. ret (VBool b))))"
    if "sat P c okv m" for c m st
    by (rule sat_andThen_le [OF that sat_bool [OF assms(2)]]) (simp_all add: add.commute)
  show ?thesis
  proof (cases "\<exists>a m. args = [a] \<and> argc = [m]")
    case True
    then obtain a m where am: "args = [a]" "argc = [m]" by blast
    then obtain c where "cs = [c]" "sat P c okv m" using assms(1) by (auto simp: list_all2_Cons2)
    then show ?thesis using 1 by (simp add: applyPredicate_def am sat_refuse)
  next
    case False
    then show ?thesis by (auto simp: applyPredicate_def intro!: sat_refuse split: list.split)
  qed
qed

lemma sat_callFunction:
  assumes "list_all2 (\<lambda>c m. sat P c okv m) cs argc" "length args = length argc"
    and body: "\<And>h p b v st. eo_Predicates o1 = Some h \<Longrightarrow> h name = Some (p, b) \<Longrightarrow> okv v \<Longrightarrow>
                 sat P pc (\<lambda>_. True) (applyBody p b v st)"
  shows "sat P ((if catalogFunction name = None then pc else 0) + sum_list cs) okv
           (callFunction o1 sc name args named argc applyBody)"
proof (cases "catalogFunction name")
  case (Some fn)
  then have fn: "exprCatalog name = Some fn" by (auto simp: catalogFunction_def split: option.splits if_splits)
  have "sat P (sum_list cs) okv (andThen (evalArgs argc) (functionImpl o1 name))"
    if "name \<in> set exprFunctionImpls" "exprCheckShape fn args named"
    using function_args [OF fn that] assms(2) by (intro sat_then [OF sat_evalArgs [OF assms(1)]] sat_functionImpl) simp
  then show ?thesis unfolding callFunction_def Some by (simp add: sat_refuse)
next
  case None
  show ?thesis
  proof (cases "case eo_Predicates o1 of None \<Rightarrow> None | Some h \<Rightarrow> h name")
    case n: None
    show ?thesis unfolding callFunction_def None n by (simp add: sat_refuse)
  next
    case (Some pb)
    then obtain h p b where h: "eo_Predicates o1 = Some h" "h name = Some (p, b)" by (cases pb) (auto split: option.splits)
    have "callFunction o1 sc name args named argc applyBody = applyPredicate o1 sc args named argc (applyBody p b)"
      by (simp add: callFunction_def None h)
    then show ?thesis using sat_applyPredicate [OF assms(1) body [OF h]] by (simp add: None)
  qed
qed

lemma sat_stringIncludes: "sat P c okv m \<Longrightarrow> sat P c okv (stringIncludes recv m)"
proof -
  assume m: "sat P c okv m"
  have "sat P c okv (andThen m (\<lambda>needle. case needle of
                VNil \<Rightarrow> ret (VBool False)
              | VAbsent \<Rightarrow> ret (VBool False)
              | VString n \<Rightarrow>
                  if TrimSpace n = '''' then ret (VBool False)
                  else (case recv of VString s \<Rightarrow> ret (VBool (Contains s n)) | _ \<Rightarrow> ret (VBool False))
              | _ \<Rightarrow> refuse ''invalid_argument''))"
    by (rule sat_then [OF m]) (auto intro!: sat_ret sat_refuse ok_atoms split: xval.split)
  then show ?thesis by (auto simp: stringIncludes_def sat_refuse split: xval.split)
qed

lemma sat_absentReceiver:
  assumes "name = ''reduce'' \<Longrightarrow> \<exists>m ms. argc = m # ms \<and> sat P c okv m"
  shows "sat P c okv (absentReceiverMethod name argc)"
proof -
  have "okv (VInt 0)" "okv (VFloat (Fin 0))" "okv (VList [])"
    by (auto intro: ok_int ok_float ok_literal simp: in64_def MinInt64_def MaxInt64_def enat_0)
  then have r: "sat P c okv (ret (VInt 0))" "sat P c okv (ret (VFloat (Fin 0)))" "sat P c okv (ret (VList []))"
    "sat P c okv (ret VAbsent)" "sat P c okv (ret VNil)" "sat P c okv (ret (VBool b))" for b
    by (simp_all add: sat_ret ok_atoms)
  show ?thesis
  proof (cases "name = ''reduce''")
    case True
    then show ?thesis using assms by (auto simp: absentReceiverMethod_def withArg_def)
  next
    case False
    then show ?thesis unfolding absentReceiverMethod_def by (simp only: if_False r sat_refuse split: if_split) simp
  qed
qed

lemma sat_methodOn:
  assumes recv: "okv recv" and fn: "listFn = exprMethodEntry ''list'' name" "strFn = exprMethodEntry ''string'' name"
    and fits: "listFn = None \<Longrightarrow> \<exists>f. strFn = Some f \<and> exprCheckShape f args named"
    and lams: "list_all2 lamOf args lams" and len: "length argc = length cs" "length lams = length cs"
    and args: "\<And>i. i < length cs \<Longrightarrow>
      (case lams ! i of None \<Rightarrow> sat P (cs ! i) okv (argc ! i) | Some l \<Rightarrow> lam_ok P okv M (cs ! i) l)"
  shows "sat P (sum_list cs) okv (methodOn o1 name st args named argc lams listFn strFn recv)"
proof (cases listFn)
  case None
  show ?thesis
  proof (cases "name = ''includes''")
    case True
    then have "exprCheckShape (methodEntry ''string'' ''includes'' [''string'']) args named"
      using fits [OF None] fn(2) by (auto simp: catalog_others)
    then have "lams = [None]" using shape_one_value [OF _ _ lams] by (simp add: methodEntry_def)
    then obtain c m where "cs = [c]" "argc = [m]" using len by (auto simp: length_Suc_conv Suc_length_conv)
    then show ?thesis using args [of 0] True \<open>lams = [None]\<close> sat_stringIncludes
      by (simp add: methodOn_def None withArg_def)
  next
    case False
    then show ?thesis by (simp add: methodOn_def None sat_refuse)
  qed
next
  case (Some lf)
  have shape: "methodShape name lams" if "exprCheckShape lf args named"
    by (rule check_methodShape [OF _ that lams]) (use Some fn(1) in simp)
  have stored: "sat P (sum_list cs) okv (ret (the (exprStoredListAnswer name)))" if "exprStoredListAnswer name \<noteq> None"
    using that by (auto simp: exprStoredListAnswer_def ok_atoms in64_def MinInt64_def MaxInt64_def
                        intro!: sat_ret ok_int split: if_splits)
  have str: "sat P (sum_list cs) okv (ret (VInt (wrap64 n)))" for n
    by (intro sat_ret ok_int wrap64_range)
  have lst: "sat P (sum_list cs) okv (listMethod lib name st argc lams coll)"
    if "exprCheckShape lf args named" "exprCollection recv = Some (Some coll)" for lib coll
    by (rule sat_listMethod [OF ok_collection [OF recv that(2)] shape [OF that(1)] len args])
  have absent: "sat P (sum_list cs) okv (absentReceiverMethod name argc)" if sh: "exprCheckShape lf args named"
  proof (rule sat_absentReceiver)
    assume "name = ''reduce''"
    then obtain l where l: "lams = [None, Some l]" using shape [OF sh] by (auto simp: methodShape_def)
    then obtain c C m m' where "cs = [c, C]" "argc = [m, m']" using len by (auto simp: length_Suc_conv Suc_length_conv)
    moreover from this have "sat P c okv m" using args [of 0] l by simp
    ultimately show "\<exists>m ms. argc = m # ms \<and> sat P (sum_list cs) okv m" by (auto intro: sat_weaken)
  qed
  have l: "sat P (sum_list cs) okv (if \<not> exprCheckShape lf args named then refuse ''argument_count''
               else (case exprCollection recv of
                  None \<Rightarrow> refuse ''operand_type''
                | Some None \<Rightarrow> absentReceiverMethod name argc
                | Some (Some coll) \<Rightarrow> listMethod (eo_lib o1) name st argc lams coll))"
    using lst absent by (simp add: sat_refuse split: option.split)
  show ?thesis
  proof (cases "isString recv")
    case True
    then obtain s where "recv = VString s" by (cases recv) auto
    then show ?thesis using stored by (simp add: methodOn_def Some str sat_refuse split: option.split)
  next
    case False
    then show ?thesis unfolding methodOn_def Some using stored l by (cases recv) simp_all
  qed
qed

lemma sat_callMethod:
  assumes "sat P rc okv m" and lams: "list_all2 lamOf args lams" and len: "length argc = length cs" "length lams = length cs"
    and args: "\<And>i. i < length cs \<Longrightarrow>
      (case lams ! i of None \<Rightarrow> sat P (cs ! i) okv (argc ! i) | Some l \<Rightarrow> lam_ok P okv M (cs ! i) l)"
  shows "sat P (rc + sum_list cs) okv (callMethod o1 sc name receiver args named m argc lams)"
proof -
  have "sat P (rc + sum_list cs) okv
      (andThen m (methodOn o1 name st args named argc lams (exprMethodEntry ''list'' name) (exprMethodEntry ''string'' name)))"
    if "exprMethodEntry ''list'' name = None \<Longrightarrow> \<exists>f. exprMethodEntry ''string'' name = Some f \<and> exprCheckShape f args named" for st
    by (rule sat_andThen [OF assms(1)], rule sat_methodOn [OF _ refl refl that lams len args])
  then show ?thesis
    by (auto simp: callMethod_def Let_def sat_refuse split: option.split)
qed

section \<open>The induction\<close>

abbreviation good :: "expr \<Rightarrow> bool" where
  "good \<equiv> allNodes (nodeOk okv N withPlus)"

lemma sat_map2:
  assumes "\<And>x. x \<in> set xs \<Longrightarrow> sat P (c x) okv (m x)"
  shows "list_all2 (\<lambda>c m. sat P c okv m) (map c xs) (map m xs)"
  using assms by (induction xs) auto

lemma sat_map2_snd:
  assumes "\<And>p. p \<in> set ps \<Longrightarrow> sat P (c p) okv (m p)"
  shows "list_all2 (\<lambda>c km. sat P c okv (snd km)) (map c ps) (map (\<lambda>p. (fst p, m p)) ps)"
  using assms by (induction ps) auto

lemma sat_call:
  assumes g: "good (CallE kind name rcv args named)" and sc: "scope_ok okv sc"
    and ihn: "\<And>p. kind \<noteq> '''' \<Longrightarrow> p \<in> set named \<Longrightarrow> sat P (costOf M pc (snd p)) okv (eval o1 d sc (snd p))"
    and iha: "\<And>a. a \<in> set args \<Longrightarrow> sat P (costOf M pc a) okv (eval o1 d sc a)"
    and ihr: "\<And>r. kind = '''' \<Longrightarrow> rcv = Some r \<Longrightarrow> sat P (costOf M pc r) okv (eval o1 d sc r)"
    and ihl: "\<And>r a ps b bs. kind = '''' \<Longrightarrow> rcv = Some r \<Longrightarrow> a \<in> set args \<Longrightarrow> Unparen a = LambdaE ps b \<Longrightarrow> \<forall>x \<in> set bs. okv (fst (snd x)) \<Longrightarrow>
       sat P (costOf M pc b) okv (eval o1 d (LambdaScope bs sc) b) \<and>
       sat P (costOf M pc b) (\<lambda>_. True) (evalCondition o1 d (LambdaScope bs sc) b)"
    and ihp: "\<And>p b v st. kind = '''' \<Longrightarrow> rcv = None \<Longrightarrow> \<not> exprMaxPredicateDepth \<le> d \<Longrightarrow> good b \<Longrightarrow> okv v \<Longrightarrow>
       sat P (costOf M pc b) (\<lambda>_. True) (evalCondition o1 (Suc d) (LambdaScope [(p, v, st)] RootScope) b)"
  shows "sat P (costOf M pc (CallE kind name rcv args named)) okv (eval o1 d sc (CallE kind name rcv args named))"
proof -
  let ?ac = "\<lambda>a. case Unparen a of LambdaE ps b \<Rightarrow> if rcv \<noteq> None then M * costOf M pc b else costOf M pc a | _ \<Rightarrow> costOf M pc a"
  let ?A = "sum_list (map ?ac args)" and ?Nm = "sum_list (map (\<lambda>p. costOf M pc (snd p)) named)"
  let ?lam = "\<lambda>a. case Unparen a of
      LambdaE ps b \<Rightarrow> Some (ps, \<lambda>bs. eval o1 d (LambdaScope bs sc) b, \<lambda>bs. evalCondition o1 d (LambdaScope bs sc) b)
    | _ \<Rightarrow> None"
  let ?body = "\<lambda>param body v stored.
      if exprMaxPredicateDepth \<le> d then refuse ''predicate_depth_exceeded''
      else evalCondition o1 (Suc d) (LambdaScope [(param, v, stored)] RootScope) body"
  let ?argc = "map (\<lambda>a. eval o1 d sc a) args" and ?namedc = "map (\<lambda>p. (fst p, eval o1 d sc (snd p))) named"
  let ?r = "case rcv of None \<Rightarrow> (if kind = '''' \<and> catalogFunction name = None then pc else 0) | Some r \<Rightarrow> costOf M pc r"
  have con: "sat P (c + (?A + ?Nm)) okv (constructCall o1 kind name args ?namedc)" if "kind \<noteq> ''''" for c
    by (rule sat_weaken [OF sat_constructCall [OF sat_map2_snd [OF ihn [OF that]]]])
       (simp_all add: add.assoc [symmetric] add_increasing)
  have met: "sat P (costOf M pc r + (?A + ?Nm)) okv
      (callMethod o1 sc name r args named (eval o1 d sc r) ?argc (map ?lam args))" if r: "kind = ''''" "rcv = Some r" for r
  proof (rule sat_weaken [OF sat_callMethod [OF ihr [OF r], where cs = "map ?ac args"]])
    show "list_all2 lamOf args (map ?lam args)"
      by (auto simp: list_all2_conv_all_nth lamOf_def split: expr.split)
  next
    fix i assume "i < length (map ?ac args)"
    then have i: "i < length args" "args ! i \<in> set args" by simp_all
    show "case map ?lam args ! i of
            None \<Rightarrow> sat P (map ?ac args ! i) okv (?argc ! i)
          | Some l \<Rightarrow> lam_ok P okv M (map ?ac args ! i) l"
    proof (cases "Unparen (args ! i)")
      case (LambdaE ps b)
      then show ?thesis using i ihl [OF r i(2) LambdaE] r(2) by auto
    qed (use i iha [OF i(2)] in simp_all)
  qed (simp_all add: add.assoc [symmetric])
  have fun_body: "sat P pc (\<lambda>_. True) (?body p b v st)"
    if "eo_Predicates o1 = Some h" "h name = Some (p, b)" "okv v" "kind = ''''" "rcv = None" for h p b v st
  proof (cases "exprMaxPredicateDepth \<le> d")
    case False
    then show ?thesis
      using sat_weaken [OF ihp [OF that(4,5) False _ that(3)], of b pc] preds_ok [OF that(1,2)] by simp
  qed (simp add: sat_refuse)
  have fnc: "sat P ((if kind = '''' \<and> catalogFunction name = None then pc else 0) + (?A + ?Nm)) okv
      (callFunction o1 sc name args named ?argc ?body)" if "kind = ''''" "rcv = None"
  proof (rule sat_weaken [OF sat_callFunction [OF sat_map2 [OF iha]]])
    have A: "?A = sum_list (map (\<lambda>a. costOf M pc a) args)"
      using that(2) by (intro arg_cong [where f = sum_list] map_cong) (auto split: expr.split)
    show "(if catalogFunction name = None then pc else 0) + sum_list (map (\<lambda>a. costOf M pc a) args)
        \<le> (if kind = '''' \<and> catalogFunction name = None then pc else 0) + (?A + ?Nm)"
      unfolding A using that(1) by (intro add_mono) simp_all
  qed (use fun_body that in simp_all)
  have "sat P (?r + (?A + ?Nm)) okv
     (let argc = ?argc
       in if kind \<noteq> '''' then constructCall o1 kind name args ?namedc
          else case rcv of
            Some r \<Rightarrow> callMethod o1 sc name r args named (eval o1 d sc r) argc (map ?lam args)
          | None \<Rightarrow> callFunction o1 sc name args named argc ?body)"
  proof (cases "kind = ''''")
    case k: True
    show ?thesis
    proof (cases rcv)
      case None
      then show ?thesis using fnc [OF k None] k by (simp only: Let_def option.case simp_thms if_True if_False)
    next
      case (Some r)
      then show ?thesis using met [OF k Some] k by (simp only: Let_def option.case simp_thms if_True if_False)
    qed
  next
    case False
    then show ?thesis using con [OF False] by (simp only: Let_def simp_thms if_True)
  qed
  then show ?thesis unfolding eval.simps costOf.simps by (rule sat_step)
qed

lemma sat_step0: "sat P 0 Q m \<Longrightarrow> sat P 1 Q (andThen (tick o1) (\<lambda>_. m))"
  using sat_step [of 0 Q m] by (simp only: add_0_right)

lemma sat_either:
  assumes "sat P a Q m" "sat P b Q n"
  shows "sat P (a + b) Q (if ok then m else n)"
  using sat_weaken [OF assms(1), of "a + b" Q] sat_weaken [OF assms(2), of "a + b" Q] by simp

lemma sat_eval_both:
  shows "v = o1 \<longrightarrow> scope_ok okv sc \<longrightarrow> good e \<longrightarrow> sat P (costOf M pc e) okv (eval v d sc e)"
    and "v2 = o1 \<longrightarrow> scope_ok okv sc2 \<longrightarrow> good e2 \<longrightarrow> sat P (costOf M pc e2) (\<lambda>_. True) (evalCondition v2 d2 sc2 e2)"
proof (induction v d sc e and v2 d2 sc2 e2 rule: eval_evalCondition.induct)
  case (3 v d sc kind name rcv args named)
  show ?case
  proof (intro impI)
    assume v: "v = o1" and sc: "scope_ok okv sc" and g: "good (CallE kind name rcv args named)"
    have l: "good b" if "a \<in> set args" "Unparen a = LambdaE ps b" for a ps b
      by (rule allNodes_Unparen [OF _ that(2)]) (use g that(1) in \<open>simp add: list_all_iff\<close>)
    show "sat P (costOf M pc (CallE kind name rcv args named)) okv (eval v d sc (CallE kind name rcv args named))"
      unfolding v
      by (rule sat_call [OF g sc])
         (insert 3 [unfolded v] sc g l, simp_all add: list_all_iff)
  qed
next
  case (2 v d sc ob f)
  then show ?case by (auto intro!: sat_step sat_then [where Q = okv] sat_ret ok_member simp only: eval.simps costOf.simps allNodes.simps)
next
  case (4 v d sc opr e)
  then show ?case by (auto intro!: sat_step sat_unary simp only: eval.simps costOf.simps allNodes.simps)
next
  case (5 v d sc opr l r)
  then show ?case
    by (auto intro!: sat_step sat_binary simp only: eval.simps costOf.simps allNodes.simps nodeOk_def expr.case)
next
  case (6 v d sc c t e)
  show ?case
  proof (intro impI)
    assume v: "v = o1" and sc: "scope_ok okv sc" and g: "good (TernaryE c t e)"
    have "sat P (costOf M pc c) (\<lambda>_. True) (evalCondition o1 d sc c)" "sat P (costOf M pc t) okv (eval o1 d sc t)"
      "sat P (costOf M pc e) okv (eval o1 d sc e)"
      using 6(1) 6(2) [of True] 6(3) [of False] v sc g by simp_all
    then show "sat P (costOf M pc (TernaryE c t e)) okv (eval v d sc (TernaryE c t e))"
      unfolding eval.simps costOf.simps v by (intro sat_step sat_andThen sat_either)
  qed
next
  case (7 v d sc es)
  show ?case
  proof (intro impI)
    assume v: "v = o1" and sc: "scope_ok okv sc" and g: "good (ListE es)"
    have n: "enat (length es) \<le> N" using g by (simp add: nodeOk_def)
    have "\<And>e. e \<in> set es \<Longrightarrow> sat P (costOf M pc e) okv (eval o1 d sc e)"
      using 7 v sc g by (simp add: list_all_iff)
    then show "sat P (costOf M pc (ListE es)) okv (eval v d sc (ListE es))"
      unfolding eval.simps costOf.simps v
      by (intro sat_step sat_then [OF sat_listLiteral [OF sat_map2]] sat_ret ok_literal)
         (auto intro: order_trans [OF _ n])
  qed
next
  case (8 v d sc es)
  show ?case
  proof (intro impI)
    assume v: "v = o1" and sc: "scope_ok okv sc" and g: "good (MapE es)"
    have "\<And>p. p \<in> set es \<Longrightarrow> sat P (costOf M pc (snd p)) okv (eval o1 d sc (snd p))"
      using 8 v sc g by (simp add: list_all_iff)
    then show "sat P (costOf M pc (MapE es)) okv (eval v d sc (MapE es))"
      unfolding eval.simps costOf.simps v
      by (intro sat_step sat_then [OF sat_mapEntries [OF sat_map2_snd ok_nomap]] sat_ret) auto
  qed
next
  case (14 v d sc c t e)
  show ?case
  proof (intro impI)
    assume v: "v = o1" and sc: "scope_ok okv sc" and g: "good (TernaryE c t e)"
    have "sat P (costOf M pc c) (\<lambda>_. True) (evalCondition o1 d sc c)"
      "sat P (costOf M pc t) (\<lambda>_. True) (evalCondition o1 d sc t)"
      "sat P (costOf M pc e) (\<lambda>_. True) (evalCondition o1 d sc e)"
      using 14(1) 14(2) [of True] 14(3) [of False] v sc g by simp_all
    then show "sat P (costOf M pc (TernaryE c t e)) (\<lambda>_. True) (evalCondition v d sc (TernaryE c t e))"
      unfolding evalCondition.simps costOf.simps v by (intro sat_step sat_andThen sat_either)
  qed
qed (auto intro: sat_step sat_step0 sat_ident sat_ret sat_refuse sat_then [OF _ sat_condition] ok_atoms
       simp only: eval.simps evalCondition.simps costOf.simps allNodes.simps nodeOk_def expr.case)

lemma eval_sat: "scope_ok okv sc \<Longrightarrow> good e \<Longrightarrow> sat P (costOf M pc e) okv (eval o1 d sc e)"
  using sat_eval_both(1) by blast

lemma evalCondition_sat:
  "scope_ok okv sc \<Longrightarrow> good e \<Longrightarrow> sat P (costOf M pc e) (\<lambda>_. True) (evalCondition o1 d sc e)"
  using sat_eval_both(2) by blast

end

end
