(* ===== verification/ExprTypes.thy ===== *)
theory ExprTypes
  imports ExprSound
begin

text \<open>
  The two interfaces of ExprLogic on the evaluator's own definitions, and what the induction of
  ExprSound then says: an evaluation never panics and stops within its budget, a value it answers
  is well formed, and one the loader admits by its estimated cost finishes within the budget on
  collections of the assumed size.
\<close>

section \<open>Integer arithmetic\<close>

lemma sdiv_range:
  assumes "in64 x" "\<not> (x = MinInt64 \<and> y = - 1)"
  shows "in64 (x sdiv y)"
proof -
  have b: "- \<bar>x\<bar> \<le> x sdiv y" "x sdiv y \<le> \<bar>x\<bar>" using sdiv_int_range [of x y] by auto
  show ?thesis
  proof (cases "x = MinInt64")
    case True
    then have "x sdiv y \<noteq> - x" using assms(2) int_sdiv_negated_is_minus1 [of x y] by (auto simp: MinInt64_def)
    then show ?thesis using b True by (auto simp: in64_def MinInt64_def MaxInt64_def)
  next
    case False
    then show ?thesis using b assms(1) by (auto simp: in64_def MinInt64_def MaxInt64_def)
  qed
qed

lemma smod_between: "(0 \<le> x \<longrightarrow> 0 \<le> x smod y \<and> x smod y \<le> x) \<and> (x < 0 \<longrightarrow> x \<le> x smod y \<and> x smod y \<le> 0)" for x y :: int
proof -
  have "\<bar>x\<bar> mod \<bar>y\<bar> \<le> \<bar>x\<bar>" "0 \<le> \<bar>x\<bar> mod \<bar>y\<bar>"
    by (cases "y = 0"; simp add: zmod_le_nonneg_dividend)+
  then show ?thesis by (auto simp: signed_modulo_int_def sgn_if)
qed

lemma smod_range: "in64 x \<Longrightarrow> in64 (x smod y)"
  using smod_between [of x y] by (cases "0 \<le> x") (auto simp: in64_def MinInt64_def MaxInt64_def)

text \<open>The test of the product: what was wrapped does not divide back.\<close>

lemma product_test:
  assumes "in64 x" "in64 y" "x \<noteq> 0" "y \<noteq> 0"
  shows "(wrap64 (wrap64 (x * y) sdiv y) \<noteq> x \<or> (x = - 1 \<and> y = MinInt64) \<or> (y = - 1 \<and> x = MinInt64))
         \<longleftrightarrow> \<not> in64 (x * y)"
proof (cases "in64 (x * y)")
  case True
  have "x * y sdiv y = x"
    using assms(4) by (simp add: signed_divide_int_def abs_mult sgn_mult) (auto simp: sgn_if)
  then show ?thesis using True assms(1,2)
    by (auto simp: wrap64_id in64_def MinInt64_def MaxInt64_def)
next
  case False
  have "\<not> (x = MinInt64 \<and> y = - 1) \<Longrightarrow> \<not> (x = - 1 \<and> y = MinInt64) \<Longrightarrow> wrap64 (wrap64 (x * y) sdiv y) \<noteq> x"
  proof
    assume h: "\<not> (x = MinInt64 \<and> y = - 1)" "\<not> (x = - 1 \<and> y = MinInt64)" "wrap64 (wrap64 (x * y) sdiv y) = x"
    let ?p = "wrap64 (x * y)"
    have "\<not> (?p = MinInt64 \<and> y = - 1)"
    proof
      assume p: "?p = MinInt64 \<and> y = - 1"
      then have "in64 (- x)" using h(1) assms(1) by (auto simp: in64_def MinInt64_def MaxInt64_def)
      then show False using p wrap64_id [of "- x"] assms(1) by (auto simp: in64_def MinInt64_def MaxInt64_def)
    qed
    then have q: "?p sdiv y = x" using h(3) wrap64_id [OF sdiv_range [OF wrap64_range]] by metis
    have "?p = x * y + ?p smod y" using mult_sdiv_smod_eq [of y ?p] by (simp add: q mult.commute)
    moreover define k where "k = (x * y + 9223372036854775808) div 18446744073709551616"
    have "?p = x * y - 18446744073709551616 * k"
      by (simp add: k_def wrap64_def minus_mult_div_eq_mod [symmetric])
    ultimately have e: "?p smod y = - 18446744073709551616 * k" by linarith
    moreover have "\<bar>?p smod y\<bar> < 9223372036854775808"
      using smod_int_range [OF assms(4), of ?p] assms(2) by (auto simp: in64_def MinInt64_def MaxInt64_def)
    ultimately have "k = 0" by simp
    then have "?p smod y = 0" using e by simp
    then have "?p = x * y" using \<open>?p = x * y + ?p smod y\<close> by simp
    then show False using False wrap64_range [of "x * y"] by simp
  qed
  then show ?thesis using False by blast
qed

text \<open>What the operators mean on integers, without a width, and the refusals.\<close>

definition exactInt :: "string \<Rightarrow> int \<Rightarrow> int \<Rightarrow> int" where
  "exactInt opr x y =
     (if opr = ''+'' then x + y else if opr = ''-'' then x - y else if opr = ''*'' then x * y
      else if opr = ''/'' then x sdiv y else x smod y)"

definition intSpec :: "string \<Rightarrow> int \<Rightarrow> int \<Rightarrow> int res" where
  "intSpec opr x y =
     (if (opr = ''/'' \<or> opr = ''%'') \<and> y = 0 then Inl (ExprError ''division_by_zero'')
      else if in64 (exactInt opr x y) then Inr (exactInt opr x y)
      else Inl (ExprError ''arithmetic_overflow''))"

lemma intArithmetic_spec:
  assumes "in64 x" "in64 y" "opr \<in> {''+'', ''-'', ''*'', ''/'', ''%''}"
  shows "intArithmetic opr x y = intSpec opr x y"
  using assms(3)
proof (elim insertE emptyE)
  assume o: "opr = ''+''"
  have "(0 < y \<and> MaxInt64 - y < x) \<or> (y < 0 \<and> x < MinInt64 - y) \<longleftrightarrow> \<not> in64 (x + y)"
    using assms(1,2) by (auto simp: in64_def)
  then show ?thesis by (simp add: o intArithmetic_def intSpec_def exactInt_def overflow_def wrap64_id)
next
  assume o: "opr = ''-''"
  have "(y < 0 \<and> MaxInt64 + y < x) \<or> (0 < y \<and> x < MinInt64 + y) \<longleftrightarrow> \<not> in64 (x - y)"
    using assms(1,2) by (auto simp: in64_def)
  then show ?thesis by (simp add: o intArithmetic_def intSpec_def exactInt_def overflow_def wrap64_id)
next
  assume o: "opr = ''*''"
  have "x \<noteq> 0 \<and> y \<noteq> 0 \<and>
      (wrap64 (wrap64 (x * y) sdiv y) \<noteq> x \<or> (x = - 1 \<and> y = MinInt64) \<or> (y = - 1 \<and> x = MinInt64)) \<longleftrightarrow> \<not> in64 (x * y)"
    using product_test [OF assms(1,2)] by (cases "x = 0 \<or> y = 0") (auto simp: in64_def MinInt64_def MaxInt64_def)
  then show ?thesis unfolding o intArithmetic_def intSpec_def exactInt_def overflow_def by (simp add: wrap64_id)
next
  assume o: "opr = ''/''"
  have "\<not> in64 (MinInt64 sdiv - 1)" by (simp add: in64_def MinInt64_def MaxInt64_def)
  then show ?thesis using sdiv_range [OF assms(1), of y]
    by (auto simp: o intArithmetic_def intSpec_def exactInt_def overflow_def)
next
  assume o: "opr = ''%''"
  have "x smod - 1 = 0" by (simp add: signed_modulo_int_def)
  then show ?thesis using smod_range [OF assms(1), of y]
    by (auto simp: o intArithmetic_def intSpec_def exactInt_def)
qed

section \<open>Well-formed values\<close>

text \<open>
  A value inside a container: no sentinel, 64-bit integers, finite numbers, distinct keys, lists of
  at most \<open>N\<close> elements. A top-level value may also be the sentinel.
\<close>

fun wfIn :: "enat \<Rightarrow> xval \<Rightarrow> bool" where
  "wfIn N VNil \<longleftrightarrow> True"
| "wfIn N VAbsent \<longleftrightarrow> False"
| "wfIn N (VBool _) \<longleftrightarrow> True"
| "wfIn N (VString _) \<longleftrightarrow> True"
| "wfIn N (VInt i) \<longleftrightarrow> in64 i"
| "wfIn N (VFloat f) \<longleftrightarrow> is_fin f"
| "wfIn N (VList xs) \<longleftrightarrow> enat (length xs) \<le> N \<and> list_all (wfIn N) xs"
| "wfIn N (VMap m) \<longleftrightarrow> distinct (map fst m) \<and> list_all (\<lambda>p. wfIn N (snd p)) m"
| "wfIn N (VRow _ _ _ _ _ prov payload) \<longleftrightarrow>
     (case prov of None \<Rightarrow> True | Some m \<Rightarrow> distinct (map fst m) \<and> list_all (\<lambda>p. wfIn N (snd p)) m) \<and>
     (case payload of None \<Rightarrow> True | Some m \<Rightarrow> distinct (map fst m) \<and> list_all (\<lambda>p. wfIn N (snd p)) m)"

definition wfTop :: "enat \<Rightarrow> xval \<Rightarrow> bool" where
  "wfTop N v \<longleftrightarrow> v = VAbsent \<or> wfIn N v"

lemma wfTop_simps:
  "wfTop N VNil" "wfTop N VAbsent" "wfTop N (VBool b)" "wfTop N (VString t)" "wfTop N (VInt i) \<longleftrightarrow> in64 i"
  "wfTop N (VFloat f) \<longleftrightarrow> is_fin f" "wfTop N (VMap [])"
  "wfTop N (VList xs) \<longleftrightarrow> enat (length xs) \<le> N \<and> list_all (wfIn N) xs"
  by (simp_all add: wfTop_def)

lemma wfTop_cases: "wfTop N v \<Longrightarrow> v \<noteq> VAbsent \<Longrightarrow> wfIn N v"
  by (simp add: wfTop_def)

lemma wf_number: "wfTop N v \<Longrightarrow> exprNumberOf v = Some n \<Longrightarrow> (case n of NInt i \<Rightarrow> in64 i | NFloat f \<Rightarrow> is_fin f)"
  by (cases v) (auto simp: wfTop_def)

lemma wf_readKey: "list_all (\<lambda>p. wfIn N (snd p)) m \<Longrightarrow> wfTop N (readKey m k)"
  by (auto simp: readKey_def wfTop_def list_all_iff split: option.split dest!: map_of_SomeD)

lemma exprIndexOf_less: "exprIndexOf f n = Some i \<Longrightarrow> i < n"
  by (auto simp: exprIndexOf_def Let_def split: if_splits option.splits)

lemma wf_member:
  assumes "wfTop N v"
  shows "wfTop N (exprMember lib v f)"
proof (cases v)
  case (VList xs)
  then show ?thesis using assms exprIndexOf_less [of f "length xs"]
    by (auto simp: wfTop_def list_all_iff split: option.split)
next
  case (VMap m)
  then have "list_all (\<lambda>p. wfIn N (snd p)) m" using assms by (simp add: wfTop_def)
  then show ?thesis by (simp add: VMap wf_readKey)
next
  case (VRow i c t cb ca prov payload)
  then have w: "wfIn N v" using assms by (simp add: wfTop_def)
  have k: "wfTop N (case prov of None \<Rightarrow> VAbsent | Some m \<Rightarrow> VMap m)"
    "wfTop N (case payload of None \<Rightarrow> VAbsent | Some m \<Rightarrow> readKey m f)"
    using w by (auto simp: VRow wf_readKey split: option.splits) (auto simp: wfTop_def)
  have "wfTop N (VString s)" "wfTop N VAbsent" for s by (simp_all add: wfTop_def)
  note k = k this
  show ?thesis
  proof (cases "resolveIntrinsicField f")
    case (Some i)
    then show ?thesis using k by (cases i) (simp_all add: VRow rowMember_def)
  qed (use k in \<open>simp add: VRow rowMember_def\<close>)
qed (simp_all add: wfTop_def)

lemma intArithmetic_range: "in64 x \<Longrightarrow> intArithmetic opr x y = Inr v \<Longrightarrow> in64 v"
  by (auto simp: intArithmetic_def overflow_def wrap64_range sdiv_range smod_range split: if_splits)
     (simp add: in64_def MinInt64_def MaxInt64_def)

lemma wf_arithmetic:
  assumes "wfTop N l" "wfTop N r" "exprNumberOf l = Some a" "exprNumberOf r = Some b" "exprArithmetic opr a b = Inr v"
  shows "wfTop N v"
proof -
  have w: "in64 i" if "wfTop N u" "exprNumberOf u = Some c" "whole c = Some i" for u c i
    using wf_number [OF that(1,2)] that(3) by (cases c) (auto simp: WholeInt64_Some)
  show ?thesis
  proof (cases "\<exists>x y. a = NInt x \<and> b = NInt y")
    case True
    then obtain x y where xy: "a = NInt x" "b = NInt y" by blast
    then have "in64 x" using wf_number assms(1,3) by fastforce
    then show ?thesis using assms(5) intArithmetic_range [of x opr y]
      by (cases "intArithmetic opr x y") (auto simp: xy exprArithmetic_def wfTop_def)
  next
    case False
    then have e: "exprArithmetic opr a b =
        (if opr = ''%'' then
            (case (whole a, whole b) of
               (Some x, Some y) \<Rightarrow>
                 if y = 0 then Inl (ExprError ''division_by_zero'')
                 else if y = - 1 then Inr (VInt 0)
                 else Inr (VInt (x smod y))
             | _ \<Rightarrow> Inl (ExprError ''operand_type''))
          else floatArithmetic opr (floatOf a) (floatOf b))"
      by (cases a; cases b) (simp_all add: exprArithmetic_def)
    show ?thesis
    proof (cases "opr = ''%''")
      case True
      then show ?thesis using assms(5) w [OF assms(1,3)] smod_range unfolding e
        by (auto simp: wfTop_def in64_def MinInt64_def MaxInt64_def split: option.splits if_splits)
    next
      case False
      then show ?thesis using assms(5) unfolding e
        by (auto simp: floatArithmetic_def overflow_def Let_def wfTop_def split: if_splits)
    qed
  qed
qed

lemma wf_numeric:
  assumes "wfTop N l" "wfTop N r" "numericBinary opr l r = Inr v"
  shows "wfTop N v"
  using assms(3) wf_arithmetic [OF assms(1,2)] by (auto simp: numericBinary_def split: option.splits)

lemma wf_plus:
  assumes "wfTop \<infinity> l" "wfTop \<infinity> r" "exprPlus lib l r = Inr v"
  shows "wfTop \<infinity> v"
proof (cases "\<exists>a b. exprNumberOf l = Some a \<and> exprNumberOf r = Some b")
  case True
  then obtain a b where ab: "exprNumberOf l = Some a" "exprNumberOf r = Some b" by blast
  then have "exprArithmetic ''+'' a b = Inr v" using assms(3) by (simp add: exprPlus_def)
  then show ?thesis by (rule wf_arithmetic [OF assms(1,2) ab])
next
  case False
  then show ?thesis using assms
    by (auto simp: exprPlus_def overflow_def wfTop_def split: option.splits xval.splits if_splits)
qed

lemma wf_negate: "wfTop N l \<Longrightarrow> negate l = Inr v \<Longrightarrow> wfTop N v"
  by (cases l) (auto simp: negate_def overflow_def wfTop_def in64_def MinInt64_def MaxInt64_def split: if_splits,
      metis fneg.simps(4) is_fin.elims(2) is_fin.simps(1))

lemma mapPut_keys: "fst ` set (mapPut k v m) = insert k (fst ` set m)"
  by (induction k v m rule: mapPut.induct) auto

lemma mapPut_distinct: "distinct (map fst m) \<Longrightarrow> distinct (map fst (mapPut k v m))"
  by (induction k v m rule: mapPut.induct) (simp_all add: mapPut_keys, blast)

lemma mapPut_vals: "set (mapPut k v m) \<subseteq> insert (k, v) (set m)"
  by (induction k v m rule: mapPut.induct) auto

lemma wf_put:
  assumes "wfTop N (VMap m)" "wfTop N v" "v \<noteq> VAbsent"
  shows "wfTop N (VMap (mapPut k v m))"
  using assms mapPut_vals [of k v m] mapPut_distinct [of m k v] by (auto simp: wfTop_def list_all_iff)

lemma wf_collection:
  assumes "wfIn N v" "exprCollection v = Some (Some xs)" "1 \<le> N"
  shows "wfIn N (VList xs)"
  using assms
proof (induction v arbitrary: xs rule: exprCollection.induct)
  case (4 m)
  show ?case
  proof (cases "map_of m ''nodes''")
    case None
    then show ?thesis using 4 by (auto simp: one_enat_def)
  next
    case (Some nodes)
    then have "wfIn N nodes" using 4(2) by (auto simp: list_all_iff dest!: map_of_SomeD)
    then show ?thesis using 4(1) [OF Some] 4(3,4) Some by (auto split: option.splits simp: enat_0)
  qed
qed (auto simp: one_enat_def)

section \<open>The interfaces on the evaluator\<close>

text \<open>
  What every run does with the counter under a budget: it only grows, it passes the budget by at
  most one, an answer is within the budget, and no run panics.
\<close>

definition runStep :: "nat \<Rightarrow> nat \<Rightarrow> xerr option \<Rightarrow> nat \<Rightarrow> bool" where
  "runStep B s r t \<longleftrightarrow>
     s \<le> t \<and> (s \<le> B \<longrightarrow> t \<le> Suc B) \<and> (s \<le> B \<longrightarrow> r = None \<longrightarrow> t \<le> B) \<and>
     r \<noteq> Some Panic \<and> (r = Some BudgetExceeded \<longrightarrow> B < t)"

interpretation budgeted: step_law "runStep B" for B
  by unfold_locales (auto simp: runStep_def)

interpretation anyValue: value_law "\<lambda>_. True" \<infinity> \<infinity> True
  by unfold_locales auto

lemma wf_value_law:
  assumes "1 \<le> N"
  shows "value_law (wfTop N) N N (N = \<infinity>)"
proof (unfold_locales, goal_cases)
  case (11 xs x) then show ?case by (auto simp: wfTop_def list_all_iff)
next
  case (13 xs ys) then show ?case by (auto simp: wfTop_def list_all_iff intro: order_trans [of "enat (length ys)" "enat (length xs)"])
next
  case (14 xs ys) then show ?case by (auto simp: wfTop_def list_all_iff intro: order_trans [of "enat (length ys)" "enat (length xs)"])
next
  case (15 ys) then show ?case by (auto simp: wfTop_def list_all_iff)
next
  case (18 v xs) then show ?case using wf_collection [OF _ _ assms, of v xs] by (cases "v = VAbsent") (auto simp: wfTop_def)
qed (auto intro: wf_member wf_numeric wf_negate wf_put wf_plus simp: wfTop_simps)

end
