(* ===== verification/Trigger.thy ===== *)
theory Trigger
  imports ExprTypes Topics
begin

text \<open>
  What an automation is triggered by and when it fires: the event a graph write publishes
  (component/memql/executor_mutation.go), the row its filter reads (\<^verbatim>\<open>TriggerRow\<close> of
  component/automations/run_scope.go), the arguments bound from it (args_binding.go), the scope and options a filter is evaluated in
  (run_scope.go, scheduler.go), and the subscriber that decides (scheduler.go).
\<close>

section \<open>Events of a graph write\<close>

text \<open>An event as a subscriber reads it: \<open>te_Actor\<close> is \<^verbatim>\<open>Metadata["actor"]\<close>, empty when there is none.\<close>

record triggerEvent =
  te_Topic :: string
  te_Kind :: string
  te_Payload :: xmap
  te_Actor :: string
  te_Timestamp :: instant

definition PayloadOmittedFieldsKey :: string where
  "PayloadOmittedFieldsKey = ''payloadOmittedFields''"

definition PayloadThinned :: "triggerEvent \<Rightarrow> bool" where
  "PayloadThinned e \<longleftrightarrow> map_of (te_Payload e) PayloadOmittedFieldsKey \<noteq> None"

text \<open>\<^verbatim>\<open>maps.Copy\<close>: every key of the second map, over the first.\<close>

definition mapsCopy :: "xmap \<Rightarrow> xmap \<Rightarrow> xmap" where
  "mapsCopy dst src = foldr (\<lambda>p. mapPut (fst p) (snd p)) src dst"

definition eventVersionTime :: "golib \<Rightarrow> instant \<Rightarrow> string" where
  "eventVersionTime lib t = gl_RFC3339Nano lib (t - t mod 1000)"

text \<open>
  The \<^verbatim>\<open>graph.node.created\<close> event of a write: the stored payload (None when it does not decode)
  flattened over the envelope, the payload again under its own key, then what no field may shadow.
\<close>

definition createdEvent ::
  "golib \<Rightarrow> string \<Rightarrow> string \<Rightarrow> string \<Rightarrow> string \<Rightarrow> xmap option \<Rightarrow> instant \<Rightarrow> bool \<Rightarrow> instant \<Rightarrow> triggerEvent" where
  "createdEvent lib i concept actor ntype stored createdAt priorExisted now =
     (let base = [(''id'', VString i), (''nodeId'', VString i), (''concept'', VString concept),
                  (''actor'', VString actor), (''nodeType'', VString ntype)];
          payloadMap = (case stored of None \<Rightarrow> [] | Some m \<Rightarrow> m);
          flat = mapsCopy base payloadMap;
          full = mapPut ''payload'' (VMap payloadMap) flat;
          timed = mapPut ''createdAt'' (VString (eventVersionTime lib createdAt)) full
      in \<lparr>te_Topic = BuildTopicWithConcept TopicGraphNodeCreated concept, te_Kind = ''node_created'',
          te_Payload = mapPut ''firstVersion'' (VBool (\<not> priorExisted)) timed,
          te_Actor = actor, te_Timestamp = now\<rparr>)"

text \<open>The \<^verbatim>\<open>graph.node.updated\<close> event an update publishes beside it.\<close>

definition updatedEvent ::
  "golib \<Rightarrow> string \<Rightarrow> string \<Rightarrow> string \<Rightarrow> string \<Rightarrow> xmap option \<Rightarrow> string \<Rightarrow> instant option \<Rightarrow> instant \<Rightarrow> triggerEvent" where
  "updatedEvent lib i concept actor ntype stored priorStatus createdAt now =
     (let base = [(''id'', VString i), (''nodeId'', VString i), (''concept'', VString concept),
                  (''nodeType'', VString ntype)];
          full = (case stored of None \<Rightarrow> base | Some m \<Rightarrow> mapPut ''payload'' (VMap m) (mapsCopy base m));
          statused = (if priorStatus \<noteq> '''' then mapPut ''oldStatus'' (VString priorStatus) full else full);
          timed = (case createdAt of None \<Rightarrow> statused
                   | Some t \<Rightarrow> mapPut ''createdAt'' (VString (eventVersionTime lib t)) statused);
          acted = (if actor \<noteq> '''' then mapPut ''actor'' (VString actor) timed else timed)
      in \<lparr>te_Topic = BuildTopicWithConcept TopicGraphNodeUpdated concept, te_Kind = ''node_updated'',
          te_Payload = acted, te_Actor = actor, te_Timestamp = now\<rparr>)"

text \<open>The event an automation's own event step publishes.\<close>

definition publishedEvent :: "string \<Rightarrow> string \<Rightarrow> xmap \<Rightarrow> instant \<Rightarrow> triggerEvent" where
  "publishedEvent topic kind payload now =
     \<lparr>te_Topic = topic, te_Kind = kind, te_Payload = payload, te_Actor = '''', te_Timestamp = now\<rparr>"

section \<open>The row of a trigger\<close>

text \<open>\<^verbatim>\<open>strings.SplitN\<close> for a positive count.\<close>

fun SplitN :: "string \<Rightarrow> char \<Rightarrow> nat \<Rightarrow> string list" where
  "SplitN s sep 0 = []"
| "SplitN s sep (Suc 0) = [s]"
| "SplitN s sep (Suc (Suc n)) = (case Cut s [sep] of None \<Rightarrow> [s] | Some (a, b) \<Rightarrow> a # SplitN b sep (Suc n))"

definition stringAt :: "xmap \<Rightarrow> string \<Rightarrow> string option" where
  "stringAt m k = (case map_of m k of Some (VString s) \<Rightarrow> Some s | _ \<Rightarrow> None)"

definition firstString :: "string option list \<Rightarrow> string" where
  "firstString os = (case filter (\<lambda>x. x \<noteq> None) os of Some s # _ \<Rightarrow> s | _ \<Rightarrow> '''')"

definition RFC3339Nano :: string where
  "RFC3339Nano = ''2006-01-02T15:04:05.999999999Z07:00''"

definition TriggerRow :: "golib \<Rightarrow> triggerEvent \<Rightarrow> xval" where
  "TriggerRow lib e =
     (let payload = te_Payload e; segs = SplitN (te_Topic e) CHR ''.'' 4
      in case map_of payload ''payload'' of
           Some (VMap stored) \<Rightarrow>
             if HasPrefix (te_Topic e) ''graph.node.'' then
               (let parsed = (case stringAt payload ''createdAt'' of
                                None \<Rightarrow> 0
                              | Some s \<Rightarrow> (case gl_TimeParse lib RFC3339Nano s of None \<Rightarrow> 0 | Some t \<Rightarrow> t))
                in VRow (firstString [stringAt payload ''nodeId'', stringAt payload ''id''])
                     (if length segs = 4 then segs ! 3 else firstString [stringAt payload ''concept''])
                     (firstString [stringAt payload ''nodeType''])
                     (if te_Actor e \<noteq> '''' then te_Actor e else firstString [stringAt payload ''actor''])
                     (if IsZero parsed then te_Timestamp e else parsed) None (Some stored))
             else VRow '''' '''' '''' '''' 0 None (Some payload)
         | _ \<Rightarrow> VRow '''' '''' '''' '''' 0 None (Some payload))"

section \<open>Arguments\<close>

record argsField =
  af_Name :: string
  af_Type :: string
  af_Optional :: bool
  af_Enum :: "xval list"
  af_MaxLength :: int
  af_Pattern :: string

text \<open>What the binder uses of \<^verbatim>\<open>utf8\<close> and \<^verbatim>\<open>regexp\<close>: None is a pattern that does not compile.\<close>

record textlib =
  tx_RuneCount :: "string \<Rightarrow> nat"
  tx_Match :: "string \<Rightarrow> string \<Rightarrow> bool option"

datatype argReason = ArgMissing | ArgType string | ArgEnum | ArgTooLong | ArgPattern

definition argTypeMatches :: "xval \<Rightarrow> string \<Rightarrow> bool" where
  "argTypeMatches v typ =
     (if typ = '''' \<or> typ = ''any'' then True
      else if typ = ''string'' then isString v
      else if typ = ''number'' then exprNumberOf v \<noteq> None
      else if typ = ''int'' \<or> typ = ''integer'' then
        (case v of VInt _ \<Rightarrow> True | VFloat f \<Rightarrow> WholeInt64 f \<noteq> None | _ \<Rightarrow> False)
      else if typ = ''bool'' \<or> typ = ''boolean'' then (case v of VBool _ \<Rightarrow> True | _ \<Rightarrow> False)
      else if typ = ''object'' then (case v of VMap _ \<Rightarrow> True | _ \<Rightarrow> False)
      else if typ = ''array'' then (case v of VList _ \<Rightarrow> True | _ \<Rightarrow> False)
      else True)"

text \<open>The options of an \<^verbatim>\<open>@enum\<close> are scalars, compared as Go compares two interface values.\<close>

definition argInEnum :: "xval \<Rightarrow> xval list \<Rightarrow> bool" where
  "argInEnum v options = list_ex (\<lambda>opt. v = opt \<and> v \<noteq> VFloat NaN) options"

definition validateAutomationArg :: "textlib \<Rightarrow> xmap \<Rightarrow> argsField \<Rightarrow> argReason option" where
  "validateAutomationArg tx payload f =
     (let v = (case map_of payload (af_Name f) of None \<Rightarrow> VNil | Some w \<Rightarrow> w)
      in if v = VNil then (if af_Optional f then None else Some ArgMissing)
         else if \<not> argTypeMatches v (af_Type f) then Some (ArgType (af_Type f))
         else if af_Enum f \<noteq> [] \<and> \<not> argInEnum v (af_Enum f) then Some ArgEnum
         else if 0 < af_MaxLength f \<and> (case v of VString s \<Rightarrow> af_MaxLength f < int (tx_RuneCount tx s) | _ \<Rightarrow> False)
         then Some ArgTooLong
         else if TrimSpace (af_Pattern f) \<noteq> '''' \<and>
                 (case v of VString s \<Rightarrow> tx_Match tx (af_Pattern f) s = Some False | _ \<Rightarrow> False)
         then Some ArgPattern
         else None)"

fun bindFields :: "textlib \<Rightarrow> xmap \<Rightarrow> argsField list \<Rightarrow> xmap \<Rightarrow> (string \<times> argReason) + xmap" where
  "bindFields tx payload [] bound = Inr bound"
| "bindFields tx payload (f # fs) bound =
     (if TrimSpace (af_Name f) = '''' then bindFields tx payload fs bound
      else case validateAutomationArg tx payload f of
             Some r \<Rightarrow> Inl (af_Name f, r)
           | None \<Rightarrow> bindFields tx payload fs
               (case map_of payload (af_Name f) of None \<Rightarrow> bound | Some v \<Rightarrow> mapPut (af_Name f) v bound))"

text \<open>No args block binds nothing at all, which is not the empty binding.\<close>

definition bindEventArgs :: "textlib \<Rightarrow> argsField list \<Rightarrow> triggerEvent \<Rightarrow> (string \<times> argReason) + xmap option" where
  "bindEventArgs tx block e =
     (if block = [] then Inr None else map_sum id Some (bindFields tx (te_Payload e) block []))"

definition declaredArgs :: "argsField list \<Rightarrow> string list" where
  "declaredArgs block = filter (\<lambda>n. TrimSpace n \<noteq> '''') (map af_Name block)"

section \<open>The scope of a run\<close>

text \<open>The state of a run as its expressions read it: the names its statements bound, and the roots.\<close>

record runState =
  rs_names :: "(string \<Rightarrow> xval option) option"
  rs_custom :: xmap

definition noCallerEnvelope :: "string \<Rightarrow> xmap" where
  "noCallerEnvelope now =
     [(''userId'', VString ''''), (''role'', VString ''''), (''identityId'', VString ''''), (''primaryEmail'', VString ''''),
      (''isClusterOwner'', VBool False), (''isOwner'', VBool False), (''now'', VString now)]"

definition RunScopeLookup :: "string \<Rightarrow> runState \<Rightarrow> string \<Rightarrow> xval option" where
  "RunScopeLookup now rs name =
     (if name = '''' then None
      else case (case rs_names rs of None \<Rightarrow> None | Some look \<Rightarrow> look name) of
             Some v \<Rightarrow> Some v
           | None \<Rightarrow>
               if name = ''row'' then map_of (rs_custom rs) name
               else if name = ''actor'' then
                 (case map_of (rs_custom rs) name of Some v \<Rightarrow> Some v | None \<Rightarrow> Some (VMap (noCallerEnvelope now)))
               else if name \<in> {''args'', ''event'', ''config'', ''partition''} then
                 (case map_of (rs_custom rs) name of Some v \<Rightarrow> Some v | None \<Rightarrow> Some VAbsent)
               else None)"

definition buildEventEnvelope :: "golib \<Rightarrow> triggerEvent \<Rightarrow> xmap" where
  "buildEventEnvelope lib e =
     [(''topic'', VString (te_Topic e)), (''kind'', VString (te_Kind e)), (''payload'', VMap (te_Payload e))] @
     (if te_Actor e \<noteq> '''' then [(''actor'', VMap [(''id'', VString (te_Actor e))])] else []) @
     (if \<not> IsZero (te_Timestamp e) then [(''timestamp'', VString (gl_RFC3339Nano lib (te_Timestamp e)))] else [])"

definition bindScope :: "string \<Rightarrow> xval \<Rightarrow> (string \<Rightarrow> xval option) \<Rightarrow> string \<Rightarrow> xval option" where
  "bindScope n v parent name = (if name = n then Some v else parent name)"

text \<open>\<^verbatim>\<open>ExprOptions\<close> of a run with no resolver seeded: no predicates, no construct calls, every variable an error.\<close>

definition filterOptions :: "golib \<Rightarrow> string \<Rightarrow> (string \<Rightarrow> xval option) \<Rightarrow> evalOptions" where
  "filterOptions lib now scope =
     \<lparr>eo_lib = lib, eo_Now = now, eo_Budget = 0, eo_Predicates = None, eo_CanonicalID = None,
      eo_Vars = Some (\<lambda>_ kind name. Inl (kind @ ''('' @ name @ ''): this run has no '' @ kind @ '' resolver'')),
      eo_Calls = None, eo_ctxErr = (\<lambda>_. None), eo_root = scope\<rparr>"

definition filterState :: "golib \<Rightarrow> string \<Rightarrow> triggerEvent \<Rightarrow> xmap option \<Rightarrow> runState" where
  "filterState lib now e bound =
     \<lparr>rs_names = None,
      rs_custom = [(''actor'', VMap (noCallerEnvelope now)), (''event'', VMap (buildEventEnvelope lib e))] @
        (case bound of None \<Rightarrow> [] | Some m \<Rightarrow> [(''args'', VMap m)])\<rparr>"

definition filterScope :: "golib \<Rightarrow> string \<Rightarrow> string \<Rightarrow> triggerEvent \<Rightarrow> xmap option \<Rightarrow> string \<Rightarrow> xval option" where
  "filterScope lib now param e bound =
     bindScope param (TriggerRow lib e) (RunScopeLookup now (filterState lib now e bound))"

type_synonym triggerFilter = "string list \<times> expr"

definition evaluateTriggerFilter ::
  "golib \<Rightarrow> string \<Rightarrow> triggerFilter option \<Rightarrow> triggerEvent \<Rightarrow> xmap option \<Rightarrow> bool res" where
  "evaluateTriggerFilter lib now filt e bound =
     (case filt of
        None \<Rightarrow> Inr True
      | Some ([], body) \<Rightarrow> Inl Panic
      | Some (p # ps, body) \<Rightarrow> EvalCondition (filterOptions lib now (filterScope lib now p e bound)) body)"

text \<open>What the subscriber of an event trigger does with an event: whether the automation is executed.\<close>

definition triggerFires :: "golib \<Rightarrow> textlib \<Rightarrow> string \<Rightarrow> argsField list \<Rightarrow> triggerFilter option \<Rightarrow> triggerEvent \<Rightarrow> bool" where
  "triggerFires lib tx now block filt e =
     (if PayloadThinned e then False
      else case bindEventArgs tx block e of
             Inl _ \<Rightarrow> False
           | Inr bound \<Rightarrow>
               (case evaluateTriggerFilter lib now filt e bound of Inl _ \<Rightarrow> False | Inr shouldRun \<Rightarrow> shouldRun))"

section \<open>What the events carry\<close>

lemma map_of_mapPut [simp]: "map_of (mapPut k v m) = (map_of m)(k \<mapsto> v)"
  by (induction m) auto

lemma map_of_mapsCopy: "map_of (mapsCopy dst src) = map_of dst ++ map_of src"
  unfolding mapsCopy_def by (induction src) (auto simp: map_add_def fun_eq_iff)

lemma bindFields_exact:
  "bindFields tx payload fs bound = Inr b \<Longrightarrow>
   map_of b k = (if k \<in> set (declaredArgs fs) \<and> map_of payload k \<noteq> None then map_of payload k else map_of bound k)"
proof (induction fs arbitrary: bound)
  case (Cons f fs)
  show ?case
  proof (cases "TrimSpace (af_Name f) = ''''")
    case True
    then show ?thesis using Cons by (simp add: declaredArgs_def)
  next
    case False
    then show ?thesis using Cons.prems
      by (auto simp: declaredArgs_def dest!: Cons.IH split: option.splits if_splits)
  qed
qed (simp add: declaredArgs_def)

lemma bindEventArgs_reads:
  assumes "bindEventArgs tx block e = Inr bound"
  shows "exprMember lib (case bound of None \<Rightarrow> VAbsent | Some m \<Rightarrow> VMap m) f =
    (if f \<in> set (declaredArgs block) then readKey (te_Payload e) f else VAbsent)"
proof (cases "block = []")
  case True
  then show ?thesis using assms by (simp add: bindEventArgs_def declaredArgs_def)
next
  case False
  then obtain b where "bindFields tx (te_Payload e) block [] = Inr b" "bound = Some b"
    using assms by (cases "bindFields tx (te_Payload e) block []") (auto simp: bindEventArgs_def)
  then show ?thesis by (auto simp: readKey_def dest!: bindFields_exact [of _ _ _ _ _ f])
qed

lemma filterScope_args:
  "p \<noteq> ''args'' \<Longrightarrow> filterScope lib now p e bound ''args'' = Some (case bound of None \<Rightarrow> VAbsent | Some m \<Rightarrow> VMap m)"
  by (cases bound) (simp_all add: filterScope_def bindScope_def RunScopeLookup_def filterState_def)

lemma filterScope_row: "filterScope lib now p e bound p = Some (TriggerRow lib e)"
  by (simp add: filterScope_def bindScope_def)

lemma Cut_char: "c \<notin> set a \<Longrightarrow> Cut (a @ c # b) [c] = Some (a, b)"
  by (induction a) auto

lemma SplitN_topic:
  assumes "act \<in> {''created'', ''updated''}"
  shows "SplitN (''graph.node.'' @ act @ ''.'' @ concept) CHR ''.'' 4 = [''graph'', ''node'', act, concept]"
proof -
  have "SplitN (''graph.node.'' @ act @ ''.'' @ concept) CHR ''.'' (Suc (Suc (Suc (Suc 0)))) = [''graph'', ''node'', act, concept]"
    using assms Cut_char [of "CHR ''.''" "''graph''" "''node.'' @ act @ ''.'' @ concept"]
      Cut_char [of "CHR ''.''" "''node''" "act @ ''.'' @ concept"] Cut_char [of "CHR ''.''" act concept]
    by auto
  then show ?thesis by (simp add: eval_nat_numeral)
qed

end
