(* ===== verification/FilterDecide.thy ===== *)
theory FilterDecide
  imports Trigger
begin

text \<open>
  Deciding a trigger filter at load (component/automations/loop_graph_filter.go): a partial
  evaluation of the filter over what a write is known to put in its row, in three values. The
  static loop check draws no edge where the answer is false.
\<close>

section \<open>What is known of a row\<close>

datatype tri = triFalse | triTrue | triUnknown

definition triOf :: "bool \<Rightarrow> tri" where
  "triOf b = (if b then triTrue else triFalse)"

text \<open>
  The reason of an unknown: the words of the row, a column or a key of the envelope, or the node
  that is not evaluated at load.
\<close>

datatype why = NoWhy | WhyText string | WhyColumn string | WhyEnvelope string | NotEvaluated expr
  | NotLambda "string list" expr

record knownRow =
  kr_Concept :: string
  kr_Fields :: xmap
  kr_Absent :: "string list"
  kr_OthersKnown :: bool
  kr_FirstVersion :: tri
  kr_Unknown :: "string list"
  kr_explain :: "(string \<Rightarrow> string) option"

definition rowWhy :: "knownRow \<Rightarrow> string \<Rightarrow> why" where
  "rowWhy r f =
     (let known = (case kr_explain r of None \<Rightarrow> '''' | Some ex \<Rightarrow> ex f)
      in if known \<noteq> '''' then WhyText known else WhyText (f @ '' is known only at run time''))"

datatype pval = pKnown xval | pAbsent | pUnknown why

fun pv :: "pval \<Rightarrow> xval" where
  "pv (pKnown v) = v"
| "pv _ = VNil"

section \<open>Comparisons\<close>

definition loopUnset :: "pval \<Rightarrow> bool" where
  "loopUnset p \<longleftrightarrow> p = pAbsent \<or> pv p = VNil \<or> pv p = VString ''''"

fun loopFloat :: "xval \<Rightarrow> float64 option" where
  "loopFloat (VInt i) = Some (float_of_int i)"
| "loopFloat (VFloat f) = Some f"
| "loopFloat _ = None"

definition compareFloats :: "float64 \<Rightarrow> float64 \<Rightarrow> int option" where
  "compareFloats a b = (if a = NaN \<or> b = NaN then None else Some (if fless a b then - 1 else if fless b a then 1 else 0))"

definition loopCompareNumbers :: "xval \<Rightarrow> xval \<Rightarrow> int option" where
  "loopCompareNumbers a b =
     (case (a, b) of
        (VInt x, VInt y) \<Rightarrow> Some (if x < y then - 1 else if y < x then 1 else 0)
      | _ \<Rightarrow> (case (loopFloat a, loopFloat b) of (Some x, Some y) \<Rightarrow> compareFloats x y | _ \<Rightarrow> None))"

fun loopStrictEqual :: "xval \<Rightarrow> xval \<Rightarrow> bool" where
  "loopStrictEqual VNil w = (w = VNil)"
| "loopStrictEqual (VBool b) w = (w = VBool b)"
| "loopStrictEqual (VString s) w = (w = VString s)"
| "loopStrictEqual (VInt i) w = (loopCompareNumbers (VInt i) w = Some 0)"
| "loopStrictEqual (VFloat f) w = (loopCompareNumbers (VFloat f) w = Some 0)"
| "loopStrictEqual (VList xs) w = (case w of VList ys \<Rightarrow> list_all2 loopStrictEqual xs ys | _ \<Rightarrow> False)"
| "loopStrictEqual (VMap m) w = (case w of VMap n \<Rightarrow> mapsEqual loopStrictEqual m n | _ \<Rightarrow> False)"
| "loopStrictEqual _ w = False"

definition loopEqual :: "pval \<Rightarrow> pval \<Rightarrow> bool" where
  "loopEqual l r =
     (if loopUnset l \<or> loopUnset r then loopUnset l \<and> loopUnset r else loopStrictEqual (pv l) (pv r))"

fun loopOrderable :: "pval \<Rightarrow> bool" where
  "loopOrderable (pKnown (VInt _)) \<longleftrightarrow> True"
| "loopOrderable (pKnown (VFloat _)) \<longleftrightarrow> True"
| "loopOrderable (pKnown (VString _)) \<longleftrightarrow> True"
| "loopOrderable _ \<longleftrightarrow> False"

definition loopOrdered :: "string \<Rightarrow> xval \<Rightarrow> xval \<Rightarrow> bool" where
  "loopOrdered opr l r =
     (case l of
        VString s \<Rightarrow> (case r of VString t \<Rightarrow> orderedBy opr (strCompare s t) | _ \<Rightarrow> False)
      | _ \<Rightarrow> (case loopCompareNumbers l r of None \<Rightarrow> False | Some c \<Rightarrow> orderedBy opr c))"

definition loopBlank :: "xval \<Rightarrow> bool" where
  "loopBlank v \<longleftrightarrow> v = VNil \<or> (case v of VString s \<Rightarrow> TrimSpace s = '''' | _ \<Rightarrow> False)"

section \<open>Reading the row\<close>

record filterDecider =
  fd_param :: string
  fd_row :: knownRow
  fd_args :: "string list"

fun memberPath :: "string list \<Rightarrow> expr \<Rightarrow> (string \<times> string list) option" where
  "memberPath fs (MemberE e f) = memberPath (f # fs) e"
| "memberPath fs (IdentE n) = Some (n, fs)"
| "memberPath fs _ = None"

definition MemberPath :: "expr \<Rightarrow> (string \<times> string list) option" where
  "MemberPath e = memberPath [] e"

definition payloadField :: "knownRow \<Rightarrow> string \<Rightarrow> pval" where
  "payloadField row f =
     (case map_of (kr_Fields row) f of
        Some v \<Rightarrow> pKnown v
      | None \<Rightarrow>
          if f \<in> set (kr_Unknown row) then pUnknown (rowWhy row f)
          else if f \<in> set (kr_Absent row) \<or> kr_OthersKnown row then pAbsent
          else pUnknown (rowWhy row f))"

definition filterRowIntrinsics :: "string list" where
  "filterRowIntrinsics = [''concept'', ''id'', ''type'', ''createdat'', ''createdby'', ''provenance'']"

definition rowField :: "knownRow \<Rightarrow> string \<Rightarrow> pval" where
  "rowField row f =
     (let lower = ToLower f
      in if lower \<in> set filterRowIntrinsics
         then (if lower = ''concept'' then pKnown (VString (kr_Concept row)) else pUnknown (WhyColumn f))
         else payloadField row f)"

definition graphEventEnvelopeKeys :: "string list" where
  "graphEventEnvelopeKeys = [''id'', ''nodeId'', ''nodeType'', ''actor'', ''createdAt'', ''oldStatus'', ''payload'']"

definition argField :: "knownRow \<Rightarrow> string list \<Rightarrow> string \<Rightarrow> pval" where
  "argField row args f =
     (if f \<notin> set args then pAbsent
      else if f = ''firstVersion'' then
        (case kr_FirstVersion row of
           triTrue \<Rightarrow> pKnown (VBool True)
         | triFalse \<Rightarrow> pKnown (VBool False)
         | triUnknown \<Rightarrow> pUnknown (rowWhy row f))
      else if f = ''concept'' then
        (if map_of (kr_Fields row) f \<noteq> None \<or> f \<in> set (kr_Unknown row) \<or> f \<in> set (kr_Absent row)
         then payloadField row f
         else if kr_OthersKnown row then pKnown (VString (kr_Concept row))
         else pUnknown (rowWhy row f))
      else if f \<in> set graphEventEnvelopeKeys then pUnknown (WhyEnvelope f)
      else payloadField row f)"

fun readThrough :: "expr \<Rightarrow> pval \<Rightarrow> string list \<Rightarrow> pval" where
  "readThrough e v [] = v"
| "readThrough e (pKnown VNil) (f # fs) = pAbsent"
| "readThrough e (pKnown (VMap m)) (f # fs) =
     (case map_of m f of None \<Rightarrow> pAbsent | Some x \<Rightarrow> readThrough e (pKnown x) fs)"
| "readThrough e (pKnown v) (f # fs) = pUnknown (NotEvaluated e)"
| "readThrough e v (f # fs) = v"

definition decideMember :: "filterDecider \<Rightarrow> expr \<Rightarrow> pval" where
  "decideMember d e =
     (case MemberPath e of
        Some (rt, f # fs) \<Rightarrow>
          if rt = fd_param d then readThrough e (rowField (fd_row d) f) fs
          else if rt = ''args'' then readThrough e (argField (fd_row d) (fd_args d) f) fs
          else pUnknown (NotEvaluated e)
      | _ \<Rightarrow> pUnknown (NotEvaluated e))"

section \<open>The decider\<close>

type_synonym verdict3 = "tri \<times> why"

fun triNot :: "verdict3 \<Rightarrow> verdict3" where
  "triNot (triTrue, w) = (triFalse, NoWhy)"
| "triNot (triFalse, w) = (triTrue, NoWhy)"
| "triNot (triUnknown, w) = (triUnknown, w)"

definition triAnd :: "verdict3 \<Rightarrow> verdict3 \<Rightarrow> verdict3" where
  "triAnd l r =
     (if fst l = triFalse then (triFalse, NoWhy)
      else if fst r = triFalse then (triFalse, NoWhy)
      else if fst l = triTrue \<and> fst r = triTrue then (triTrue, NoWhy)
      else if fst l = triUnknown then (triUnknown, snd l)
      else (triUnknown, snd r))"

definition triOr :: "verdict3 \<Rightarrow> verdict3 \<Rightarrow> verdict3" where
  "triOr l r =
     (if fst l = triTrue then (triTrue, NoWhy)
      else if fst r = triTrue then (triTrue, NoWhy)
      else if fst l = triFalse \<and> fst r = triFalse then (triFalse, NoWhy)
      else if fst l = triUnknown then (triUnknown, snd l)
      else (triUnknown, snd r))"

fun condOfValue :: "pval \<Rightarrow> verdict3" where
  "condOfValue (pUnknown w) = (triUnknown, w)"
| "condOfValue (pKnown (VBool b)) = (triOf b, NoWhy)"
| "condOfValue _ = (triFalse, NoWhy)"

definition condValue :: "verdict3 \<Rightarrow> pval" where
  "condValue t = (if fst t = triUnknown then pUnknown (snd t) else pKnown (VBool (fst t = triTrue)))"

definition coalesceP :: "pval \<Rightarrow> pval \<Rightarrow> pval" where
  "coalesceP l r =
     (let final = (case r of pAbsent \<Rightarrow> pKnown VNil | _ \<Rightarrow> r)
      in case l of pUnknown w \<Rightarrow> l | pKnown v \<Rightarrow> if \<not> loopBlank v then l else final | pAbsent \<Rightarrow> final)"

fun whyOf :: "pval \<Rightarrow> why" where
  "whyOf (pUnknown w) = w"
| "whyOf _ = NoWhy"

fun isUnknown :: "pval \<Rightarrow> bool" where
  "isUnknown (pUnknown _) \<longleftrightarrow> True"
| "isUnknown _ \<longleftrightarrow> False"

definition compareP :: "string \<Rightarrow> pval \<Rightarrow> pval \<Rightarrow> verdict3" where
  "compareP opr l r =
     (if opr = ''=='' \<or> opr = ''!='' then
        (if isUnknown l then (triUnknown, whyOf l)
         else if isUnknown r then (triUnknown, whyOf r)
         else (triOf (if opr = ''!='' then \<not> loopEqual l r else loopEqual l r), NoWhy))
      else if \<not> isUnknown l \<and> \<not> loopOrderable l then (triFalse, NoWhy)
      else if \<not> isUnknown r \<and> \<not> loopOrderable r then (triFalse, NoWhy)
      else if isUnknown l then (triUnknown, whyOf l)
      else if isUnknown r then (triUnknown, whyOf r)
      else (triOf (loopOrdered opr (pv l) (pv r)), NoWhy))"

fun inElems :: "pval \<Rightarrow> verdict3 \<Rightarrow> pval list \<Rightarrow> verdict3" where
  "inElems l out [] = out"
| "inElems l out (ev # es) =
     (if ev = pAbsent then inElems l out es
      else if isUnknown l \<or> isUnknown ev then
        inElems l (if fst out = triFalse then (triUnknown, if isUnknown l then whyOf l else whyOf ev) else out) es
      else if loopEqual l ev then (triTrue, NoWhy)
      else inElems l out es)"

definition inValue :: "expr \<Rightarrow> pval \<Rightarrow> verdict3" where
  "inValue right r =
     (case r of
        pAbsent \<Rightarrow> (triFalse, NoWhy)
      | pUnknown w \<Rightarrow> (triUnknown, w)
      | pKnown v \<Rightarrow> if v = VNil then (triFalse, NoWhy) else (triUnknown, NotEvaluated right))"

text \<open>The prefixes of a list literal: an early answer, or the strings.\<close>

fun prefixElems :: "pval list \<Rightarrow> verdict3 + string list" where
  "prefixElems [] = Inr []"
| "prefixElems (pUnknown w # es) = Inl (triUnknown, w)"
| "prefixElems (pAbsent # es) = prefixElems es"
| "prefixElems (pKnown VNil # es) = prefixElems es"
| "prefixElems (pKnown (VString s) # es) = map_sum id (\<lambda>ps. s # ps) (prefixElems es)"
| "prefixElems (pKnown _ # es) = Inl (triFalse, NoWhy)"

fun prefixValue :: "pval \<Rightarrow> verdict3 + string list" where
  "prefixValue (pUnknown w) = Inl (triUnknown, w)"
| "prefixValue (pKnown (VString s)) = Inr [s]"
| "prefixValue _ = Inl (triFalse, NoWhy)"

definition startsWithP :: "pval \<Rightarrow> verdict3 + string list \<Rightarrow> verdict3" where
  "startsWithP l prefixes =
     (if l = pAbsent \<or> (\<not> isUnknown l \<and> \<not> isString (pv l)) then (triFalse, NoWhy)
      else case prefixes of
             Inl early \<Rightarrow> early
           | Inr ps \<Rightarrow>
               let nonBlank = filter (\<lambda>p. TrimSpace p \<noteq> '''') ps
               in if nonBlank = [] then (triFalse, NoWhy)
                  else case l of
                         pKnown (VString s) \<Rightarrow> (triOf (list_ex (HasPrefix s) nonBlank), NoWhy)
                       | _ \<Rightarrow> (triUnknown, whyOf l))"

lemma Unparen_list_size: "Unparen r = ListE es \<Longrightarrow> e \<in> set es \<Longrightarrow> size e < size r"
  by (induction r rule: Unparen.induct) (auto simp: less_Suc_eq_le dest: size_arg)

definition condOps :: "string list" where
  "condOps = [''=='', ''!='', ''<'', ''<='', ''>'', ''>='', ''in'', ''startsWith'', ''&&'', ''||'']"

fun conditional :: "expr \<Rightarrow> bool" where
  "conditional (UnaryE opr _) \<longleftrightarrow> opr = ''!''"
| "conditional (BinaryE opr _ _) \<longleftrightarrow> opr \<in> set condOps"
| "conditional _ \<longleftrightarrow> False"

text \<open>\<^verbatim>\<open>cond\<close> and \<^verbatim>\<open>value\<close> of the decider, with \<^verbatim>\<open>compare\<close>, \<^verbatim>\<open>in\<close>, \<^verbatim>\<open>startsWith\<close> and \<^verbatim>\<open>coalesce\<close> over the values of their operands.\<close>

function (sequential) decideCond :: "filterDecider \<Rightarrow> expr \<Rightarrow> verdict3"
  and decideValue :: "filterDecider \<Rightarrow> expr \<Rightarrow> pval" where
  "decideCond d (ParenE e) = decideCond d e"
| "decideCond d (UnaryE opr e) =
     (if opr = ''!'' then triNot (decideCond d e) else condOfValue (decideValue d (UnaryE opr e)))"
| "decideCond d (BinaryE opr l r) =
     (if opr = ''&&'' then triAnd (decideCond d l) (decideCond d r)
      else if opr = ''||'' then triOr (decideCond d l) (decideCond d r)
      else if opr = ''in'' then
        (case Unparen r of
           ListE es \<Rightarrow> inElems (decideValue d l) (triFalse, NoWhy) (map (\<lambda>e. decideValue d e) es)
         | _ \<Rightarrow> inValue r (decideValue d r))
      else if opr = ''startsWith'' then
        startsWithP (decideValue d l)
          (case Unparen r of
             ListE es \<Rightarrow> prefixElems (map (\<lambda>e. decideValue d e) es)
           | _ \<Rightarrow> prefixValue (decideValue d r))
      else if opr \<in> set condOps then compareP opr (decideValue d l) (decideValue d r)
      else condOfValue (decideValue d (BinaryE opr l r)))"
| "decideCond d e = condOfValue (decideValue d e)"
| "decideValue d (ParenE e) = decideValue d e"
| "decideValue d (LiteralE v) = pKnown v"
| "decideValue d NilE = pKnown VNil"
| "decideValue d (MemberE ob f) = decideMember d (MemberE ob f)"
| "decideValue d (UnaryE opr e) =
     (if opr = ''!'' then condValue (decideCond d (UnaryE opr e)) else pUnknown (NotEvaluated (UnaryE opr e)))"
| "decideValue d (BinaryE opr l r) =
     (if opr = ''??'' then coalesceP (decideValue d l) (decideValue d r)
      else if opr \<in> set condOps then condValue (decideCond d (BinaryE opr l r))
      else pUnknown (NotEvaluated (BinaryE opr l r)))"
| "decideValue d e = pUnknown (NotEvaluated e)"
  by pat_completeness auto

termination
  by (relation "measures [\<lambda>x. case x of Inl (_, e) \<Rightarrow> size e | Inr (_, e) \<Rightarrow> size e,
                          \<lambda>x. case x of Inl (_, e) \<Rightarrow> if conditional e then 0 else 2 | Inr _ \<Rightarrow> 1]")
     (auto simp: condOps_def less_Suc_eq_le dest!: Unparen_list_size)

definition decideFilter :: "triggerFilter option \<Rightarrow> knownRow \<Rightarrow> string list \<Rightarrow> verdict3" where
  "decideFilter filt row args =
     (case filt of
        None \<Rightarrow> (triTrue, NoWhy)
      | Some ([p], body) \<Rightarrow> decideCond \<lparr>fd_param = p, fd_row = row, fd_args = args\<rparr> body
      | Some (ps, body) \<Rightarrow> (triUnknown, NotLambda ps body))"

end
