(* ===== verification/FilterSound.thy ===== *)
theory FilterSound
  imports FilterDecide
begin

text \<open>
  What the load decides of a filter, the run agrees with. A value the load knows is related to what the run reads of the
  stored payload, which went through JSON; a decided answer is one no evaluation contradicts. The
  interface \<open>filter_view\<close> is what the events of a write promise of the names a filter reads.
\<close>

section \<open>Known values and what the run reads\<close>

text \<open>
  A literal the load knows, and the value the run may read for it: an integer of a decoded payload is a float.
\<close>

fun asRead :: "xval \<Rightarrow> xval \<Rightarrow> bool" where
  "asRead (VInt i) w \<longleftrightarrow> w = VInt i \<or> w = VFloat (float_of_int i)"
| "asRead (VFloat f) w \<longleftrightarrow> w = VFloat f"
| "asRead (VBool b) w \<longleftrightarrow> w = VBool b"
| "asRead (VString s) w \<longleftrightarrow> w = VString s"
| "asRead VNil w \<longleftrightarrow> w = VNil"
| "asRead (VList xs) w \<longleftrightarrow> (case w of VList ys \<Rightarrow> list_all2 asRead xs ys | _ \<Rightarrow> False)"
| "asRead (VMap m) w \<longleftrightarrow>
     (case w of VMap n \<Rightarrow> mapsEqual asRead m n \<and> distinct (map fst m) \<and> distinct (map fst n) | _ \<Rightarrow> False)"
| "asRead _ w \<longleftrightarrow> False"

text \<open>Every integer inside is one a float64 holds exactly.\<close>

fun exactNums :: "xval \<Rightarrow> bool" where
  "exactNums (VInt i) \<longleftrightarrow> \<bar>i\<bar> \<le> 2 ^ 53"
| "exactNums (VList xs) \<longleftrightarrow> list_all exactNums xs"
| "exactNums (VMap m) \<longleftrightarrow> list_all (\<lambda>p. exactNums (snd p)) m"
| "exactNums _ \<longleftrightarrow> True"

fun numF :: "xval \<Rightarrow> float64 option" where
  "numF (VInt i) = Some (Fin (of_int i))"
| "numF (VFloat f) = Some f"
| "numF _ = None"

lemma mapsEqual_keys:
  assumes "mapsEqual eq m n" "distinct (map fst m)" "distinct (map fst n)"
  shows "fst ` set n = fst ` set m"
proof (rule card_seteq [symmetric])
  show "fst ` set m \<subseteq> fst ` set n"
    using assms(1) by (force simp: mapsEqual_def list_all_iff map_of_eq_None_iff split: option.splits)
  show "card (fst ` set n) \<le> card (fst ` set m)"
    using assms by (simp add: mapsEqual_def distinct_card flip: set_map)
qed simp

lemma asRead_numF: "asRead a a' \<Longrightarrow> exactNums a \<Longrightarrow> numF a' = numF a \<and> exactNums a'"
proof (induction a a' rule: asRead.induct)
  case (6 xs w)
  show ?case
  proof (cases w)
    case (VList ys)
    have "exactNums (ys ! i)" if "i < length ys" for i
      using 6(1) [OF VList, of "xs ! i" "ys ! i"] 6(2,3) that by (simp add: VList list_all2_conv_all_nth list_all_length)
    then show ?thesis by (simp add: VList list_all_length)
  qed (use 6 in auto)
next
  case (7 m w)
  show ?case
  proof (cases w)
    case (VMap n)
    note eq = 7(2) [unfolded VMap, simplified]
    have keys: "fst ` set n = fst ` set m" using eq mapsEqual_keys [of asRead m n] by simp
    have "exactNums v" if kv: "(k, v) \<in> set n" for k v
    proof -
      obtain u where u: "(k, u) \<in> set m" using kv keys by (metis (no_types, lifting) fst_conv image_iff prod.collapse)
      have "map_of n k = Some v" using kv eq by simp
      then have "asRead u v" using eq u by (auto simp: mapsEqual_def list_all_iff)
      then show ?thesis using 7(1) [OF VMap u] 7(3) u by (auto simp: list_all_iff)
    qed
    then show ?thesis by (auto simp: VMap list_all_iff)
  qed (use 7 in auto)
qed (auto simp: float_of_int_exact)

lemma compareIntFloat_exact:
  assumes "\<bar>i\<bar> \<le> 2 ^ 53"
  shows "exprCompareIntFloat i f = compareFloats (Fin (of_int i)) f"
proof (cases f)
  case (Fin q)
  have i: "i < 9223372036854775808" "- 9223372036854775808 \<le> i" using assms by auto
  then have iq: "(of_int i :: rat) < 9223372036854775808" "- 9223372036854775808 \<le> (of_int i :: rat)" by linarith+
  consider "9223372036854775808 \<le> q" | "q < - 9223372036854775808"
    | "q < 9223372036854775808" "- 9223372036854775808 \<le> q" by linarith
  then show ?thesis
  proof cases
    case 3
    let ?t = "truncate_rat q"
    have t: "- 9223372036854775808 \<le> ?t" "?t < 9223372036854775808"
      using 3 by (auto simp: truncate_rat_def less_ceiling_iff ceiling_less_iff floor_less_iff le_floor_iff le_ceiling_iff)
    then have w: "WholeInt64 (Fin (of_int ?t)) = Some ?t"
      by (simp add: WholeInt64_Some in64_def MaxInt64_def MinInt64_def)
    have c: "i < ?t \<Longrightarrow> of_int i < q" "?t < i \<Longrightarrow> q < of_int i" "i = ?t \<Longrightarrow> of_int i = (of_int ?t :: rat)"
      by (auto simp: truncate_rat_def less_floor_iff floor_less_iff less_ceiling_iff ceiling_less_iff split: if_splits)
         (linarith+)?
    have z: "exprCompareIntFloat i f =
        (if i < ?t then Some (- 1) else if ?t < i then Some 1
         else if of_int ?t < q then Some (- 1) else if q < of_int ?t then Some 1 else Some 0)"
      using 3 w by (simp add: Fin exprCompareIntFloat_def del: WholeInt64.simps)
    show ?thesis unfolding z using c by (cases i ?t rule: linorder_cases) (auto simp: Fin compareFloats_def)
  qed (use iq in \<open>auto simp: Fin exprCompareIntFloat_def compareFloats_def\<close>)
qed (auto simp: exprCompareIntFloat_def compareFloats_def)

definition compareAs :: "float64 option \<Rightarrow> float64 option \<Rightarrow> int option" where
  "compareAs a b = (case (a, b) of (Some x, Some y) \<Rightarrow> compareFloats x y | _ \<Rightarrow> None)"

lemma compareFloats_swap: "map_option uminus (compareFloats b a) = compareFloats a b"
  by (cases a; cases b) (auto simp: compareFloats_def)

lemma loopCompareNumbers_exact:
  "exactNums a \<Longrightarrow> exactNums b \<Longrightarrow> loopCompareNumbers a b = compareAs (numF a) (numF b)"
  by (cases a; cases b) (auto simp: loopCompareNumbers_def compareAs_def compareFloats_def float_of_int_exact)

lemma exprNumberOf_exact:
  assumes "exactNums a" "exactNums b"
  shows "(case exprNumberOf a of None \<Rightarrow> None | Some x \<Rightarrow> (case exprNumberOf b of None \<Rightarrow> None | Some y \<Rightarrow> exprCompareNumbers x y)) =
    compareAs (numF a) (numF b)"
  using assms
  by (cases a; cases b) (auto simp: compareAs_def compareIntFloat_exact compareFloats_swap, auto simp: compareFloats_def)

lemma exprNumberOf_None: "exprNumberOf a = None \<longleftrightarrow> numF a = None"
  by (cases a) auto

text \<open>The table of numbers: both readings of two values compare alike.\<close>

lemma compare_agrees:
  assumes "asRead a a'" "asRead b b'" "exactNums a" "exactNums b"
  shows "(case exprNumberOf a' of None \<Rightarrow> None | Some x \<Rightarrow> (case exprNumberOf b' of None \<Rightarrow> None | Some y \<Rightarrow> exprCompareNumbers x y)) =
    loopCompareNumbers a b"
  using assms asRead_numF [OF assms(1,3)] asRead_numF [OF assms(2,4)]
  by (simp add: exprNumberOf_exact loopCompareNumbers_exact)

lemma mapsEqual_agrees:
  assumes m: "mapsEqual asRead m m'" "distinct (map fst m)" "distinct (map fst m')"
    and n: "mapsEqual asRead n n'" "distinct (map fst n)" "distinct (map fst n')"
    and eq: "\<And>k u v u' v'. (k, u) \<in> set m \<Longrightarrow> (k, v) \<in> set n \<Longrightarrow> asRead u u' \<Longrightarrow> asRead v v' \<Longrightarrow> e u v = e' u' v'"
  shows "mapsEqual e m n = mapsEqual e' m' n'"
proof -
  have look: "\<exists>w. map_of y k = Some w \<and> asRead v w" if "mapsEqual asRead x y" "(k, v) \<in> set x" for x y k v
    using that by (force simp: mapsEqual_def list_all_iff split: option.splits)
  have km: "fst ` set m' = fst ` set m" and kn: "fst ` set n' = fst ` set n"
    using mapsEqual_keys [OF m] mapsEqual_keys [OF n] by auto
  have len: "length m' = length m" "length n' = length n" using m(1) n(1) by (auto simp: mapsEqual_def)
  have pt: "(case map_of n k of None \<Rightarrow> False | Some w \<Rightarrow> e u w) = (case map_of n' k of None \<Rightarrow> False | Some w \<Rightarrow> e' u' w)"
    if k: "(k, u) \<in> set m" "asRead u u'" for k u u'
  proof (cases "map_of n k")
    case None
    then have "map_of n' k = None" by (simp add: map_of_eq_None_iff kn)
    then show ?thesis using None by simp
  next
    case (Some v)
    then have v: "(k, v) \<in> set n" by (rule map_of_SomeD)
    obtain v' where "map_of n' k = Some v'" "asRead v v'" using look [OF n(1) v] by blast
    then show ?thesis using Some eq [OF k(1) v k(2)] by simp
  qed
  have "(\<forall>(k, u) \<in> set m. case map_of n k of None \<Rightarrow> False | Some w \<Rightarrow> e u w) \<longleftrightarrow>
      (\<forall>(k, u') \<in> set m'. case map_of n' k of None \<Rightarrow> False | Some w \<Rightarrow> e' u' w)" (is "?L = ?R")
  proof
    assume l: ?L
    show ?R
    proof clarify
      fix k u' assume u': "(k, u') \<in> set m'"
      then obtain u where u: "(k, u) \<in> set m" using km by (metis (no_types, lifting) fst_conv image_iff prod.collapse)
      have "map_of m' k = Some u'" using u' m(3) by simp
      then have "asRead u u'" using look [OF m(1) u] by auto
      then show "case map_of n' k of None \<Rightarrow> False | Some w \<Rightarrow> e' u' w" using l u pt by fastforce
    qed
  next
    assume r: ?R
    show ?L
    proof clarify
      fix k u assume u: "(k, u) \<in> set m"
      then obtain u' where u': "map_of m' k = Some u'" "asRead u u'" using look [OF m(1) u] by blast
      then have "(k, u') \<in> set m'" by (simp add: map_of_SomeD)
      then show "case map_of n k of None \<Rightarrow> False | Some w \<Rightarrow> e u w" using r pt [OF u u'(2)] by fastforce
    qed
  qed
  then show ?thesis by (simp add: mapsEqual_def len list_all_iff case_prod_beta)
qed

lemma strictEqual_agrees:
  "asRead a a' \<Longrightarrow> asRead b b' \<Longrightarrow> exactNums a \<Longrightarrow> exactNums b \<Longrightarrow> loopStrictEqual a b = exprStrictEqual a' b'"
proof (induction a arbitrary: a' b b')
  case (VInt i)
  have "loopStrictEqual (VInt i) b \<longleftrightarrow> loopCompareNumbers (VInt i) b = Some 0" by simp
  also have "\<dots> \<longleftrightarrow> exprStrictEqual a' b'"
    using VInt.prems(1) by (auto simp flip: compare_agrees [OF VInt.prems] split: option.splits)
  finally show ?case .
next
  case (VFloat f)
  have "loopStrictEqual (VFloat f) b \<longleftrightarrow> loopCompareNumbers (VFloat f) b = Some 0" by simp
  also have "\<dots> \<longleftrightarrow> exprStrictEqual a' b'"
    using VFloat.prems(1) by (auto simp flip: compare_agrees [OF VFloat.prems] split: option.splits)
  finally show ?case .
next
  case (VList xs)
  obtain xs' where xs': "a' = VList xs'" "list_all2 asRead xs xs'" using VList.prems(1) by (cases a') auto
  show ?case
  proof (cases b)
    case (VList ys)
    then obtain ys' where ys': "b' = VList ys'" "list_all2 asRead ys ys'" using VList.prems(2) by (cases b') auto
    have "loopStrictEqual (xs ! i) (ys ! i) = exprStrictEqual (xs' ! i) (ys' ! i)" if "i < length xs" "i < length ys" for i
      using xs'(2) ys'(2) VList.prems(3,4) \<open>b = VList ys\<close> that
      by (intro VList.IH) (auto simp: list_all2_conv_all_nth list_all_length)
    then have "list_all2 loopStrictEqual xs ys = list_all2 exprStrictEqual xs' ys'"
      using xs'(2) ys'(2) by (auto simp: list_all2_conv_all_nth)
    then show ?thesis by (simp add: xs' ys' VList)
  qed (use VList.prems(2) xs' in \<open>auto split: xval.splits\<close>)
next
  case (VMap m)
  obtain m' where m': "a' = VMap m'" "mapsEqual asRead m m'" "distinct (map fst m)" "distinct (map fst m')"
    using VMap.prems(1) by (cases a') auto
  show ?case
  proof (cases b)
    case (VMap n)
    then obtain n' where n': "b' = VMap n'" "mapsEqual asRead n n'" "distinct (map fst n)" "distinct (map fst n')"
      using VMap.prems(2) by (cases b') auto
    have "mapsEqual loopStrictEqual m n = mapsEqual exprStrictEqual m' n'"
    proof (rule mapsEqual_agrees [OF m'(2-4) n'(2-4)])
      fix k u v u' v' assume kv: "(k, u) \<in> set m" "(k, v) \<in> set n" "asRead u u'" "asRead v v'"
      have "exactNums u" "exactNums v"
        using VMap.prems(3,4) \<open>b = VMap n\<close> kv(1,2) by (auto simp: list_all_iff)
      then show "loopStrictEqual u v = exprStrictEqual u' v'"
        using VMap.IH [of "(k, u)" u u' v v'] kv by simp
    qed
    then show ?thesis by (simp add: m' n' VMap)
  qed (use VMap.prems(2) m' in \<open>auto split: xval.splits\<close>)
qed (auto elim!: asRead.elims split: xval.splits)

section \<open>Answers\<close>

fun reads :: "pval \<Rightarrow> xval \<Rightarrow> bool" where
  "reads (pKnown k) v \<longleftrightarrow> asRead k v"
| "reads pAbsent v \<longleftrightarrow> v = VAbsent"
| "reads (pUnknown _) v \<longleftrightarrow> True"

fun pExact :: "pval \<Rightarrow> bool" where
  "pExact (pKnown k) \<longleftrightarrow> exactNums k"
| "pExact _ \<longleftrightarrow> True"

text \<open>A verdict and an answer of the run that does not contradict it.\<close>

definition agrees :: "verdict3 \<Rightarrow> bool \<Rightarrow> bool" where
  "agrees t b \<longleftrightarrow> (fst t = triTrue \<longrightarrow> b) \<and> (fst t = triFalse \<longrightarrow> \<not> b)"

lemma asRead_unset:
  "asRead k v \<Longrightarrow> exprIsUnset v \<longleftrightarrow> k = VNil \<or> k = VString ''''"
  by (cases k) (auto simp: exprIsUnset_def split: xval.splits)

lemma unset_agrees: "reads p v \<Longrightarrow> \<not> isUnknown p \<Longrightarrow> exprIsUnset v = loopUnset p"
  by (cases p) (auto simp: loopUnset_def asRead_unset, auto simp: exprIsUnset_def)

lemma equal_agrees:
  assumes "reads l a" "reads r b" "\<not> isUnknown l" "\<not> isUnknown r" "pExact l" "pExact r"
  shows "exprEqual a b = loopEqual l r"
  using assms unset_agrees [OF assms(1,3)] unset_agrees [OF assms(2,4)] strictEqual_agrees
  by (cases l; cases r) (auto simp: exprEqual_def loopEqual_def loopUnset_def)

lemma asRead_present: "asRead k v \<Longrightarrow> v \<noteq> VAbsent"
  by (cases k) auto

lemma unorderable_agrees:
  assumes "reads p v" "\<not> isUnknown p" "\<not> loopOrderable p"
  shows "\<not> exprOrdered opr v w" "\<not> exprOrdered opr w v"
proof -
  have "exprNumberOf v = None \<and> (\<forall>s. v \<noteq> VString s)"
    using assms by (cases p) (auto elim: loopOrderable.elims split: xval.splits simp: loopOrderable.simps elim!: asRead.elims)
  then show "\<not> exprOrdered opr v w" "\<not> exprOrdered opr w v"
    by (auto simp: exprOrdered_def split: option.splits xval.splits)
qed

lemma ordered_agrees:
  assumes "asRead k a" "asRead j b" "exactNums k" "exactNums j" "loopOrderable (pKnown k)" "loopOrderable (pKnown j)"
  shows "exprOrdered opr a b = loopOrdered opr k j"
  using compare_agrees [OF assms(1-4)] assms
  by (cases k; cases j) (auto simp: exprOrdered_def loopOrdered_def loopCompareNumbers_def split: option.splits)

lemma compareP_agrees:
  assumes "reads l a" "reads r b" "pExact l" "pExact r"
    and "opr \<in> {''=='', ''!='', ''<'', ''<='', ''>'', ''>=''}" "binaryValues lib st opr a b = Inr v"
  shows "\<exists>c. v = VBool c \<and> agrees (compareP opr l r) c"
proof (cases "opr = ''=='' \<or> opr = ''!=''")
  case True
  have "v = VBool (if opr = ''!='' then \<not> exprEqual a b else exprEqual a b)"
    using True assms(6) by (auto simp: binaryValues_def)
  then show ?thesis
    using True equal_agrees [OF assms(1,2) _ _ assms(3,4)] by (auto simp: compareP_def agrees_def triOf_def)
next
  case False
  then have v: "v = VBool (exprOrdered opr a b)" using assms(5,6) by (auto simp: binaryValues_def)
  have "agrees (compareP opr l r) (exprOrdered opr a b)"
    using False assms(1-4) unorderable_agrees [OF assms(1)] unorderable_agrees [OF assms(2)]
      ordered_agrees [of "pv l" a "pv r" b opr]
    by (cases l; cases r) (auto simp: compareP_def agrees_def triOf_def)
  then show ?thesis using v by blast
qed

lemma inElems_agrees:
  assumes "reads l a" "pExact l"
  shows "list_all2 reads ps ws \<Longrightarrow> list_all pExact ps \<Longrightarrow> fst out \<noteq> triTrue \<Longrightarrow> agrees out b \<Longrightarrow>
    agrees (inElems l out ps) (b \<or> list_ex (exprEqual a) (filter (\<lambda>v. v \<noteq> VAbsent) ws))"
proof (induction ps ws arbitrary: out b rule: list_all2_induct)
  case (Cons p ps w ws)
  have pp: "list_all pExact ps" "pExact p" using Cons.prems(1) by simp_all
  consider (absent) "p = pAbsent" | (unknown) "p \<noteq> pAbsent" "isUnknown l \<or> isUnknown p"
    | (known) k where "p = pKnown k" "\<not> isUnknown l" by (cases p) auto
  then show ?case
  proof cases
    case absent
    then show ?thesis using Cons.IH [OF pp(1) Cons.prems(2,3)] Cons.hyps(1) by simp
  next
    case unknown
    let ?out = "if fst out = triFalse then (triUnknown, if isUnknown l then whyOf l else whyOf p) else out"
    have o: "fst ?out = triUnknown" using Cons.prems(2) by (cases "fst out") auto
    then have "agrees ?out c" for c by (auto simp: agrees_def)
    then show ?thesis
      using unknown o Cons.IH [OF pp(1), of ?out "b \<or> (w \<noteq> VAbsent \<and> exprEqual a w)"]
      by (cases "w = VAbsent") (simp_all add: disj_assoc split: if_splits)
  next
    case known
    have w: "w \<noteq> VAbsent" using Cons.hyps(1) known by (auto dest: asRead_present)
    have eq: "exprEqual a w = loopEqual l p"
      using equal_agrees [OF assms(1) Cons.hyps(1)] known assms(2) pp(2) by simp
    show ?thesis
    proof (cases "loopEqual l p")
      case True
      then show ?thesis using known w eq by (simp add: agrees_def)
    next
      case False
      then show ?thesis using known w eq Cons.IH [OF pp(1) Cons.prems(2,3)] by simp
    qed
  qed
qed simp

text \<open>The prefixes the load collects of a right side, and what the run does with that side.\<close>

definition prefixRel :: "verdict3 + string list \<Rightarrow> xval \<Rightarrow> bool" where
  "prefixRel pre b \<longleftrightarrow>
     (case pre of
        Inl t \<Rightarrow> fst t = triUnknown \<or> (fst t = triFalse \<and> (\<forall>a. exprStartsWith a b \<noteq> Inr True))
      | Inr ss \<Rightarrow> \<forall>a c. exprStartsWith a b = Inr c \<longrightarrow> c = prefixTest a ss)"

lemma prefixElems_strings:
  "list_all2 reads ps ws \<Longrightarrow>
   (case prefixElems ps of
      Inl t \<Rightarrow> fst t = triUnknown \<or> (fst t = triFalse \<and> \<not> list_all exprIsStringOrAbsent (filter (\<lambda>v. v \<noteq> VAbsent) ws))
    | Inr ss \<Rightarrow> stringsIn (filter (\<lambda>v. v \<noteq> VAbsent) ws) = ss)"
proof (induction ps ws rule: list_all2_induct)
  case (Cons p ps w ws)
  show ?case
  proof (cases p)
    case (pKnown k)
    have w: "asRead k w" "w \<noteq> VAbsent" using Cons.hyps(1) pKnown by (auto dest: asRead_present)
    show ?thesis
    proof (cases "prefixElems ps")
      case (Inl t)
      then show ?thesis using Cons.IH w pKnown by (cases k) (auto split: xval.splits)
    next
      case (Inr ss)
      then show ?thesis using Cons.IH w pKnown by (cases k) (auto split: xval.splits)
    qed
  next
    case pAbsent
    then show ?thesis using Cons by (cases "prefixElems ps") auto
  qed (use Cons in auto)
qed simp

lemma prefixElems_rel:
  "list_all2 reads ps ws \<Longrightarrow> prefixRel (prefixElems ps) (VList (filter (\<lambda>v. v \<noteq> VAbsent) ws))"
  using prefixElems_strings [of ps ws] by (auto simp: prefixRel_def split: sum.splits)

lemma prefixValue_rel:
  assumes "reads p b" "\<forall>vs. p \<noteq> pKnown (VList vs)"
  shows "prefixRel (prefixValue p) b"
proof (cases p)
  case (pKnown k)
  then show ?thesis using assms by (cases k) (auto simp: prefixRel_def split: xval.splits)
qed (use assms in \<open>auto simp: prefixRel_def\<close>)

lemma startsWithP_agrees:
  assumes "reads l a" "prefixRel pre b" "exprStartsWith a b = Inr c"
  shows "agrees (startsWithP l pre) c"
proof -
  have str: "\<not> c" if "\<forall>s. a \<noteq> VString s"
    using assms(3) that by (cases b; cases a) (auto simp: prefixTest_def split: if_splits)
  show ?thesis
  proof (cases "l = pAbsent \<or> (\<not> isUnknown l \<and> \<not> isString (pv l))")
    case True
    then have "\<forall>s. a \<noteq> VString s" using assms(1) by (cases l) (auto elim: asRead.elims split: xval.splits)
    then show ?thesis using True str by (simp add: startsWithP_def agrees_def)
  next
    case False
    then have l: "isUnknown l \<or> (\<exists>s. l = pKnown (VString s) \<and> a = VString s)"
      using assms(1) by (cases l) (auto elim!: isString.elims)
    show ?thesis
    proof (cases pre)
      case (Inl t)
      then show ?thesis using False assms(2,3) by (auto simp: startsWithP_def agrees_def prefixRel_def)
    next
      case (Inr ss)
      then have "c = prefixTest a ss" using assms(2,3) by (auto simp: prefixRel_def)
      then show ?thesis using False l Inr
        by (cases a; cases l) (auto simp: startsWithP_def agrees_def prefixTest_def startsWithAny_def normalizePrefixValues_def
            triOf_def Let_def)
    qed
  qed
qed

lemma coalesce_final: "reads r w \<Longrightarrow> reads (case r of pAbsent \<Rightarrow> pKnown VNil | _ \<Rightarrow> r) (exprUnsentinel w)"
  by (cases r) (auto simp: exprUnsentinel_def dest: asRead_present)

lemma blank_agrees: "asRead k v \<Longrightarrow> coalesceBlank v = loopBlank k"
  by (cases k) (auto simp: coalesceBlank_def loopBlank_def split: xval.splits)

section \<open>Computations\<close>

abbreviation answers :: "('a \<Rightarrow> bool) \<Rightarrow> 'a comp \<Rightarrow> bool" where
  "answers Q m \<equiv> sat (\<lambda>_ _ _. True) \<infinity> Q m"

interpretation anyStep: step_law "\<lambda>_ _ _. True"
  by unfold_locales auto

lemma answers_iff: "answers Q m \<longleftrightarrow> (\<forall>s v. fst (m s) = Inr v \<longrightarrow> Q v)"
  by (auto simp: sat_def)

lemma answers_True: "answers (\<lambda>_. True) m"
  by (simp add: answers_iff)

lemma answers_unknown: "answers (reads (pUnknown w)) m"
  by (simp add: answers_iff)

lemma answers_then: "answers Q m \<Longrightarrow> (\<And>x. Q x \<Longrightarrow> answers R (f x)) \<Longrightarrow> answers R (andThen m f)"
  using anyStep.sat_andThen [of \<infinity> Q m \<infinity> R f] by simp

lemma answers_after: "(\<And>x. answers R (f x)) \<Longrightarrow> answers R (andThen m f)"
  by (rule answers_then [OF answers_True])

lemma answers_mono: "answers Q m \<Longrightarrow> (\<And>v. Q v \<Longrightarrow> R v) \<Longrightarrow> answers R m"
  by (simp add: answers_iff)

lemma answers_lift: "(\<And>v. r = Inr v \<Longrightarrow> Q v) \<Longrightarrow> answers Q (lift r)"
  by (simp add: answers_iff lift_def)

lemma answers_list:
  "list_all2 (\<lambda>p c. answers (reads p) c) ps cs \<Longrightarrow>
   answers (\<lambda>vs. \<exists>ws. list_all2 reads ps ws \<and> vs = filter (\<lambda>v. v \<noteq> VAbsent) ws) (listLiteral cs)"
proof (induction ps cs rule: list_all2_induct)
  case (Cons p ps c cs)
  show ?case
    unfolding listLiteral.simps
  proof (rule answers_then [OF Cons.hyps(1)])
    fix v assume v: "reads p v"
    show "answers (\<lambda>vs. \<exists>ws. list_all2 reads (p # ps) ws \<and> vs = filter (\<lambda>v. v \<noteq> VAbsent) ws)
        (andThen (listLiteral cs) (\<lambda>vs. ret (if v = VAbsent then vs else v # vs)))"
    proof (rule answers_then [OF Cons.IH], elim exE conjE, rule anyStep.sat_ret)
      fix vs ws assume "list_all2 reads ps ws" "vs = filter (\<lambda>v. v \<noteq> VAbsent) ws"
      then show "\<exists>ws. list_all2 reads (p # ps) ws \<and> (if v = VAbsent then vs else v # vs) = filter (\<lambda>v. v \<noteq> VAbsent) ws"
        using v by (intro exI [of _ "v # ws"]) simp
    qed
  qed
qed (simp add: anyStep.sat_ret)

lemma condition_agrees: "reads p v \<Longrightarrow> answers (agrees (condOfValue p)) (condition st v)"
proof (cases p)
  case (pKnown k)
  moreover assume "reads p v"
  ultimately show ?thesis
    by (cases k) (auto simp: condition_def agrees_def triOf_def answers_iff ret_def refuse_def fail_def split: xval.splits)
qed (auto simp: condition_def agrees_def answers_iff ret_def)

lemma condition_bool: "(\<exists>c. v = VBool c \<and> agrees t c) \<Longrightarrow> answers (agrees t) (condition st v)"
  by (auto simp: condition_def answers_iff ret_def)

lemma condValue_agrees: "agrees t c \<Longrightarrow> reads (condValue t) (VBool c)"
  by (cases t; cases "fst t") (auto simp: agrees_def condValue_def)

lemma condValue_exact: "pExact (condValue t)"
  by (simp add: condValue_def)

lemma agrees_unknown: "fst t = triUnknown \<Longrightarrow> agrees t c"
  by (simp add: agrees_def)

lemma triNot_agrees: "agrees t b \<Longrightarrow> agrees (triNot t) (\<not> b)"
  by (cases t rule: triNot.cases) (auto simp: agrees_def)

lemma triAnd_agrees: "agrees l a \<Longrightarrow> agrees r b \<Longrightarrow> agrees (triAnd l r) (a \<and> b)"
  by (auto simp: agrees_def triAnd_def)

lemma triOr_agrees: "agrees l a \<Longrightarrow> agrees r b \<Longrightarrow> agrees (triOr l r) (a \<or> b)"
  by (auto simp: agrees_def triOr_def)

text \<open>A short-circuited operand leaves the verdict of the whole as the other one decides it.\<close>

lemma triAnd_short: "agrees l False \<Longrightarrow> agrees (triAnd l r) False"
  by (auto simp: agrees_def triAnd_def)

lemma triOr_short: "agrees l True \<Longrightarrow> agrees (triOr l r) True"
  by (auto simp: agrees_def triOr_def)

section \<open>The filters the statement is about\<close>

text \<open>
  A filter as the parser writes one (scalar literals, trimmed field names), with integers a float64
  holds exactly, in which no known list stands on the right of \<^verbatim>\<open>startsWith\<close> but a list literal.
\<close>

fun plainLiteral :: "xval \<Rightarrow> bool" where
  "plainLiteral (VInt i) \<longleftrightarrow> \<bar>i\<bar> \<le> 2 ^ 53"
| "plainLiteral (VList _) \<longleftrightarrow> False"
| "plainLiteral (VMap _) \<longleftrightarrow> False"
| "plainLiteral (VRow _ _ _ _ _ _ _) \<longleftrightarrow> False"
| "plainLiteral VAbsent \<longleftrightarrow> False"
| "plainLiteral _ \<longleftrightarrow> True"

definition listPrefix :: "filterDecider \<Rightarrow> expr \<Rightarrow> bool" where
  "listPrefix d r \<longleftrightarrow>
     (case Unparen r of
        ListE _ \<Rightarrow> False
      | _ \<Rightarrow> (case decideValue d r of pKnown (VList _) \<Rightarrow> True | _ \<Rightarrow> False))"

fun filterOk :: "filterDecider \<Rightarrow> expr \<Rightarrow> bool" where
  "filterOk d (ParenE e) \<longleftrightarrow> filterOk d e"
| "filterOk d (LiteralE v) \<longleftrightarrow> plainLiteral v"
| "filterOk d (MemberE e f) \<longleftrightarrow> TrimSpace f = f \<and> filterOk d e"
| "filterOk d (UnaryE opr e) \<longleftrightarrow> filterOk d e"
| "filterOk d (BinaryE opr l r) \<longleftrightarrow> filterOk d l \<and> filterOk d r \<and> (opr = ''startsWith'' \<longrightarrow> \<not> listPrefix d r)"
| "filterOk d (ListE es) \<longleftrightarrow> list_all (filterOk d) es"
| "filterOk d e \<longleftrightarrow> True"

lemma filterOk_elem: "filterOk d r \<Longrightarrow> Unparen r = ListE es \<Longrightarrow> e \<in> set es \<Longrightarrow> filterOk d e"
  by (induction r rule: Unparen.induct) (auto simp: list_all_iff)

lemma eval_list:
  assumes "\<And>e. e \<in> set es \<Longrightarrow> answers (reads (f e)) (eval o1 n sc e)"
  shows "Unparen r = ListE es \<Longrightarrow>
    answers (\<lambda>v. \<exists>ws. list_all2 reads (map f es) ws \<and> v = VList (filter (\<lambda>v. v \<noteq> VAbsent) ws)) (eval o1 n sc r)"
proof (induction r)
  case (ParenE r)
  then show ?case by (auto intro!: answers_after)
next
  case (ListE es')
  then have "answers (\<lambda>vs. \<exists>ws. list_all2 reads (map f es) ws \<and> vs = filter (\<lambda>v. v \<noteq> VAbsent) ws)
      (listLiteral (map (\<lambda>e. eval o1 n sc e) es'))"
    using assms by (intro answers_list) (simp add: list_all2_conv_all_nth)
  then show ?case
    unfolding eval.simps by (intro answers_after [of _ "\<lambda>_. _"]) (erule answers_then, auto intro!: anyStep.sat_ret)
qed simp_all

lemma member_absent: "foldl (exprMember lib) VAbsent fs = VAbsent"
  by (induction fs) auto

lemma readThrough_agrees:
  "reads p v \<Longrightarrow> reads (readThrough e p fs) (foldl (exprMember lib) v fs)"
proof (induction e p fs arbitrary: v rule: readThrough.induct)
  case (3 e m f fs)
  then obtain n where n: "v = VMap n" "mapsEqual asRead m n" "distinct (map fst m)" "distinct (map fst n)"
    by (auto split: xval.splits)
  show ?case
  proof (cases "map_of m f")
    case None
    then have "map_of n f = None" using mapsEqual_keys [OF n(2-4)] by (simp add: map_of_eq_None_iff)
    then show ?thesis using None by (simp add: n(1) readKey_def member_absent)
  next
    case (Some x)
    then have "\<exists>w. map_of n f = Some w \<and> asRead x w"
      using n(2) by (force dest: map_of_SomeD simp: mapsEqual_def list_all_iff split: option.splits)
    then show ?thesis using Some 3(1) [OF Some] by (auto simp: n(1) readKey_def)
  qed
qed (auto simp: member_absent)

lemma readThrough_exact: "pExact p \<Longrightarrow> pExact (readThrough e p fs)"
proof (induction e p fs rule: readThrough.induct)
  case (3 e m f fs)
  then show ?case by (force dest: map_of_SomeD simp: list_all_iff split: option.splits)
qed auto

section \<open>Operators\<close>

lemma path_value:
  "memberPath acc e = Some (rt, gs) \<Longrightarrow> eo_root o1 rt = Some w \<Longrightarrow> filterOk d e \<Longrightarrow>
   \<exists>fs. gs = fs @ acc \<and> list_all (\<lambda>f. TrimSpace f = f) fs \<and>
     answers (\<lambda>v. v = foldl (exprMember (eo_lib o1)) w fs) (eval o1 n RootScope e)"
proof (induction acc e rule: memberPath.induct)
  case (1 acc e f)
  then obtain fs where fs: "gs = fs @ f # acc" "list_all (\<lambda>f. TrimSpace f = f) fs"
    "answers (\<lambda>v. v = foldl (exprMember (eo_lib o1)) w fs) (eval o1 n RootScope e)" by auto
  have "answers (\<lambda>v. v = foldl (exprMember (eo_lib o1)) w (fs @ [f])) (eval o1 n RootScope (MemberE e f))"
    unfolding eval.simps by (intro answers_after [of _ "\<lambda>_. _"] answers_then [OF fs(3)]) (simp add: anyStep.sat_ret)
  then show ?case using fs 1(4) by (intro exI [of _ "fs @ [f]"]) simp
next
  case (2 acc m)
  then show ?case by (intro exI [of _ "[]"]) (simp add: ident_def answers_after anyStep.sat_ret)
qed auto

lemma bool_cond:
  "answers (\<lambda>v. \<exists>c. v = VBool c \<and> agrees t c) m \<Longrightarrow> answers (agrees t) (andThen m (condition st))"
  by (erule answers_then) (rule condition_bool)

lemma bool_value:
  "answers (\<lambda>v. \<exists>c. v = VBool c \<and> agrees t c) m \<Longrightarrow> answers (reads (condValue t)) m"
  by (erule answers_mono) (auto simp: condValue_agrees)

lemma not_sound:
  "answers (agrees t) (evalCondition o1 n RootScope e) \<Longrightarrow>
   answers (\<lambda>v. \<exists>c. v = VBool c \<and> agrees (triNot t) c) (eval o1 n RootScope (UnaryE ''!'' e))"
  unfolding eval.simps unary_def
  by (simp, rule answers_after, erule answers_then) (auto intro: anyStep.sat_ret triNot_agrees)

lemma logic_sound:
  assumes "answers (agrees a) (evalCondition o1 n RootScope l)" "answers (agrees b) (evalCondition o1 n RootScope r)"
  shows "answers (\<lambda>v. \<exists>c. v = VBool c \<and> agrees (triAnd a b) c) (eval o1 n RootScope (BinaryE ''&&'' l r))"
    and "answers (\<lambda>v. \<exists>c. v = VBool c \<and> agrees (triOr a b) c) (eval o1 n RootScope (BinaryE ''||'' l r))"
proof -
  have conj: "binary o1 st ''&&'' el er cl cr = andThen cl (\<lambda>x. if x then andThen cr (\<lambda>y. ret (VBool y)) else ret (VBool False))"
    and disj: "binary o1 st ''||'' el er cl cr = andThen cl (\<lambda>x. if x then ret (VBool True) else andThen cr (\<lambda>y. ret (VBool y)))"
    for st el er cl cr by (auto simp: binary_def intro!: arg_cong [of _ _ "andThen cl"])
  have right: "answers (\<lambda>v. \<exists>c. v = VBool c \<and> agrees t c) (andThen (evalCondition o1 n RootScope r) (\<lambda>y. ret (VBool y)))"
    if "\<And>y. agrees b y \<Longrightarrow> agrees t y" for t
    by (rule answers_then [OF assms(2)]) (simp add: anyStep.sat_ret that)
  show "answers (\<lambda>v. \<exists>c. v = VBool c \<and> agrees (triAnd a b) c) (eval o1 n RootScope (BinaryE ''&&'' l r))"
    unfolding eval.simps conj
  proof (rule answers_after, rule answers_then [OF assms(1)])
    fix x assume x: "agrees a x"
    show "answers (\<lambda>v. \<exists>c. v = VBool c \<and> agrees (triAnd a b) c)
        (if x then andThen (evalCondition o1 n RootScope r) (\<lambda>y. ret (VBool y)) else ret (VBool False))"
      using x right [of "triAnd a b"] triAnd_agrees [of a True b] triAnd_short [of a b]
      by (cases x) (simp, simp, rule anyStep.sat_ret, rule exI [of _ False], simp)
  qed
  show "answers (\<lambda>v. \<exists>c. v = VBool c \<and> agrees (triOr a b) c) (eval o1 n RootScope (BinaryE ''||'' l r))"
    unfolding eval.simps disj
  proof (rule answers_after, rule answers_then [OF assms(1)])
    fix x assume x: "agrees a x"
    show "answers (\<lambda>v. \<exists>c. v = VBool c \<and> agrees (triOr a b) c)
        (if x then ret (VBool True) else andThen (evalCondition o1 n RootScope r) (\<lambda>y. ret (VBool y)))"
      using x right [of "triOr a b"] triOr_agrees [of a False b] triOr_short [of a b]
      by (cases x) (simp, rule anyStep.sat_ret, rule exI [of _ True], simp, simp)
  qed
qed

lemma values_sound:
  assumes "answers P (eval o1 n RootScope l)" "answers Q (eval o1 n RootScope r)" "opr \<notin> {''&&'', ''||'', ''??''}"
    and "\<And>a b v. P a \<Longrightarrow> Q b \<Longrightarrow> binaryValues (eo_lib o1) (exprStoredRead o1 RootScope r) opr a b = Inr v \<Longrightarrow> R v"
  shows "answers R (eval o1 n RootScope (BinaryE opr l r))"
  unfolding eval.simps binary_def using assms(3)
  by (simp, intro answers_after [of _ "\<lambda>_. _"] answers_then [OF assms(1)] answers_then [OF assms(2)] answers_lift) (rule assms(4))

lemma coalesce_sound:
  assumes "answers (reads p) (eval o1 n RootScope l)" "answers (reads q) (eval o1 n RootScope r)"
  shows "answers (reads (coalesceP p q)) (eval o1 n RootScope (BinaryE ''??'' l r))"
proof -
  have fin: "answers (reads (case q of pAbsent \<Rightarrow> pKnown VNil | _ \<Rightarrow> q)) (andThen (eval o1 n RootScope r) (\<lambda>v. ret (exprUnsentinel v)))"
    by (rule answers_then [OF assms(2)]) (rule anyStep.sat_ret, rule coalesce_final)
  have step: "answers (reads (coalesceP p q))
      (if coalesceBlank v then andThen (eval o1 n RootScope r) (\<lambda>v. ret (exprUnsentinel v)) else ret v)"
    if "reads p v" for v
  proof -
    have "coalesceBlank VAbsent" by (simp add: coalesceBlank_def)
    then show ?thesis
      using that fin by (cases p) (auto simp: coalesceP_def blank_agrees answers_unknown anyStep.sat_ret)
  qed
  show ?thesis
    unfolding eval.simps binary_def
    by (simp, rule answers_after, rule answers_then [OF assms(1)]) (drule step, simp split: if_splits)
qed

definition sound :: "evalOptions \<Rightarrow> nat \<Rightarrow> filterDecider \<Rightarrow> expr \<Rightarrow> bool" where
  "sound o1 n d e \<longleftrightarrow>
     answers (reads (decideValue d e)) (eval o1 n RootScope e) \<and> pExact (decideValue d e) \<and>
     answers (agrees (decideCond d e)) (evalCondition o1 n RootScope e)"

lemma in_sound:
  assumes l: "sound o1 n d l" and r: "sound o1 n d r"
    and es: "\<And>es e. Unparen r = ListE es \<Longrightarrow> e \<in> set es \<Longrightarrow> sound o1 n d e"
  shows "answers (\<lambda>v. \<exists>c. v = VBool c \<and> agrees (decideCond d (BinaryE ''in'' l r)) c) (eval o1 n RootScope (BinaryE ''in'' l r))"
proof (cases "\<exists>es. Unparen r = ListE es")
  case True
  then obtain es where u: "Unparen r = ListE es" by blast
  let ?ps = "map (\<lambda>e. decideValue d e) es"
  have lst: "answers (\<lambda>v. \<exists>ws. list_all2 reads ?ps ws \<and> v = VList (filter (\<lambda>v. v \<noteq> VAbsent) ws)) (eval o1 n RootScope r)"
    using es [OF u] by (intro eval_list [OF _ u]) (simp add: sound_def)
  have px: "list_all pExact ?ps" using es [OF u] by (simp add: sound_def list_all_iff)
  show ?thesis
  proof (rule values_sound [of "reads (decideValue d l)", OF _ lst])
    show "answers (reads (decideValue d l)) (eval o1 n RootScope l)" using l by (simp add: sound_def)
    fix a b v
    assume a: "reads (decideValue d l) a" and b: "\<exists>ws. list_all2 reads ?ps ws \<and> b = VList (filter (\<lambda>v. v \<noteq> VAbsent) ws)"
      and v: "binaryValues (eo_lib o1) (exprStoredRead o1 RootScope r) ''in'' a b = Inr v"
    then obtain ws where ws: "list_all2 reads ?ps ws" "b = VList (filter (\<lambda>v. v \<noteq> VAbsent) ws)" by blast
    have "v = VBool (list_ex (exprEqual a) (filter (\<lambda>v. v \<noteq> VAbsent) ws))"
      using v by (simp add: ws(2) binaryValues_def)
    moreover have "agrees (decideCond d (BinaryE ''in'' l r)) (list_ex (exprEqual a) (filter (\<lambda>v. v \<noteq> VAbsent) ws))"
      using inElems_agrees [OF a _ ws(1) px, of "(triFalse, NoWhy)" False] l by (simp add: u sound_def agrees_def)
    ultimately show "\<exists>c. v = VBool c \<and> agrees (decideCond d (BinaryE ''in'' l r)) c" by blast
  qed simp
next
  case False
  then have dc: "decideCond d (BinaryE ''in'' l r) = inValue r (decideValue d r)" by (simp split: expr.splits)
  show ?thesis
  proof (rule values_sound [of "\<lambda>_. True" _ _ _ "reads (decideValue d r)"])
    fix a b v
    assume b: "reads (decideValue d r) b" and v: "binaryValues (eo_lib o1) (exprStoredRead o1 RootScope r) ''in'' a b = Inr v"
    have e: "binaryValues lib st ''in'' a b =
        (if exprStoredMismatch b \<and> st then Inr (VBool False) else map_sum id VBool (exprIn a b))" for lib st
      by (simp add: binaryValues_def)
    obtain c where c: "v = VBool c"
      using v unfolding e by (cases "exprIn a b") (auto split: if_splits)
    have "\<not> c" if "b = VNil \<or> b = VAbsent" using v that unfolding e c by auto
    then have "agrees (inValue r (decideValue d r)) c"
      using b by (cases "decideValue d r") (auto simp: inValue_def agrees_def)
    then show "\<exists>c. v = VBool c \<and> agrees (decideCond d (BinaryE ''in'' l r)) c" unfolding dc c by blast
  qed (use r in \<open>auto simp: answers_True sound_def\<close>)
qed

lemma startsWith_sound:
  assumes l: "sound o1 n d l" and r: "sound o1 n d r" and ok: "\<not> listPrefix d r"
    and es: "\<And>es e. Unparen r = ListE es \<Longrightarrow> e \<in> set es \<Longrightarrow> sound o1 n d e"
  shows "answers (\<lambda>v. \<exists>c. v = VBool c \<and> agrees (decideCond d (BinaryE ''startsWith'' l r)) c)
    (eval o1 n RootScope (BinaryE ''startsWith'' l r))"
proof -
  let ?pre = "case Unparen r of ListE es \<Rightarrow> prefixElems (map (\<lambda>e. decideValue d e) es) | _ \<Rightarrow> prefixValue (decideValue d r)"
  have pre: "answers (prefixRel ?pre) (eval o1 n RootScope r)"
  proof (cases "\<exists>es. Unparen r = ListE es")
    case True
    then obtain es where u: "Unparen r = ListE es" by blast
    have "answers (\<lambda>v. \<exists>ws. list_all2 reads (map (\<lambda>e. decideValue d e) es) ws \<and> v = VList (filter (\<lambda>v. v \<noteq> VAbsent) ws))
        (eval o1 n RootScope r)"
      using es [OF u] by (intro eval_list [OF _ u]) (simp add: sound_def)
    then show ?thesis by (rule answers_mono) (auto simp: u prefixElems_rel)
  next
    case False
    then have p: "?pre = prefixValue (decideValue d r)" by (simp split: expr.splits)
    have "\<forall>vs. decideValue d r \<noteq> pKnown (VList vs)" using ok False by (auto simp: listPrefix_def split: expr.splits)
    then show ?thesis unfolding p using r by (auto simp: sound_def elim!: answers_mono intro: prefixValue_rel)
  qed
  show ?thesis
  proof (rule values_sound [of "reads (decideValue d l)", OF _ pre])
    show "answers (reads (decideValue d l)) (eval o1 n RootScope l)" using l by (simp add: sound_def)
    fix a b v
    assume a: "reads (decideValue d l) a" and b: "prefixRel ?pre b"
      and v: "binaryValues (eo_lib o1) (exprStoredRead o1 RootScope r) ''startsWith'' a b = Inr v"
    obtain c where c: "exprStartsWith a b = Inr c" "v = VBool c"
      using v by (cases "exprStartsWith a b") (auto simp: binaryValues_def)
    then show "\<exists>c. v = VBool c \<and> agrees (decideCond d (BinaryE ''startsWith'' l r)) c"
      using startsWithP_agrees [OF a b c(1)] by simp
  qed simp
qed

lemma binary_sound:
  assumes l: "sound o1 n d l" and r: "sound o1 n d r" and ok: "opr = ''startsWith'' \<longrightarrow> \<not> listPrefix d r"
    and es: "\<And>es e. Unparen r = ListE es \<Longrightarrow> e \<in> set es \<Longrightarrow> sound o1 n d e"
  shows "sound o1 n d (BinaryE opr l r)"
proof (cases "opr \<in> set condOps")
  case True
  let ?e = "BinaryE opr l r"
  have lr: "answers (reads (decideValue d l)) (eval o1 n RootScope l)" "answers (reads (decideValue d r)) (eval o1 n RootScope r)"
    "pExact (decideValue d l)" "pExact (decideValue d r)"
    "answers (agrees (decideCond d l)) (evalCondition o1 n RootScope l)"
    "answers (agrees (decideCond d r)) (evalCondition o1 n RootScope r)" using l r by (simp_all add: sound_def)
  consider "opr = ''&&''" | "opr = ''||''" | "opr = ''in''" | "opr = ''startsWith''"
    | (cmp) "opr \<in> {''=='', ''!='', ''<'', ''<='', ''>'', ''>=''}"
    using True unfolding condOps_def list.set by (elim insertE emptyE) simp_all
  then have "answers (\<lambda>v. \<exists>c. v = VBool c \<and> agrees (decideCond d ?e) c) (eval o1 n RootScope ?e)"
  proof cases
    case 1
    then show ?thesis using logic_sound(1) [OF lr(5,6)] by (simp del: eval.simps)
  next
    case 2
    then show ?thesis using logic_sound(2) [OF lr(5,6)] by (simp del: eval.simps)
  next
    case 3
    then show ?thesis using in_sound [OF l r es] by (simp only:)
  next
    case 4
    then show ?thesis using startsWith_sound [OF l r _ es] ok by (simp only: simp_thms)
  next
    case cmp
    then have c: "decideCond d ?e = compareP opr (decideValue d l) (decideValue d r)"
      by (elim insertE emptyE) (simp_all add: condOps_def)
    have o: "opr \<notin> {''&&'', ''||'', ''??''}" using cmp by (elim insertE emptyE) simp_all
    show ?thesis
      unfolding c by (rule values_sound [OF lr(1,2) o]) (rule compareP_agrees [OF _ _ lr(3,4) cmp])
  qed
  moreover have "opr \<noteq> ''??''" using True by (auto simp: condOps_def)
  then have "decideValue d ?e = condValue (decideCond d ?e)"
    using True by (simp del: decideCond.simps)
  ultimately show ?thesis
    by (simp add: sound_def bool_cond bool_value condValue_exact del: eval.simps decideCond.simps decideValue.simps)
next
  case False
  show ?thesis
  proof (cases "opr = ''??''")
    case True
    let ?e = "BinaryE opr l r"
    have x: "pExact (coalesceP (decideValue d l) (decideValue d r))"
      using l r by (auto simp: sound_def coalesceP_def Let_def split: pval.splits)
    have v: "decideValue d ?e = coalesceP (decideValue d l) (decideValue d r)" using True by simp
    have c: "decideCond d ?e = condOfValue (decideValue d ?e)" using True by (simp add: condOps_def)
    have "answers (reads (decideValue d ?e)) (eval o1 n RootScope ?e)"
      unfolding v using coalesce_sound [of "decideValue d l" o1 n l "decideValue d r" r] l r True by (simp add: sound_def del: eval.simps)
    moreover from answers_then [OF this condition_agrees]
    have "answers (agrees (decideCond d ?e)) (evalCondition o1 n RootScope ?e)"
      unfolding c evalCondition.simps by this
    ultimately show ?thesis unfolding sound_def v using x by simp
  next
    case 2: False
    have "decideValue d (BinaryE opr l r) = pUnknown (NotEvaluated (BinaryE opr l r))" using False 2 by simp
    moreover have "opr \<noteq> ''&&''" "opr \<noteq> ''||''" "opr \<noteq> ''in''" "opr \<noteq> ''startsWith''"
      using False by (auto simp: condOps_def)
    then have "fst (decideCond d (BinaryE opr l r)) = triUnknown" using False 2 by simp
    ultimately show ?thesis by (simp add: sound_def answers_unknown agrees_unknown answers_iff del: eval.simps evalCondition.simps decideCond.simps decideValue.simps)
  qed
qed

lemma unary_sound: "sound o1 n d e \<Longrightarrow> sound o1 n d (UnaryE opr e)"
proof (cases "opr = ''!''")
  case True
  moreover assume "sound o1 n d e"
  ultimately show ?thesis
    using not_sound [of "decideCond d e" o1 n e]
    by (simp add: sound_def bool_cond bool_value condValue_exact del: eval.simps)
qed (simp add: sound_def answers_unknown agrees_def answers_iff)

lemma opaque_sound:
  "decideValue d e = pUnknown w \<Longrightarrow> decideCond d e = (triUnknown, w) \<Longrightarrow> sound o1 n d e"
  by (simp add: sound_def answers_iff agrees_def)

lemma literal_sound: "plainLiteral v \<Longrightarrow> sound o1 n d (LiteralE v)"
proof -
  assume v: "plainLiteral v"
  then have v: "asRead v v" "exactNums v" by (cases v; simp)+
  then have "answers (reads (pKnown v)) (eval o1 n RootScope (LiteralE v))"
    by (simp add: answers_after anyStep.sat_ret)
  moreover from answers_then [OF this condition_agrees]
  have "answers (agrees (condOfValue (pKnown v))) (evalCondition o1 n RootScope (LiteralE v))"
    unfolding evalCondition.simps by this
  ultimately show ?thesis using v(2) by (simp add: sound_def del: eval.simps evalCondition.simps)
qed

section \<open>The interface of an event and its filter\<close>

text \<open>
  What the events of a write promise: the filter's parameter and \<^verbatim>\<open>args\<close> are bound to objects that
  read, field by field, as the load knows the row.
\<close>

locale filter_view =
  fixes carries :: "string \<Rightarrow> knownRow \<Rightarrow> string list \<Rightarrow> evalOptions \<Rightarrow> bool"
  assumes row_bound: "carries p row args o1 \<Longrightarrow>
      \<exists>w. eo_root o1 p = Some w \<and> (\<forall>f. TrimSpace f = f \<longrightarrow> reads (rowField row f) (exprMember (eo_lib o1) w f))"
    and args_bound: "carries p row args o1 \<Longrightarrow> p \<noteq> ''args'' \<Longrightarrow>
      \<exists>w. eo_root o1 ''args'' = Some w \<and> (\<forall>f. reads (argField row args f) (exprMember (eo_lib o1) w f))"
    and fields_exact: "carries p row args o1 \<Longrightarrow> list_all (\<lambda>q. exactNums (snd q)) (kr_Fields row)"
begin

lemma payloadField_exact: "carries p row args o1 \<Longrightarrow> pExact (payloadField row f)"
  using fields_exact [of p row args o1]
  by (auto simp: payloadField_def list_all_iff dest!: map_of_SomeD split: option.splits)

lemma member_sound:
  assumes "carries (fd_param d) (fd_row d) (fd_args d) o1" "filterOk d (MemberE ob f)"
  shows "answers (reads (decideMember d (MemberE ob f))) (eval o1 n RootScope (MemberE ob f)) \<and>
    pExact (decideMember d (MemberE ob f))"
proof -
  let ?e = "MemberE ob f"
  note exact = payloadField_exact [OF assms(1)]
  have rowx: "pExact (rowField (fd_row d) g)" and argx: "pExact (argField (fd_row d) (fd_args d) g)" for g
    using exact by (auto simp: rowField_def argField_def Let_def split: tri.splits)
  have go: "answers (reads (readThrough ?e p fs)) (eval o1 n RootScope ?e)"
    if path: "MemberPath ?e = Some (rt, g # fs)" and root: "eo_root o1 rt = Some w"
      and first: "TrimSpace g = g \<longrightarrow> reads p (exprMember (eo_lib o1) w g)"
    for rt g fs p w
  proof -
    obtain hs where hs: "g # fs = hs" "list_all (\<lambda>f. TrimSpace f = f) hs"
      "answers (\<lambda>v. v = foldl (exprMember (eo_lib o1)) w hs) (eval o1 n RootScope ?e)"
      using path_value [OF path [unfolded MemberPath_def] root assms(2), of n] by auto
    then show ?thesis using readThrough_agrees first by (auto elim!: answers_mono)
  qed
  obtain wr where wr: "eo_root o1 (fd_param d) = Some wr"
    "\<And>f. TrimSpace f = f \<longrightarrow> reads (rowField (fd_row d) f) (exprMember (eo_lib o1) wr f)"
    using row_bound [OF assms(1)] by auto
  have an: "\<exists>wa. eo_root o1 ''args'' = Some wa \<and> (\<forall>f. reads (argField (fd_row d) (fd_args d) f) (exprMember (eo_lib o1) wa f))"
    if "fd_param d \<noteq> ''args''" using args_bound [OF assms(1) that] .
  show ?thesis
  proof (cases "MemberPath ?e")
    case (Some q)
    then obtain rt fs where q: "MemberPath ?e = Some (rt, fs)" by (cases q) auto
    show ?thesis
    proof (cases fs)
      case (Cons g gs)
      then show ?thesis
        using q go [of rt g gs] wr an readThrough_exact [OF rowx] readThrough_exact [OF argx]
        by (auto simp: decideMember_def answers_unknown simp del: eval.simps)
    qed (simp add: decideMember_def q answers_unknown del: eval.simps)
  qed (simp add: decideMember_def answers_unknown del: eval.simps)
qed

lemma decide_sound:
  assumes "carries (fd_param d) (fd_row d) (fd_args d) o1"
  shows "filterOk d e \<Longrightarrow> sound o1 n d e"
proof (induction e rule: measure_induct_rule [where f = size])
  case (less e)
  show ?case
  proof (cases e)
    case (MemberE ob f)
    from member_sound [OF assms, of ob f n] less.prems
    have v: "answers (reads (decideValue d e)) (eval o1 n RootScope e)" "pExact (decideValue d e)"
      by (simp_all add: MemberE del: eval.simps)
    from answers_then [OF v(1) condition_agrees]
    have "answers (agrees (decideCond d e)) (evalCondition o1 n RootScope e)"
      unfolding MemberE decideCond.simps evalCondition.simps by this
    then show ?thesis using v by (simp add: sound_def del: eval.simps)
  next
    case (ParenE e')
    then have "sound o1 n d e'" using less by simp
    then show ?thesis by (simp add: sound_def ParenE answers_after)
  next
    case (UnaryE opr e')
    then show ?thesis using less by (simp add: unary_sound)
  next
    case (BinaryE opr l r)
    have lr: "sound o1 n d l" "sound o1 n d r" using less by (simp_all add: BinaryE)
    have "sound o1 n d x" if "Unparen r = ListE es" "x \<in> set es" for es x
      using less Unparen_list_size [OF that] filterOk_elem [OF _ that, of d] by (simp add: BinaryE)
    then show ?thesis unfolding BinaryE using less.prems by (intro binary_sound [OF lr]) (simp_all add: BinaryE)
  next
    case (LiteralE v)
    then show ?thesis using less.prems by (simp add: literal_sound)
  next
    case NilE
    have "answers (reads (pKnown VNil)) (eval o1 n RootScope NilE)"
      by (simp add: answers_after anyStep.sat_ret)
    moreover from answers_then [OF this condition_agrees]
    have "answers (agrees (condOfValue (pKnown VNil))) (evalCondition o1 n RootScope NilE)"
      unfolding evalCondition.simps by this
    ultimately show ?thesis by (simp add: NilE sound_def del: eval.simps evalCondition.simps)
  qed (auto intro!: opaque_sound)
qed

lemma decided_answers:
  assumes "carries p row args o1" "filterOk \<lparr>fd_param = p, fd_row = row, fd_args = args\<rparr> body"
    and "EvalCondition o1 body = Inr b"
  shows "agrees (decideFilter (Some ([p], body)) row args) b"
  using decide_sound [of "\<lparr>fd_param = p, fd_row = row, fd_args = args\<rparr>" o1 body 0] assms
  by (simp add: sound_def answers_iff decideFilter_def EvalCondition_def)

end

section \<open>The events of a write\<close>

text \<open>
  A payload a write with this known row can store.
\<close>

definition completes :: "knownRow \<Rightarrow> xmap \<Rightarrow> bool" where
  "completes row stored \<longleftrightarrow>
     list_all (\<lambda>q. case map_of stored (fst q) of Some w \<Rightarrow> asRead (snd q) w | None \<Rightarrow> False) (kr_Fields row) \<and>
     list_all (\<lambda>q. exactNums (snd q)) (kr_Fields row) \<and>
     list_all (\<lambda>f. f \<in> fst ` set (kr_Fields row) \<or> f \<in> set (kr_Unknown row) \<or> map_of stored f = None) (kr_Absent row) \<and>
     (kr_OthersKnown row \<longrightarrow> list_all (\<lambda>q. fst q \<in> fst ` set (kr_Fields row) \<or> fst q \<in> set (kr_Unknown row)) stored)"

text \<open>
  The concept of a write: a name, and no \<^verbatim>\<open>concept\<close> field known absent, where the load answers for the payload while
  the event still carries the write's concept.
\<close>

definition conceptOk :: "knownRow \<Rightarrow> bool" where
  "conceptOk row \<longleftrightarrow>
     (''concept'' \<in> set (kr_Absent row) \<longrightarrow> ''concept'' \<in> fst ` set (kr_Fields row) \<or> ''concept'' \<in> set (kr_Unknown row)) \<and>
     TrimSpace (kr_Concept row) = kr_Concept row \<and> kr_Concept row \<noteq> ''''"

inductive written :: "golib \<Rightarrow> knownRow \<Rightarrow> triggerEvent \<Rightarrow> bool" for lib row where
  written_created: "completes row stored \<Longrightarrow> conceptOk row \<Longrightarrow> agrees (kr_FirstVersion row, NoWhy) (\<not> priorExisted) \<Longrightarrow>
    written lib row (createdEvent lib i (kr_Concept row) actor ntype (Some stored) t priorExisted now)"
| written_updated: "completes row stored \<Longrightarrow> conceptOk row \<Longrightarrow> kr_FirstVersion row = triUnknown \<Longrightarrow>
    written lib row (updatedEvent lib i (kr_Concept row) actor ntype (Some stored) priorStatus t now)"

inductive_cases writtenE: "written lib row e"

lemma payloadField_reads:
  assumes "completes row stored"
  shows "reads (payloadField row f) (readKey stored f)"
proof (cases "map_of (kr_Fields row) f")
  case (Some v)
  then have "(f, v) \<in> set (kr_Fields row)" by (rule map_of_SomeD)
  then show ?thesis using assms Some by (force simp: completes_def payloadField_def readKey_def list_all_iff split: option.splits)
next
  case None
  then have n: "f \<notin> fst ` set (kr_Fields row)" by (simp add: map_of_eq_None_iff)
  have "map_of stored f = None" if "f \<notin> set (kr_Unknown row)" "f \<in> set (kr_Absent row) \<or> kr_OthersKnown row"
    using assms n that by (fastforce simp: completes_def list_all_iff map_of_eq_None_iff)
  then show ?thesis using None by (auto simp: payloadField_def readKey_def)
qed

text \<open>The one shape both events give the row, and what a declared argument reads of them.\<close>

definition eventOf :: "golib \<Rightarrow> knownRow \<Rightarrow> xmap \<Rightarrow> triggerEvent \<Rightarrow> bool" where
  "eventOf lib row stored e \<longleftrightarrow>
     (\<exists>i t by ca. TriggerRow lib e = VRow i (kr_Concept row) t by ca None (Some stored)) \<and>
     (\<forall>f. f \<noteq> ''firstVersion'' \<longrightarrow> f \<noteq> ''concept'' \<longrightarrow> f \<notin> set graphEventEnvelopeKeys \<longrightarrow>
        map_of (te_Payload e) f = map_of stored f) \<and>
     map_of (te_Payload e) ''concept'' =
       (case map_of stored ''concept'' of None \<Rightarrow> Some (VString (kr_Concept row)) | Some v \<Rightarrow> Some v) \<and>
     (kr_FirstVersion row \<noteq> triUnknown \<longrightarrow>
        map_of (te_Payload e) ''firstVersion'' = Some (VBool (kr_FirstVersion row = triTrue)))"

lemma topic_row:
  assumes "TrimSpace c = c" "c \<noteq> ''''" "base \<in> {TopicGraphNodeCreated, TopicGraphNodeUpdated}"
  shows "SplitN (BuildTopicWithConcept base c) CHR ''.'' 4 ! 3 = c"
    "length (SplitN (BuildTopicWithConcept base c) CHR ''.'' 4) = 4"
    "HasPrefix (BuildTopicWithConcept base c) ''graph.node.''"
proof -
  obtain act where act: "act \<in> {''created'', ''updated''}" "base = ''graph.node.'' @ act"
    using assms(3) by (auto simp: topic_defs)
  have b: "BuildTopicWithConcept base c = ''graph.node.'' @ act @ ''.'' @ c"
    using assms(1,2) by (simp add: BuildTopicWithConcept_def act(2))
  show "SplitN (BuildTopicWithConcept base c) CHR ''.'' 4 ! 3 = c"
    "length (SplitN (BuildTopicWithConcept base c) CHR ''.'' 4) = 4"
    unfolding b SplitN_topic [OF act(1)] by simp_all
  show "HasPrefix (BuildTopicWithConcept base c) ''graph.node.''" unfolding b by (rule HasPrefix_append)
qed

lemma written_eventOf:
  assumes "written lib row e"
  shows "\<exists>stored. completes row stored \<and> conceptOk row \<and> eventOf lib row stored e"
  using assms
proof (cases rule: written.cases)
  case (written_created stored priorExisted i actor ntype t now)
  have c: "TrimSpace (kr_Concept row) = kr_Concept row" "kr_Concept row \<noteq> ''''"
    using written_created(3) by (auto simp: conceptOk_def)
  note tr = topic_row [OF c, of TopicGraphNodeCreated, simplified]
  have p: "te_Payload e = mapPut ''firstVersion'' (VBool (\<not> priorExisted)) (mapPut ''createdAt'' (VString (eventVersionTime lib t))
      (mapPut ''payload'' (VMap stored) (mapsCopy [(''id'', VString i), (''nodeId'', VString i), (''concept'', VString (kr_Concept row)),
        (''actor'', VString actor), (''nodeType'', VString ntype)] stored)))"
    and top: "te_Topic e = BuildTopicWithConcept TopicGraphNodeCreated (kr_Concept row)"
    by (simp_all add: written_created(1) createdEvent_def Let_def)
  have m: "map_of (te_Payload e) f = map_of stored f"
    if "f \<noteq> ''firstVersion''" "f \<noteq> ''concept''" "f \<notin> set graphEventEnvelopeKeys" for f
    using that by (simp add: p map_of_mapsCopy map_add_def graphEventEnvelopeKeys_def split: option.splits)
  have k: "map_of (te_Payload e) ''concept'' =
      (case map_of stored ''concept'' of None \<Rightarrow> Some (VString (kr_Concept row)) | Some v \<Rightarrow> Some v)"
    by (simp add: p map_of_mapsCopy map_add_def split: option.splits)
  have v: "kr_FirstVersion row \<noteq> triUnknown \<longrightarrow>
      map_of (te_Payload e) ''firstVersion'' = Some (VBool (kr_FirstVersion row = triTrue))"
    using written_created(4) by (cases "kr_FirstVersion row") (simp_all add: p agrees_def)
  have "\<exists>i t by ca. TriggerRow lib e = VRow i (kr_Concept row) t by ca None (Some stored)"
    using tr by (simp add: TriggerRow_def p top Let_def)
  then have "eventOf lib row stored e" using m k v by (simp add: eventOf_def)
  then show ?thesis using written_created(2,3) by blast
next
  case (written_updated stored i actor ntype priorStatus t now)
  have c: "TrimSpace (kr_Concept row) = kr_Concept row" "kr_Concept row \<noteq> ''''"
    using written_updated(3) by (auto simp: conceptOk_def)
  note tr = topic_row [OF c, of TopicGraphNodeUpdated, simplified]
  have m: "map_of (te_Payload e) f = map_of stored f"
    if "f \<noteq> ''concept''" "f \<notin> set graphEventEnvelopeKeys" for f
    using that by (simp add: written_updated(1) updatedEvent_def Let_def map_of_mapsCopy map_add_def graphEventEnvelopeKeys_def
        split: option.splits)
  have k: "map_of (te_Payload e) ''concept'' =
      (case map_of stored ''concept'' of None \<Rightarrow> Some (VString (kr_Concept row)) | Some v \<Rightarrow> Some v)"
    by (simp add: written_updated(1) updatedEvent_def Let_def map_of_mapsCopy map_add_def split: option.splits)
  have p: "map_of (te_Payload e) ''payload'' = Some (VMap stored)"
    by (simp add: written_updated(1) updatedEvent_def Let_def split: option.splits)
  have top: "te_Topic e = BuildTopicWithConcept TopicGraphNodeUpdated (kr_Concept row)"
    by (simp add: written_updated(1) updatedEvent_def Let_def)
  have "\<exists>i t by ca. TriggerRow lib e = VRow i (kr_Concept row) t by ca None (Some stored)"
    using tr by (simp add: TriggerRow_def p top Let_def)
  then have "eventOf lib row stored e" using m k written_updated(4) by (simp add: eventOf_def)
  then show ?thesis using written_updated(2,3) by blast
qed

lemma rowField_reads:
  assumes "completes row stored" "TrimSpace f = f"
  shows "reads (rowField row f) (exprMember lib (VRow i (kr_Concept row) t cb ca None (Some stored)) f)"
proof (cases "ToLower f \<in> set filterRowIntrinsics")
  case True
  then show ?thesis
    by (auto simp: rowField_def rowMember_def resolveIntrinsicField_def assms(2) filterRowIntrinsics_def Let_def)
next
  case False
  then have "resolveIntrinsicField f = None"
    by (simp add: resolveIntrinsicField_def assms(2) filterRowIntrinsics_def)
  then show ?thesis using False payloadField_reads [OF assms(1), of f] by (simp add: rowField_def rowMember_def Let_def)
qed

lemma argField_reads:
  assumes "completes row stored" "eventOf lib row stored e" "f \<in> set args" "conceptOk row"
  shows "reads (argField row args f) (readKey (te_Payload e) f)"
proof -
  note pf = payloadField_reads [OF assms(1), of f]
  have conc: "readKey (te_Payload e) ''concept'' =
      (case map_of stored ''concept'' of None \<Rightarrow> VString (kr_Concept row) | Some v \<Rightarrow> v)"
    using assms(2) by (simp add: eventOf_def readKey_def split: option.splits)
  have fv: "kr_FirstVersion row \<noteq> triUnknown \<Longrightarrow> readKey (te_Payload e) ''firstVersion'' = VBool (kr_FirstVersion row = triTrue)"
    using assms(2) by (simp add: eventOf_def readKey_def)
  consider (first) "f = ''firstVersion''" | (concept) "f = ''concept''" | (env) "f \<in> set graphEventEnvelopeKeys" "f \<noteq> ''concept''" "f \<noteq> ''firstVersion''"
    | (plain) "f \<noteq> ''firstVersion''" "f \<noteq> ''concept''" "f \<notin> set graphEventEnvelopeKeys" by blast
  then show ?thesis
  proof cases
    case first
    then show ?thesis using fv assms(3) by (cases "kr_FirstVersion row") (simp_all add: argField_def)
  next
    case concept
    show ?thesis
    proof (cases "map_of (kr_Fields row) f \<noteq> None \<or> f \<in> set (kr_Unknown row) \<or> f \<in> set (kr_Absent row)")
      case True
      have u: "f \<notin> set (kr_Unknown row) \<Longrightarrow> map_of (kr_Fields row) f \<noteq> None"
        using True assms(4) concept by (auto simp: conceptOk_def map_of_eq_None_iff)
      have "argField row args f = payloadField row f" using True concept assms(3) by (simp add: argField_def)
      moreover have "isUnknown (payloadField row f) \<or> map_of stored f \<noteq> None"
        using u pf by (cases "map_of (kr_Fields row) f"; cases "map_of stored f")
          (auto simp: payloadField_def readKey_def dest: asRead_present)
      moreover have "readKey (te_Payload e) f = readKey stored f" if "map_of stored f \<noteq> None"
        using that conc concept by (auto simp: readKey_def [of stored])
      ultimately show ?thesis using pf by (cases "payloadField row f") auto
    next
      case False
      have "map_of stored f = None" if "kr_OthersKnown row"
      proof -
        have "\<forall>q \<in> set stored. fst q \<in> fst ` set (kr_Fields row) \<or> fst q \<in> set (kr_Unknown row)"
          using that assms(1) by (simp add: completes_def list_all_iff)
        moreover have "f \<notin> fst ` set (kr_Fields row)" "f \<notin> set (kr_Unknown row)"
          using False by (simp_all add: map_of_eq_None_iff)
        ultimately show ?thesis by (auto simp: map_of_eq_None_iff)
      qed
      then show ?thesis using False conc concept assms(3) by (simp add: argField_def)
    qed
  next
    case env
    then show ?thesis using assms(3) by (simp add: argField_def)
  next
    case plain
    then have "readKey (te_Payload e) f = readKey stored f" using assms(2) by (simp add: eventOf_def readKey_def)
    then show ?thesis using plain pf assms(3) by (simp add: argField_def)
  qed
qed

text \<open>The options the subscriber evaluates a filter with, on an event a write of this row publishes.\<close>

definition carriesWrite :: "string \<Rightarrow> knownRow \<Rightarrow> string list \<Rightarrow> evalOptions \<Rightarrow> bool" where
  "carriesWrite p row args o1 \<longleftrightarrow>
     (\<exists>lib tx now block e bound. written lib row e \<and> bindEventArgs tx block e = Inr bound \<and>
        args = declaredArgs block \<and> o1 = filterOptions lib now (filterScope lib now p e bound))"

lemma carriesWriteE:
  assumes "carriesWrite p row args o1"
  obtains lib tx now block e bound stored where "completes row stored" "conceptOk row" "eventOf lib row stored e"
    "bindEventArgs tx block e = Inr bound" "args = declaredArgs block" "eo_lib o1 = lib"
    "eo_root o1 = filterScope lib now p e bound"
proof -
  obtain lib tx now block e bound where e: "written lib row e" "bindEventArgs tx block e = Inr bound"
    "args = declaredArgs block" "o1 = filterOptions lib now (filterScope lib now p e bound)"
    using assms unfolding carriesWrite_def by blast
  obtain stored where "completes row stored" "conceptOk row" "eventOf lib row stored e" using written_eventOf [OF e(1)] by blast
  then show thesis using e by (intro that [of stored lib e tx block bound now]) (simp_all add: filterOptions_def)
qed

interpretation writeView: filter_view carriesWrite
proof unfold_locales
  fix p row args o1 assume c: "carriesWrite p row args o1"
  obtain lib tx now block e bound stored where
    e: "completes row stored" and co: "conceptOk row" and e': "eventOf lib row stored e" "bindEventArgs tx block e = Inr bound" "args = declaredArgs block"
      "eo_lib o1 = lib" "eo_root o1 = filterScope lib now p e bound" by (rule carriesWriteE [OF c])
  show "list_all (\<lambda>q. exactNums (snd q)) (kr_Fields row)" using e by (simp add: completes_def)
  obtain i t cb ca where "TriggerRow lib e = VRow i (kr_Concept row) t cb ca None (Some stored)"
    using e'(1) by (auto simp: eventOf_def)
  then show "\<exists>w. eo_root o1 p = Some w \<and> (\<forall>f. TrimSpace f = f \<longrightarrow> reads (rowField row f) (exprMember (eo_lib o1) w f))"
    using e e'(4,5) rowField_reads by (simp add: filterScope_row del: exprMember.simps)
  assume p: "p \<noteq> ''args''"
  have "reads (argField row args f)
      (exprMember lib (case bound of None \<Rightarrow> VAbsent | Some m \<Rightarrow> VMap m) f)" for f
    unfolding bindEventArgs_reads [OF e'(2)]
    using argField_reads [OF e e'(1) _ co, of f args] by (auto simp: e'(3) argField_def)
  then show "\<exists>w. eo_root o1 ''args'' = Some w \<and> (\<forall>f. reads (argField row args f) (exprMember (eo_lib o1) w f))"
    using e'(4,5) p by (simp add: filterScope_args del: exprMember.simps)
qed

text \<open>
  The same of an event a step publishes: its row is the event's own payload, with no concept. A declared
  \<^verbatim>\<open>concept\<close> argument that the payload does not set is left out: the load reads it as the empty concept, the run as absent.
\<close>

definition published :: "knownRow \<Rightarrow> triggerEvent \<Rightarrow> bool" where
  "published row e \<longleftrightarrow>
     (\<exists>topic kind payload now. e = publishedEvent topic kind payload now \<and> completes row payload \<and>
        kr_Concept row = '''' \<and> kr_Absent row = [] \<and> \<not> HasPrefix topic ''graph.node.'' \<and>
        (kr_FirstVersion row \<noteq> triUnknown \<longrightarrow>
           map_of (kr_Fields row) ''firstVersion'' = Some (VBool (kr_FirstVersion row = triTrue))))"

definition conceptRead :: "knownRow \<Rightarrow> string list \<Rightarrow> bool" where
  "conceptRead row args \<longleftrightarrow>
     (''concept'' \<in> set args \<longrightarrow> ''concept'' \<in> fst ` set (kr_Fields row) \<or> ''concept'' \<in> set (kr_Unknown row))"

definition carriesPublish :: "string \<Rightarrow> knownRow \<Rightarrow> string list \<Rightarrow> evalOptions \<Rightarrow> bool" where
  "carriesPublish p row args o1 \<longleftrightarrow>
     (\<exists>lib tx now block e bound. published row e \<and> bindEventArgs tx block e = Inr bound \<and>
        args = declaredArgs block \<and> conceptRead row args \<and> o1 = filterOptions lib now (filterScope lib now p e bound))"

lemma published_row:
  assumes "completes row payload" "kr_Concept row = ''''" "\<not> HasPrefix topic ''graph.node.''" "TrimSpace f = f"
  shows "reads (rowField row f) (exprMember lib (TriggerRow lib (publishedEvent topic kind payload now)) f)"
proof -
  have "TriggerRow lib (publishedEvent topic kind payload now) = VRow '''' '''' '''' '''' 0 None (Some payload)"
    using assms(3) by (auto simp: TriggerRow_def publishedEvent_def Let_def split: option.splits xval.splits)
  then show ?thesis using rowField_reads [OF assms(1,4), of lib "''''" "''''" "''''" 0] assms(2) by simp
qed

lemma published_arg:
  assumes "completes row payload" "kr_Concept row = ''''" "kr_Absent row = []" "conceptRead row args" "f \<in> set args"
    and "kr_FirstVersion row \<noteq> triUnknown \<longrightarrow>
      map_of (kr_Fields row) ''firstVersion'' = Some (VBool (kr_FirstVersion row = triTrue))"
  shows "reads (argField row args f) (readKey payload f)"
proof -
  note pf = payloadField_reads [OF assms(1), of f]
  consider (first) "f = ''firstVersion''" | (concept) "f = ''concept''" | (env) "f \<in> set graphEventEnvelopeKeys" "f \<noteq> ''concept''" "f \<noteq> ''firstVersion''"
    | (plain) "f \<noteq> ''firstVersion''" "f \<noteq> ''concept''" "f \<notin> set graphEventEnvelopeKeys" by blast
  then show ?thesis
  proof cases
    case first
    have "readKey payload f = VBool (kr_FirstVersion row = triTrue)" if "kr_FirstVersion row \<noteq> triUnknown"
      using pf that assms(6) first by (simp add: payloadField_def)
    then show ?thesis using first assms(5) by (cases "kr_FirstVersion row") (simp_all add: argField_def)
  next
    case concept
    then have "map_of (kr_Fields row) f \<noteq> None \<or> f \<in> set (kr_Unknown row)"
      using assms(4,5) by (auto simp: conceptRead_def map_of_eq_None_iff)
    then have "argField row args f = payloadField row f" using concept assms(5) by (auto simp: argField_def)
    then show ?thesis using pf by simp
  next
    case env
    then show ?thesis using assms(5) by (simp add: argField_def)
  next
    case plain
    then show ?thesis using pf assms(5) by (simp add: argField_def)
  qed
qed

interpretation publishView: filter_view carriesPublish
proof unfold_locales
  fix p row args o1 assume c: "carriesPublish p row args o1"
  then obtain lib tx now block bound topic kind payload now' where
    e: "completes row payload" "kr_Concept row = ''''" "kr_Absent row = []" "\<not> HasPrefix topic ''graph.node.''"
      "kr_FirstVersion row \<noteq> triUnknown \<longrightarrow> map_of (kr_Fields row) ''firstVersion'' = Some (VBool (kr_FirstVersion row = triTrue))"
    and b: "bindEventArgs tx block (publishedEvent topic kind payload now') = Inr bound" "args = declaredArgs block"
      "conceptRead row args" "o1 = filterOptions lib now (filterScope lib now p (publishedEvent topic kind payload now') bound)"
    unfolding carriesPublish_def published_def by blast
  have o: "eo_lib o1 = lib" "eo_root o1 = filterScope lib now p (publishedEvent topic kind payload now') bound"
    by (simp_all add: b(4) filterOptions_def)
  show "list_all (\<lambda>q. exactNums (snd q)) (kr_Fields row)" using e by (simp add: completes_def)
  show "\<exists>w. eo_root o1 p = Some w \<and> (\<forall>f. TrimSpace f = f \<longrightarrow> reads (rowField row f) (exprMember (eo_lib o1) w f))"
    unfolding o filterScope_row using published_row [OF e(1,2,4)] by blast
  assume p: "p \<noteq> ''args''"
  have "reads (argField row args f)
      (exprMember lib (case bound of None \<Rightarrow> VAbsent | Some m \<Rightarrow> VMap m) f)" for f
    unfolding bindEventArgs_reads [OF b(1)]
    using published_arg [OF e(1,2,3) b(3) _ e(5), of f] by (auto simp: b(2) argField_def publishedEvent_def)
  then show "\<exists>w. eo_root o1 ''args'' = Some w \<and> (\<forall>f. reads (argField row args f) (exprMember (eo_lib o1) w f))"
    using o p by (simp add: filterScope_args del: exprMember.simps)
qed

end
