(* ===== verification/FilterRuns.thy ===== *)
theory FilterRuns
  imports FilterSound
begin

text \<open>
  The decider of component/automations/loop_graph_filter.go against the run: what it decides of an event holds when the
  event's filter is evaluated, and the three kinds of row on which it does not.
\<close>

section \<open>What is decided holds\<close>

text \<open>An event that reaches a trigger with this known row, from a write or from a step.\<close>

definition reachesAs :: "golib \<Rightarrow> knownRow \<Rightarrow> string list \<Rightarrow> triggerEvent \<Rightarrow> bool" where
  "reachesAs lib row args e \<longleftrightarrow> written lib row e \<or> (published row e \<and> conceptRead row args)"

lemma reached_answer:
  assumes "reachesAs lib row (declaredArgs block) e" "bindEventArgs tx block e = Inr bound"
    and "filterOk \<lparr>fd_param = p, fd_row = row, fd_args = declaredArgs block\<rparr> body"
    and "evaluateTriggerFilter lib now (Some ([p], body)) e bound = Inr b"
  shows "agrees (decideFilter (Some ([p], body)) row (declaredArgs block)) b"
proof -
  let ?o = "filterOptions lib now (filterScope lib now p e bound)"
  have ev: "EvalCondition ?o body = Inr b" using assms(4) by (simp add: evaluateTriggerFilter_def)
  have "carriesWrite p row (declaredArgs block) ?o \<or> carriesPublish p row (declaredArgs block) ?o"
    using assms(1,2) unfolding reachesAs_def carriesWrite_def carriesPublish_def by blast
  then show ?thesis
    using writeView.decided_answers [OF _ assms(3) ev] publishView.decided_answers [OF _ assms(3) ev] by blast
qed

definition filterOkFor :: "knownRow \<Rightarrow> string list \<Rightarrow> triggerFilter option \<Rightarrow> bool" where
  "filterOkFor row args filt \<longleftrightarrow>
     (case filt of Some ([p], body) \<Rightarrow> filterOk \<lparr>fd_param = p, fd_row = row, fd_args = args\<rparr> body | _ \<Rightarrow> True)"

lemma fires_not_refuted:
  assumes "reachesAs lib row (declaredArgs block) e" "filterOkFor row (declaredArgs block) filt"
    and "triggerFires lib tx now block filt e"
  shows "fst (decideFilter filt row (declaredArgs block)) \<noteq> triFalse"
proof -
  obtain bound where b: "bindEventArgs tx block e = Inr bound" "evaluateTriggerFilter lib now filt e bound = Inr True"
    using assms(3) by (auto simp: triggerFires_def split: sum.splits if_splits)
  show ?thesis
  proof (cases "\<exists>p body. filt = Some ([p], body)")
    case True
    then obtain p body where f: "filt = Some ([p], body)" by blast
    have "agrees (decideFilter filt row (declaredArgs block)) True"
      unfolding f using reached_answer [OF assms(1) b(1), of p body now True] assms(2) b(2) by (simp add: f filterOkFor_def)
    then show ?thesis by (auto simp: agrees_def)
  next
    case False
    then show ?thesis by (auto simp: decideFilter_def split: option.splits list.splits)
  qed
qed


definition doneRow :: knownRow where
  "doneRow = \<lparr>kr_Concept = ''v1:task'', kr_Fields = [(''status'', VString ''done''), (''tries'', VInt 3)], kr_Absent = [],
     kr_OthersKnown = False, kr_FirstVersion = triFalse, kr_Unknown = [''title''], kr_explain = None\<rparr>"

definition doneStored :: xmap where
  "doneStored = [(''title'', VString ''t''), (''status'', VString ''done''), (''tries'', VFloat (float_of_int 3))]"

definition doneEvent :: "golib \<Rightarrow> triggerEvent" where
  "doneEvent lib = createdEvent lib ''n1'' ''v1:task'' ''u1'' ''instance'' (Some doneStored) 5000 True 6000"

definition member :: "string \<Rightarrow> string \<Rightarrow> expr" where
  "member r f = MemberE (IdentE r) f"

text \<open>The filter \<^verbatim>\<open>row => row.status != "done" || row.tries > 5 && row.title == "x"\<close>.\<close>

definition retryFilter :: expr where
  "retryFilter = BinaryE ''||'' (BinaryE ''!='' (member ''row'' ''status'') (LiteralE (VString ''done'')))
     (BinaryE ''&&'' (BinaryE ''>'' (member ''row'' ''tries'') (LiteralE (VInt 5)))
        (BinaryE ''=='' (member ''row'' ''title'') (LiteralE (VString ''x''))))"

lemma three_float: "float_of_int 3 = Fin 3"
  using float_of_int_exact [of 3] by simp

definition plainLib :: golib where
  "plainLib = \<lparr>gl_FormatFloat = (\<lambda>_ _. ''0''), gl_Sprint = (\<lambda>_. ''''), gl_JSON = (\<lambda>_. None), gl_Sha256Hex = id,
     gl_TimeParse = (\<lambda>_ _. None), gl_RFC3339Nano = (\<lambda>_. ''t'')\<rparr>"

definition plainText :: textlib where
  "plainText = \<lparr>tx_RuneCount = length, tx_Match = (\<lambda>_ _. None)\<rparr>"

lemmas trigger_defs = TriggerRow_def createdEvent_def BuildTopicWithConcept_def topic_defs mapsCopy_def stringAt_def
  firstString_def plainLib_def plainText_def filterOptions_def filterScope_def bindScope_def RunScopeLookup_def filterState_def

lemmas filter_run_defs = EvalCondition_def andThen_def tick_def ret_def lift_def budgetOf_def DefaultStepBudget_def ident_def
  exprStoredRead_def binary_def binaryValues_def condition_def rowMember_def resolveIntrinsicField_def readKey_def
  ToLower_def lower_char_def TrimSpace_def is_space_def exprEqual_def exprIsUnset_def exprOrdered_def orderedBy_def

lemma doneEvent_row:
  "TriggerRow plainLib (doneEvent plainLib) = VRow ''n1'' ''v1:task'' ''instance'' ''u1'' 6000 None (Some doneStored)"
proof -
  have c: "TrimSpace ''v1:task'' = ''v1:task''" "''v1:task'' \<noteq> ''''" by (simp_all add: TrimSpace_def is_space_def)
  note tr = topic_row [OF c, of TopicGraphNodeCreated, simplified]
  show ?thesis using tr
    by (simp add: TriggerRow_def doneEvent_def createdEvent_def Let_def map_of_mapsCopy map_add_def doneStored_def stringAt_def
        firstString_def plainLib_def IsZero_def)
qed

lemma doneEvent_written: "written plainLib doneRow (doneEvent plainLib)"
proof -
  have "completes doneRow doneStored"
    by (simp add: completes_def doneRow_def doneStored_def)
  moreover have "conceptOk doneRow" by (simp add: conceptOk_def doneRow_def TrimSpace_def is_space_def)
  moreover have "agrees (kr_FirstVersion doneRow, NoWhy) (\<not> True)" by (simp add: agrees_def doneRow_def)
  ultimately show ?thesis
    using written_created [of doneRow doneStored True plainLib "''n1''" "''u1''" "''instance''" 5000 6000]
    by (simp add: doneEvent_def doneRow_def)
qed

lemma doneFilter_run: "evaluateTriggerFilter plainLib ''t'' (Some ([''row''], retryFilter)) (doneEvent plainLib) None = Inr False"
  by (simp add: evaluateTriggerFilter_def filterOptions_def filterScope_def bindScope_def doneEvent_row retryFilter_def member_def
      filter_run_defs doneStored_def three_float exprCompareIntFloat_def truncate_rat_def)


section \<open>Where the load is wrong\<close>

definition sampleRow :: "xmap \<Rightarrow> string list \<Rightarrow> knownRow" where
  "sampleRow fs ab = \<lparr>kr_Concept = ''v1:task'', kr_Fields = fs, kr_Absent = ab,
     kr_OthersKnown = True, kr_FirstVersion = triTrue, kr_Unknown = [], kr_explain = None\<rparr>"

definition sampleEvent :: "xmap \<Rightarrow> triggerEvent" where
  "sampleEvent stored = createdEvent plainLib ''n1'' ''v1:task'' ''u1'' ''instance'' (Some stored) 5000 False 6000"

definition optionalArg :: "string \<Rightarrow> argsField" where
  "optionalArg n = \<lparr>af_Name = n, af_Type = ''any'', af_Optional = True, af_Enum = [], af_MaxLength = 0, af_Pattern = ''''\<rparr>"

lemma sampleEvent_row:
  "map_of stored ''nodeId'' = None \<Longrightarrow> map_of stored ''nodeType'' = None \<Longrightarrow>
   TriggerRow plainLib (sampleEvent stored) = VRow ''n1'' ''v1:task'' ''instance'' ''u1'' 6000 None (Some stored)"
proof -
  assume s: "map_of stored ''nodeId'' = None" "map_of stored ''nodeType'' = None"
  have c: "TrimSpace ''v1:task'' = ''v1:task''" "''v1:task'' \<noteq> ''''" by (simp_all add: TrimSpace_def is_space_def)
  note tr = topic_row [OF c, of TopicGraphNodeCreated, simplified]
  show ?thesis using tr s
    by (simp add: TriggerRow_def sampleEvent_def createdEvent_def Let_def map_of_mapsCopy map_add_def stringAt_def
        firstString_def plainLib_def IsZero_def)
qed

lemmas filter_load_defs = decideFilter_def decideMember_def MemberPath_def rowField_def argField_def payloadField_def
  filterRowIntrinsics_def ToLower_def lower_char_def condOps_def compareP_def loopEqual_def loopUnset_def triOf_def Let_def
  startsWithP_def loopCompareNumbers_def sampleRow_def member_def

lemma big_float: "float_of_int 9007199254740993 = Fin 9007199254740992"
proof -
  have "floorlog 2 9007199254740993 = 54"
  proof (rule antisym)
    show "floorlog 2 9007199254740993 \<le> 54" by (rule floorlog_leI) simp_all
    show "54 \<le> floorlog 2 9007199254740993" by (rule floorlog_geI) simp_all
  qed
  then have l: "ilog2 9007199254740993 = 53" by (simp add: ilog2_def)
  have "\<lfloor>9007199254740993 / 2 :: rat\<rfloor> = 4503599627370496" by (rule floor_unique) simp_all
  then show ?thesis by (simp add: float_of_int_def round64_def Let_def l pw2_def roundEven_def)
qed

text \<open>The filters \<^verbatim>\<open>row => row.path startsWith row.roots\<close>, \<^verbatim>\<open>row => row.n != 9007199254740993\<close> and \<^verbatim>\<open>row => args.concept == "v1:task"\<close>.\<close>

definition rootsFilter :: expr where
  "rootsFilter = BinaryE ''startsWith'' (member ''row'' ''path'') (member ''row'' ''roots'')"

definition bigFilter :: expr where
  "bigFilter = BinaryE ''!='' (member ''row'' ''n'') (LiteralE (VInt 9007199254740993))"

definition conceptFilter :: expr where
  "conceptFilter = BinaryE ''=='' (member ''args'' ''concept'') (LiteralE (VString ''v1:task''))"

definition rootsFields :: xmap where
  "rootsFields = [(''path'', VString ''a/b''), (''roots'', VList [VString ''a/''])]"

text \<open>
  C37. Three rows on which the load removes an edge the run fires. A write that sets \<^verbatim>\<open>roots\<close> to a literal list: the
  load takes any known right side of \<^verbatim>\<open>startsWith\<close> that is not a string for a refusal, while the
  run matches against the list. A write that sets an integer past the 53 bits of a float: the load compares the
  literal, while the run compares the float64 the payload was decoded to. A write that leaves a \<^verbatim>\<open>concept\<close>
  field out: the load reads the argument as absent, while the event carries the write's concept.
\<close>

theorem decided_false_may_fire:
  "written plainLib (sampleRow rootsFields []) (sampleEvent rootsFields) \<and>
   fst (decideFilter (Some ([''row''], rootsFilter)) (sampleRow rootsFields []) []) = triFalse \<and>
   triggerFires plainLib plainText ''t'' [] (Some ([''row''], rootsFilter)) (sampleEvent rootsFields) \<and>
   asRead (VInt 9007199254740993) (VFloat (float_of_int 9007199254740993)) \<and>
   fst (decideFilter (Some ([''row''], bigFilter)) (sampleRow [(''n'', VInt 9007199254740993)] []) []) = triFalse \<and>
   triggerFires plainLib plainText ''t'' [] (Some ([''row''], bigFilter)) (sampleEvent [(''n'', VFloat (float_of_int 9007199254740993))]) \<and>
   completes (sampleRow [] [''concept'']) [] \<and>
   fst (decideFilter (Some ([''row''], conceptFilter)) (sampleRow [] [''concept'']) (declaredArgs [optionalArg ''concept''])) = triFalse \<and>
   triggerFires plainLib plainText ''t'' [optionalArg ''concept''] (Some ([''row''], conceptFilter)) (sampleEvent [])"
proof (intro conjI)
  have c: "completes (sampleRow rootsFields []) rootsFields"
    by (simp add: completes_def sampleRow_def rootsFields_def)
  then show "written plainLib (sampleRow rootsFields []) (sampleEvent rootsFields)"
    using written_created [OF c, of False plainLib "''n1''" "''u1''" "''instance''" 5000 6000]
    by (simp add: conceptOk_def sampleRow_def sampleEvent_def agrees_def TrimSpace_def is_space_def)
  show "fst (decideFilter (Some ([''row''], rootsFilter)) (sampleRow rootsFields []) []) = triFalse"
    by (simp add: filter_load_defs rootsFilter_def rootsFields_def)
  have "PayloadThinned (sampleEvent rootsFields) = False"
    by (simp add: PayloadThinned_def PayloadOmittedFieldsKey_def sampleEvent_def createdEvent_def Let_def map_of_mapsCopy map_add_def
        rootsFields_def)
  moreover have "evaluateTriggerFilter plainLib ''t'' (Some ([''row''], rootsFilter)) (sampleEvent rootsFields) None = Inr True"
    by (simp add: evaluateTriggerFilter_def filterOptions_def filterScope_def bindScope_def sampleEvent_row rootsFields_def
        rootsFilter_def member_def filter_run_defs prefixTest_def startsWithAny_def normalizePrefixValues_def)
  ultimately show "triggerFires plainLib plainText ''t'' [] (Some ([''row''], rootsFilter)) (sampleEvent rootsFields)"
    by (simp add: triggerFires_def bindEventArgs_def)
  show "asRead (VInt 9007199254740993) (VFloat (float_of_int 9007199254740993))" by simp
  show "fst (decideFilter (Some ([''row''], bigFilter)) (sampleRow [(''n'', VInt 9007199254740993)] []) []) = triFalse"
    by (simp add: filter_load_defs bigFilter_def)
  have "PayloadThinned (sampleEvent [(''n'', VFloat (float_of_int 9007199254740993))]) = False"
    by (simp add: PayloadThinned_def PayloadOmittedFieldsKey_def sampleEvent_def createdEvent_def Let_def map_of_mapsCopy map_add_def)
  moreover have "evaluateTriggerFilter plainLib ''t'' (Some ([''row''], bigFilter))
      (sampleEvent [(''n'', VFloat (float_of_int 9007199254740993))]) None = Inr True"
    by (simp add: evaluateTriggerFilter_def filterOptions_def filterScope_def bindScope_def sampleEvent_row big_float
        bigFilter_def member_def filter_run_defs exprCompareIntFloat_def truncate_rat_def)
  ultimately show "triggerFires plainLib plainText ''t'' [] (Some ([''row''], bigFilter)) (sampleEvent [(''n'', VFloat (float_of_int 9007199254740993))])"
    by (simp add: triggerFires_def bindEventArgs_def)
  show "completes (sampleRow [] [''concept'']) []" by (simp add: completes_def sampleRow_def)
  show "fst (decideFilter (Some ([''row''], conceptFilter)) (sampleRow [] [''concept'']) (declaredArgs [optionalArg ''concept''])) = triFalse"
    by (simp add: filter_load_defs conceptFilter_def declaredArgs_def optionalArg_def TrimSpace_def is_space_def)
  have "PayloadThinned (sampleEvent []) = False"
    by (simp add: PayloadThinned_def PayloadOmittedFieldsKey_def sampleEvent_def createdEvent_def Let_def map_of_mapsCopy)
  moreover have "bindEventArgs plainText [optionalArg ''concept''] (sampleEvent []) = Inr (Some [(''concept'', VString ''v1:task'')])"
    by (simp add: bindEventArgs_def optionalArg_def validateAutomationArg_def argTypeMatches_def sampleEvent_def createdEvent_def
        map_of_mapsCopy Let_def TrimSpace_def is_space_def)
  moreover have "evaluateTriggerFilter plainLib ''t'' (Some ([''row''], conceptFilter)) (sampleEvent [])
      (Some [(''concept'', VString ''v1:task'')]) = Inr True"
    by (simp add: evaluateTriggerFilter_def filterOptions_def filterScope_def bindScope_def RunScopeLookup_def filterState_def
        conceptFilter_def member_def filter_run_defs)
  ultimately show "triggerFires plainLib plainText ''t'' [optionalArg ''concept''] (Some ([''row''], conceptFilter)) (sampleEvent [])"
    by (simp add: triggerFires_def)
qed

end
