(* ===== verification/Tarjan.thy ===== *)
theory Tarjan
  imports Prelude "HOL-Library.While_Combinator"
begin

text \<open>
  The graph algorithms of the static loop check (component/automations/loop_graph_scc.go): the iterative
  computation of strongly connected components, proved to give every component once, in reverse
  topological order.

  A graph on \<open>n\<close> nodes is the list of their successor lists; the callers build one entry per node and
  name only nodes in them (\<open>graph_ok\<close>), so no slice is read out of range. A slice used as a stack is
  a list with its end at the head.
\<close>

section \<open>The algorithm\<close>

record tarjan_state =
  tj_index :: "int list"
  tj_low :: "int list"
  tj_onStack :: "bool list"
  tj_stack :: "nat list"
  tj_out :: "nat list list"
  tj_next :: int
  tj_call :: "(nat \<times> nat) list"

definition push :: "tarjan_state \<Rightarrow> nat \<Rightarrow> tarjan_state" where
  "push t v =
     t\<lparr>tj_index := (tj_index t)[v := tj_next t], tj_low := (tj_low t)[v := tj_next t], tj_next := tj_next t + 1,
       tj_stack := v # tj_stack t, tj_onStack := (tj_onStack t)[v := True]\<rparr>"

fun popComp :: "nat \<Rightarrow> nat list \<Rightarrow> bool list \<Rightarrow> nat list \<Rightarrow> nat list \<times> bool list \<times> nat list" where
  "popComp v [] onStack members = ([], onStack, members)"
| "popComp v (w # stack) onStack members =
     (let onStack = onStack[w := False]; members = members @ [w]
      in if w = v then (stack, onStack, members) else popComp v stack onStack members)"

text \<open>One turn of the loop over the call stack.\<close>

definition visitEdge :: "nat list list \<Rightarrow> nat \<Rightarrow> nat \<Rightarrow> (nat \<times> nat) list \<Rightarrow> tarjan_state \<Rightarrow> tarjan_state" where
  "visitEdge succs v i rest t =
     (let w = succs ! v ! i; t = t\<lparr>tj_call := (v, i + 1) # rest\<rparr>
      in if tj_index t ! w = -1 then
           (let t = push t w in t\<lparr>tj_call := (w, 0) # tj_call t\<rparr>)
         else if tj_onStack t ! w \<and> tj_index t ! w < tj_low t ! v
           then t\<lparr>tj_low := (tj_low t)[v := tj_index t ! w]\<rparr>
         else t)"

definition leaveNode :: "nat \<Rightarrow> (nat \<times> nat) list \<Rightarrow> tarjan_state \<Rightarrow> tarjan_state" where
  "leaveNode v rest t =
     (let t = t\<lparr>tj_call := rest\<rparr>;
          t = (case rest of
                 [] \<Rightarrow> t
               | (u, _) # _ \<Rightarrow> if tj_low t ! v < tj_low t ! u then t\<lparr>tj_low := (tj_low t)[u := tj_low t ! v]\<rparr> else t)
      in if tj_low t ! v = tj_index t ! v then
           (let (stack, onStack, members) = popComp v (tj_stack t) (tj_onStack t) []
            in t\<lparr>tj_stack := stack, tj_onStack := onStack, tj_out := tj_out t @ [sort members]\<rparr>)
         else t)"

definition tarjan_step :: "nat list list \<Rightarrow> tarjan_state \<Rightarrow> tarjan_state" where
  "tarjan_step succs t =
     (case tj_call t of
        [] \<Rightarrow> t
      | (v, i) # rest \<Rightarrow> if i < length (succs ! v) then visitEdge succs v i rest t else leaveNode v rest t)"

definition tarjan_loop :: "nat list list \<Rightarrow> tarjan_state \<Rightarrow> tarjan_state option" where
  "tarjan_loop succs = while_option (\<lambda>t. tj_call t \<noteq> []) (tarjan_step succs)"

fun tarjan_roots :: "nat list list \<Rightarrow> nat list \<Rightarrow> tarjan_state \<Rightarrow> tarjan_state option" where
  "tarjan_roots succs [] t = Some t"
| "tarjan_roots succs (r # rs) t =
     (if tj_index t ! r \<noteq> -1 then tarjan_roots succs rs t
      else case tarjan_loop succs ((push t r)\<lparr>tj_call := [(r, 0)]\<rparr>) of
             None \<Rightarrow> None
           | Some t' \<Rightarrow> tarjan_roots succs rs t')"

definition tarjan :: "nat \<Rightarrow> nat list list \<Rightarrow> nat list list option" where
  "tarjan n succs =
     map_option tj_out
       (tarjan_roots succs [0..<n]
          \<lparr>tj_index = replicate n (-1), tj_low = replicate n 0, tj_onStack = replicate n False, tj_stack = [],
           tj_out = [], tj_next = 0, tj_call = []\<rparr>)"

section \<open>What it computes\<close>

definition graph_ok :: "nat \<Rightarrow> nat list list \<Rightarrow> bool" where
  "graph_ok n succs \<longleftrightarrow> length succs = n \<and> (\<forall>ws \<in> set succs. \<forall>w \<in> set ws. w < n)"

definition edges :: "nat list list \<Rightarrow> (nat \<times> nat) set" where
  "edges succs = {(v, w). v < length succs \<and> w \<in> set (succs ! v)}"

definition is_scc :: "nat list list \<Rightarrow> nat set \<Rightarrow> bool" where
  "is_scc succs c \<longleftrightarrow> (\<exists>v \<in> c. v < length succs \<and> c = {w. (v, w) \<in> (edges succs)\<^sup>* \<and> (w, v) \<in> (edges succs)\<^sup>*})"

section \<open>The invariant\<close>

text \<open>
  Nodes with an open frame, and the successors of a node the search has looked at: those before the
  frame's position while it is open, all of them after.
\<close>

abbreviation idx :: "tarjan_state \<Rightarrow> nat \<Rightarrow> int" where
  "idx t v \<equiv> tj_index t ! v"

abbreviation low :: "tarjan_state \<Rightarrow> nat \<Rightarrow> int" where
  "low t v \<equiv> tj_low t ! v"

definition frames :: "tarjan_state \<Rightarrow> nat set" where
  "frames t = fst ` set (tj_call t)"

definition explored :: "nat list list \<Rightarrow> tarjan_state \<Rightarrow> nat \<Rightarrow> nat set" where
  "explored succs t v =
     (case map_of (tj_call t) v of None \<Rightarrow> set (succs ! v) | Some i \<Rightarrow> set (take i (succs ! v)))"

text \<open>The open node a stack node hangs from: the last one entered no later than it.\<close>

definition owner :: "tarjan_state \<Rightarrow> nat \<Rightarrow> nat \<Rightarrow> bool" where
  "owner t c x \<longleftrightarrow> c \<in> frames t \<and> idx t c \<le> idx t x \<and> (\<forall>c' \<in> frames t. idx t c' \<le> idx t x \<longrightarrow> idx t c' \<le> idx t c)"

definition order_inv :: "nat \<Rightarrow> nat list list \<Rightarrow> tarjan_state \<Rightarrow> bool" where
  "order_inv n succs t \<longleftrightarrow>
     length (tj_index t) = n \<and> length (tj_low t) = n \<and> length (tj_onStack t) = n \<and> 0 \<le> tj_next t \<and>
     (\<forall>v < n. -1 \<le> idx t v \<and> idx t v < tj_next t) \<and>
     (\<forall>v < n. \<forall>w < n. idx t v = idx t w \<longrightarrow> idx t v \<noteq> -1 \<longrightarrow> v = w) \<and>
     sorted_wrt (\<lambda>x y. idx t y < idx t x) (tj_stack t) \<and>
     set (tj_stack t) \<subseteq> {v. v < n \<and> idx t v \<noteq> -1} \<and>
     (\<forall>v < n. tj_onStack t ! v \<longleftrightarrow> v \<in> set (tj_stack t)) \<and>
     sorted_wrt (\<lambda>x y. idx t (fst y) < idx t (fst x)) (tj_call t) \<and>
     frames t \<subseteq> set (tj_stack t) \<and> (\<forall>(v, i) \<in> set (tj_call t). i \<le> length (succs ! v))"

definition reach_inv :: "nat \<Rightarrow> nat list list \<Rightarrow> tarjan_state \<Rightarrow> bool" where
  "reach_inv n succs t \<longleftrightarrow>
     (\<forall>v < n. idx t v \<noteq> -1 \<longrightarrow> (\<forall>w \<in> explored succs t v. idx t w \<noteq> -1)) \<and>
     (\<forall>c \<in> frames t. \<forall>y \<in> set (tj_stack t). idx t c \<le> idx t y \<longrightarrow> (c, y) \<in> (edges succs)\<^sup>*) \<and>
     (\<forall>x \<in> set (tj_stack t). \<exists>c \<in> frames t. idx t c \<le> idx t x \<and> (x, c) \<in> (edges succs)\<^sup>*)"

definition low_inv :: "nat list list \<Rightarrow> tarjan_state \<Rightarrow> bool" where
  "low_inv succs t \<longleftrightarrow>
     (\<forall>c \<in> frames t. low t c \<le> idx t c \<and> (\<exists>z \<in> set (tj_stack t). idx t z = low t c \<and> (c, z) \<in> (edges succs)\<^sup>*)) \<and>
     (\<forall>x \<in> set (tj_stack t). \<forall>c. owner t c x \<longrightarrow>
        (\<forall>w \<in> explored succs t x \<inter> set (tj_stack t). low t c \<le> idx t w))"

definition closed_under :: "nat list list \<Rightarrow> nat set \<Rightarrow> bool" where
  "closed_under succs c \<longleftrightarrow> edges succs `` c \<subseteq> c"

definition out_inv :: "nat \<Rightarrow> nat list list \<Rightarrow> tarjan_state \<Rightarrow> bool" where
  "out_inv n succs t \<longleftrightarrow>
     (\<forall>c \<in> set (tj_out t). is_scc succs (set c) \<and> sorted c) \<and>
     distinct (concat (tj_out t)) \<and>
     set (concat (tj_out t)) = {v. v < n \<and> idx t v \<noteq> -1 \<and> v \<notin> set (tj_stack t)} \<and>
     (\<forall>k \<le> length (tj_out t). closed_under succs (set (concat (take k (tj_out t)))))"

definition tarjan_inv :: "nat \<Rightarrow> nat list list \<Rightarrow> tarjan_state \<Rightarrow> bool" where
  "tarjan_inv n succs t \<longleftrightarrow> order_inv n succs t \<and> reach_inv n succs t \<and> low_inv succs t \<and> out_inv n succs t"

lemma order_invD:
  assumes "order_inv n succs t"
  shows "length (tj_index t) = n" "length (tj_low t) = n" "length (tj_onStack t) = n" "0 \<le> tj_next t"
    "\<And>v. v < n \<Longrightarrow> -1 \<le> idx t v" "\<And>v. v < n \<Longrightarrow> idx t v < tj_next t"
    "\<And>v w. v < n \<Longrightarrow> w < n \<Longrightarrow> idx t v = idx t w \<Longrightarrow> idx t v \<noteq> -1 \<Longrightarrow> v = w"
    "sorted_wrt (\<lambda>x y. idx t y < idx t x) (tj_stack t)"
    "\<And>v. v \<in> set (tj_stack t) \<Longrightarrow> v < n" "\<And>v. v \<in> set (tj_stack t) \<Longrightarrow> idx t v \<noteq> -1"
    "\<And>v. v < n \<Longrightarrow> tj_onStack t ! v \<longleftrightarrow> v \<in> set (tj_stack t)"
    "sorted_wrt (\<lambda>x y. idx t (fst y) < idx t (fst x)) (tj_call t)"
    "\<And>v. v \<in> frames t \<Longrightarrow> v \<in> set (tj_stack t)" "\<And>v i. (v, i) \<in> set (tj_call t) \<Longrightarrow> i \<le> length (succs ! v)"
  using assms unfolding order_inv_def by blast+

lemma reach_invD:
  assumes "reach_inv n succs t"
  shows "\<And>v w. v < n \<Longrightarrow> idx t v \<noteq> -1 \<Longrightarrow> w \<in> explored succs t v \<Longrightarrow> idx t w \<noteq> -1"
    "\<And>c y. c \<in> frames t \<Longrightarrow> y \<in> set (tj_stack t) \<Longrightarrow> idx t c \<le> idx t y \<Longrightarrow> (c, y) \<in> (edges succs)\<^sup>*"
    "\<And>x. x \<in> set (tj_stack t) \<Longrightarrow> \<exists>c \<in> frames t. idx t c \<le> idx t x \<and> (x, c) \<in> (edges succs)\<^sup>*"
  using assms unfolding reach_inv_def by blast+

lemma low_invD:
  assumes "low_inv succs t"
  shows "\<And>c. c \<in> frames t \<Longrightarrow> low t c \<le> idx t c"
    "\<And>c. c \<in> frames t \<Longrightarrow> \<exists>z \<in> set (tj_stack t). idx t z = low t c \<and> (c, z) \<in> (edges succs)\<^sup>*"
    "\<And>x c w. x \<in> set (tj_stack t) \<Longrightarrow> owner t c x \<Longrightarrow> w \<in> explored succs t x \<Longrightarrow> w \<in> set (tj_stack t) \<Longrightarrow>
      low t c \<le> idx t w"
  using assms unfolding low_inv_def by blast+

lemma frames_Cons: "tj_call t = (v, i) # rest \<Longrightarrow> frames t = insert v (fst ` set rest)"
  by (simp add: frames_def)

lemma graph_ok_edge:
  assumes "graph_ok n succs" "v < n" "w \<in> set (succs ! v)"
  shows "w < n" "(v, w) \<in> edges succs"
  using assms by (auto simp: graph_ok_def edges_def)

lemma edges_in_range: "graph_ok n succs \<Longrightarrow> (v, w) \<in> edges succs \<Longrightarrow> v < n \<and> w < n"
  by (auto simp: edges_def graph_ok_def)

lemma nth_succ:
  "graph_ok n succs \<Longrightarrow> v < n \<Longrightarrow> i < length (succs ! v) \<Longrightarrow> succs ! v ! i < n \<and> (v, succs ! v ! i) \<in> edges succs"
  using graph_ok_edge nth_mem by metis

text \<open>The frame on top is that of the latest open node.\<close>

lemma top_frame:
  assumes "order_inv n succs t" "tj_call t = (v, i) # rest"
  shows "v < n" "v \<in> set (tj_stack t)" "v \<in> frames t" "\<And>c. c \<in> fst ` set rest \<Longrightarrow> idx t c < idx t v" "v \<notin> fst ` set rest"
    "i \<le> length (succs ! v)" "\<And>c. c \<in> frames t \<Longrightarrow> idx t c \<le> idx t v"
proof -
  show fr: "v \<in> frames t" using assms(2) by (simp add: frames_def)
  show st: "v \<in> set (tj_stack t)" using order_invD(13) [OF assms(1) fr] .
  show "v < n" using order_invD(9) [OF assms(1) st] .
  show lt: "idx t c < idx t v" if "c \<in> fst ` set rest" for c
    using order_invD(12) [OF assms(1)] that by (auto simp: assms(2))
  show "v \<notin> fst ` set rest" using lt by blast
  show "i \<le> length (succs ! v)" using order_invD(14) [OF assms(1)] assms(2) by simp
  show "idx t c \<le> idx t v" if "c \<in> frames t" for c
    using that lt [of c] unfolding frames_Cons [OF assms(2)] by (cases "c = v") (simp_all add: order.strict_implies_order)
qed

section \<open>Entering a node\<close>

lemma push_simps:
  assumes "length (tj_index t) = n" "length (tj_low t) = n" "length (tj_onStack t) = n" "w < n"
  shows "idx (push t w) x = (if x = w then tj_next t else idx t x)"
    "low (push t w) x = (if x = w then tj_next t else low t x)"
    "tj_onStack (push t w) ! x \<longleftrightarrow> x = w \<or> tj_onStack t ! x"
    "tj_stack (push t w) = w # tj_stack t" "tj_next (push t w) = tj_next t + 1" "tj_out (push t w) = tj_out t"
    "length (tj_index (push t w)) = n" "length (tj_low (push t w)) = n" "length (tj_onStack (push t w)) = n"
  using assms by (simp_all add: push_def nth_list_update)



text \<open>
  Entering a node that was not seen: from the loop over the roots, or along an edge of the top frame.
  The hypotheses say what the rest of the call stack is and which node, if any, has just looked at the new one.
\<close>

lemma push_inv:
  assumes inv: "tarjan_inv n succs t" and w: "w < n" "idx t w = -1"
    and t': "t' = (push t w)\<lparr>tj_call := (w, 0) # cs\<rparr>"
    and cs: "fst ` set cs = frames t" "sorted_wrt (\<lambda>x y. idx t (fst y) < idx t (fst x)) cs"
      "\<forall>(v, i) \<in> set cs. i \<le> length (succs ! v)"
    and ex: "\<And>x. x \<noteq> w \<Longrightarrow> explored succs t' x \<subseteq> insert w (explored succs t x)"
    and reach: "\<And>c. c \<in> frames t \<Longrightarrow> (c, w) \<in> (edges succs)\<^sup>*"
  shows "tarjan_inv n succs t'"
proof -
  have o: "order_inv n succs t" and r: "reach_inv n succs t" and l: "low_inv succs t" and out: "out_inv n succs t"
    using inv by (simp_all add: tarjan_inv_def)
  note o = order_invD [OF o] and r = reach_invD [OF r] and l = low_invD [OF l]
  note p = push_simps [OF o(1-3) w(1)]
  have nx: "tj_next t \<noteq> -1" using o(4) by simp
  have idx': "idx t' x = (if x = w then tj_next t else idx t x)" and low': "low t' x = (if x = w then tj_next t else low t x)"
    and st': "tj_stack t' = w # tj_stack t" and fr': "frames t' = insert w (frames t)" and out': "tj_out t' = tj_out t" for x
    using cs(1) by (simp_all add: t' p frames_def)
  have fresh: "w \<notin> set (tj_stack t)" "w \<notin> frames t" using o(10,13) w(2) by blast+
  have old: "x \<noteq> w" if "x \<in> set (tj_stack t)" for x using that fresh by blast
  have ow: "explored succs t' w = {}" by (simp add: explored_def t')
  have "order_inv n succs t'"
    unfolding order_inv_def
  proof (intro conjI)
    have "sorted_wrt (\<lambda>x y. idx t' y < idx t' x) (tj_stack t)"
      by (rule sorted_wrt_mono_rel [OF _ o(8)]) (use fresh in \<open>auto simp: idx'\<close>)
    then show "sorted_wrt (\<lambda>x y. idx t' y < idx t' x) (tj_stack t')"
      using o(6,9) old by (simp add: st') (simp add: idx')
    show "sorted_wrt (\<lambda>x y. idx t' (fst y) < idx t' (fst x)) (tj_call t')"
    proof -
      have "fst e \<noteq> w" "idx t (fst e) < tj_next t" if "e \<in> set cs" for e
        using that cs(1) fresh o(6,9,13) by (metis image_eqI)+
      note e = this
      have "sorted_wrt (\<lambda>x y. idx t' (fst y) < idx t' (fst x)) cs"
        by (rule sorted_wrt_mono_rel [OF _ cs(2)]) (use e(1) in \<open>simp add: idx'\<close>)
      moreover have "tj_call t' = (w, 0) # cs" by (simp add: t')
      ultimately show ?thesis using e by (simp add: idx')
    qed
    show "\<forall>(v, i) \<in> set (tj_call t'). i \<le> length (succs ! v)" using cs(3) by (simp add: t')
    have "v = u" if "v < n" "u < n" "idx t' v = idx t' u" "idx t' v \<noteq> -1" for v u
      using o(6) [of v] o(6) [of u] o(7) [of v u] that by (auto simp: idx' split: if_splits)
    then show "\<forall>v < n. \<forall>u < n. idx t' v = idx t' u \<longrightarrow> idx t' v \<noteq> -1 \<longrightarrow> v = u" by blast
    have "-1 \<le> idx t' v \<and> idx t' v < tj_next t + 1" if "v < n" for v
      using o(4) o(5,6) [OF that] by (simp add: idx')
    then show "\<forall>v < n. -1 \<le> idx t' v \<and> idx t' v < tj_next t'" by (simp add: t' p)
    show "set (tj_stack t') \<subseteq> {v. v < n \<and> idx t' v \<noteq> -1}" using o(9,10) w nx by (auto simp: st' idx')
    show "\<forall>v < n. tj_onStack t' ! v \<longleftrightarrow> v \<in> set (tj_stack t')" using o(11) by (auto simp: st' t' p)
    show "frames t' \<subseteq> set (tj_stack t')" using o(13) by (auto simp: st' fr')
  qed (use o in \<open>simp_all add: t' p\<close>)
  moreover have "reach_inv n succs t'"
    unfolding reach_inv_def
  proof (intro conjI allI impI ballI)
    fix v u assume "v < n" "idx t' v \<noteq> -1" "u \<in> explored succs t' v"
    then show "idx t' u \<noteq> -1" using r(1) [of v u] ex [of v] ow nx by (cases "v = w") (auto simp: idx')
  next
    fix c y assume "c \<in> frames t'" "y \<in> set (tj_stack t')" "idx t' c \<le> idx t' y"
    then show "(c, y) \<in> (edges succs)\<^sup>*"
      using r(2) [of c y] reach [of c] o(6) [of y] o(9) [of y] old [of y] fresh
      by (cases "c = w"; cases "y = w") (auto simp: idx' fr' st')
  next
    fix x assume x: "x \<in> set (tj_stack t')"
    show "\<exists>c \<in> frames t'. idx t' c \<le> idx t' x \<and> (x, c) \<in> (edges succs)\<^sup>*"
    proof (cases "x = w")
      case False
      then obtain c where "c \<in> frames t" "idx t c \<le> idx t x" "(x, c) \<in> (edges succs)\<^sup>*" using r(3) [of x] x st' by auto
      then show ?thesis using False fresh by (intro bexI [of _ c]) (auto simp: idx' fr')
    qed (auto simp: fr')
  qed
  moreover have "low_inv succs t'"
    unfolding low_inv_def
  proof (intro conjI allI impI ballI)
    fix c assume "c \<in> frames t'"
    then show "low t' c \<le> idx t' c" using l(1) [of c] by (auto simp: fr' idx' low')
  next
    fix c assume c: "c \<in> frames t'"
    show "\<exists>z \<in> set (tj_stack t'). idx t' z = low t' c \<and> (c, z) \<in> (edges succs)\<^sup>*"
    proof (cases "c = w")
      case False
      then obtain z where "z \<in> set (tj_stack t)" "idx t z = low t c" "(c, z) \<in> (edges succs)\<^sup>*"
        using l(2) [of c] c fr' by auto
      then show ?thesis using False old by (intro bexI [of _ z]) (auto simp: idx' low' st')
    qed (auto simp: st' idx' low')
  next
    fix x c u assume x: "x \<in> set (tj_stack t')" "owner t' c x" and u: "u \<in> explored succs t' x \<inter> set (tj_stack t')"
    have "x \<noteq> w" using u ow by auto
    then have x': "x \<in> set (tj_stack t)" "idx t x < tj_next t" using x(1) o(6,9) st' by auto
    have "c \<noteq> w" using x(2) x'(2) \<open>x \<noteq> w\<close> by (auto simp: owner_def idx')
    then have own: "owner t c x" using x(2) \<open>x \<noteq> w\<close> fresh by (auto simp: owner_def fr' idx' split: if_splits)
    have c: "c \<in> frames t" using own by (simp add: owner_def)
    show "low t' c \<le> idx t' u"
    proof (cases "u = w")
      case True
      then show ?thesis using l(1) [OF c] o(6) [of c] o(9,13) c \<open>c \<noteq> w\<close> by (force simp: idx' low')
    next
      case False
      then have "u \<in> explored succs t x" "u \<in> set (tj_stack t)" using u ex [OF \<open>x \<noteq> w\<close>] st' by auto
      then show ?thesis using l(3) [OF x'(1) own] False \<open>c \<noteq> w\<close> by (simp add: idx' low')
    qed
  qed
  moreover have "out_inv n succs t'" using out w by (auto simp: out_inv_def out' st' idx')
  ultimately show ?thesis by (simp add: tarjan_inv_def)
qed

section \<open>Looking at an edge\<close>

lemma explored_advance:
  assumes "tj_call t = (v, i) # rest" "i < length (succs ! v)" "tj_call t' = cs @ (v, Suc i) # rest" "x \<notin> fst ` set cs"
  shows "explored succs t' x = (if x = v then insert (succs ! v ! i) (explored succs t x) else explored succs t x)"
proof -
  have "map_of cs x = None" using assms(4) by (simp add: map_of_eq_None_iff)
  then show ?thesis using assms(1-3) by (auto simp: explored_def take_Suc_conv_app_nth map_add_def)
qed

lemma look_inv:
  assumes inv: "tarjan_inv n succs t" and call: "tj_call t = (v, i) # rest" and i: "i < length (succs ! v)"
    and seen: "idx t (succs ! v ! i) \<noteq> -1" and ok: "graph_ok n succs"
    and m: "m = low t v \<or> (succs ! v ! i \<in> set (tj_stack t) \<and> m = idx t (succs ! v ! i))" "m \<le> low t v"
      "succs ! v ! i \<in> set (tj_stack t) \<longrightarrow> m \<le> idx t (succs ! v ! i)"
    and t': "t' = t\<lparr>tj_call := (v, Suc i) # rest, tj_low := (tj_low t)[v := m]\<rparr>"
  shows "tarjan_inv n succs t'"
proof -
  let ?w = "succs ! v ! i"
  have o: "order_inv n succs t" and r: "reach_inv n succs t" and l: "low_inv succs t" and out: "out_inv n succs t"
    using inv by (simp_all add: tarjan_inv_def)
  note top = top_frame [OF o call]
  note l = low_invD [OF l]
  have fr: "frames t' = frames t" by (simp add: frames_def t' call)
  have low': "low t' x = (if x = v then m else low t x)" for x
    using order_invD(2) [OF o] top(1) by (simp add: t' nth_list_update)
  have ex: "explored succs t' x = (if x = v then insert ?w (explored succs t x) else explored succs t x)" for x
    by (rule explored_advance [OF call i, of _ "[]"]) (simp_all add: t')
  have same: "idx t' x = idx t x" "tj_stack t' = tj_stack t" for x by (simp_all add: t')
  have "order_inv n succs t'"
    using o i by (auto simp: order_inv_def fr) (auto simp: t' call)
  moreover have "reach_inv n succs t'"
    using r seen unfolding reach_inv_def fr same ex by auto
  moreover have "low_inv succs t'"
    unfolding low_inv_def
  proof (intro conjI allI impI ballI)
    fix c assume c: "c \<in> frames t'"
    then show "low t' c \<le> idx t' c" using l(1) [of c] m(2) by (auto simp: fr low' same)
    have "(v, ?w) \<in> (edges succs)\<^sup>*" using nth_succ [OF ok top(1) i] by auto
    then show "\<exists>z \<in> set (tj_stack t'). idx t' z = low t' c \<and> (c, z) \<in> (edges succs)\<^sup>*"
      using l(2) [of c] m(1) c by (auto simp: fr low' same)
  next
    fix x c u assume x: "x \<in> set (tj_stack t')" "owner t' c x" and u: "u \<in> explored succs t' x \<inter> set (tj_stack t')"
    have own: "owner t c x" using x(2) by (simp add: owner_def fr same)
    show "low t' c \<le> idx t' u"
    proof (cases "u \<in> explored succs t x")
      case True
      then have "low t c \<le> idx t u" using l(3) [OF _ own] x(1) u same by auto
      then show ?thesis using m(2) by (auto simp: low' same)
    next
      case False
      then have uv: "x = v" "u = ?w" using u by (auto simp: ex split: if_splits)
      have "idx t c = idx t v"
        using own top(3) unfolding owner_def uv by force
      then have "c = v"
        using own uv(1) order_invD(7,9,10,13) [OF o] top(1,2) unfolding owner_def by metis
      then show ?thesis using m(3) u by (simp add: low' same uv)
    qed
  qed
  moreover have "out_inv n succs t'" using out by (simp add: out_inv_def same) (simp add: t')
  ultimately show ?thesis by (simp add: tarjan_inv_def)
qed

lemma visitEdge_inv:
  assumes inv: "tarjan_inv n succs t" and call: "tj_call t = (v, i) # rest" and i: "i < length (succs ! v)"
    and ok: "graph_ok n succs"
  shows "tarjan_inv n succs (visitEdge succs v i rest t)"
proof -
  let ?w = "succs ! v ! i"
  have o: "order_inv n succs t" and r: "reach_inv n succs t" using inv by (simp_all add: tarjan_inv_def)
  note top = top_frame [OF o call]
  have w: "?w < n" "(v, ?w) \<in> edges succs" using nth_succ [OF ok top(1) i] by auto
  show ?thesis
  proof (cases "idx t ?w = -1")
    case True
    let ?t = "(push t ?w)\<lparr>tj_call := (?w, 0) # (v, Suc i) # rest\<rparr>"
    have "visitEdge succs v i rest t = ?t"
      using True by (simp add: visitEdge_def Let_def push_def)
    moreover have "tarjan_inv n succs ?t"
    proof (rule push_inv [OF inv w(1) True refl])
      show "explored succs ?t x \<subseteq> insert ?w (explored succs t x)" if "x \<noteq> ?w" for x
        using explored_advance [OF call i, of ?t "[(?w, 0)]" x] that by auto
      show "(c, ?w) \<in> (edges succs)\<^sup>*" if "c \<in> frames t" for c
        using reach_invD(2) [OF r that top(2) top(7) [OF that]] w(2) by auto
    qed (use order_invD(12,14) [OF o] call i in \<open>auto simp: frames_def\<close>)
    ultimately show ?thesis by simp
  next
    case False
    define m where "m = (if tj_onStack t ! ?w \<and> idx t ?w < low t v then idx t ?w else low t v)"
    have on: "tj_onStack t ! ?w \<longleftrightarrow> ?w \<in> set (tj_stack t)" by (rule order_invD(11) [OF o w(1)])
    have "visitEdge succs v i rest t = t\<lparr>tj_call := (v, Suc i) # rest, tj_low := (tj_low t)[v := m]\<rparr>"
      using False by (simp add: visitEdge_def Let_def m_def)
    then show ?thesis
      using on by (intro look_inv [OF inv call i False ok, of m]) (auto simp: m_def)
  qed
qed

section \<open>Leaving a node\<close>

lemma popComp_split:
  "v \<notin> set pre \<Longrightarrow> popComp v (pre @ v # suf) on acc =
     (suf, foldl (\<lambda>on w. on[w := False]) on (pre @ [v]), acc @ pre @ [v])"
  by (induction pre arbitrary: on acc) (auto simp: Let_def)

lemma foldl_clear:
  "x < length on \<Longrightarrow> foldl (\<lambda>on w. on[w := False]) on ws ! x \<longleftrightarrow> on ! x \<and> x \<notin> set ws"
proof (induction ws arbitrary: on)
  case (Cons a ws)
  then show ?case using Cons.IH [of "on[a := False]"] by (cases "a = x") (simp_all add: nth_list_update)
qed simp

lemma foldl_clear_length: "length (foldl (\<lambda>on w. on[w := False]) on ws) = length on"
  by (induction ws arbitrary: on) auto

lemma explored_leave:
  assumes "tj_call t = (v, i) # rest" "i = length (succs ! v)" "v \<notin> fst ` set rest" "tj_call t' = rest"
  shows "explored succs t' x = explored succs t x"
proof -
  have "map_of rest v = None" using assms(3) by (simp add: map_of_eq_None_iff)
  then show ?thesis using assms by (auto simp: explored_def)
qed

text \<open>A node that is not the first of its component hands what it found to the frame below.\<close>

lemma merge_inv:
  assumes inv: "tarjan_inv n succs t" and call: "tj_call t = (v, length (succs ! v)) # (u, j) # rest"
    and nr: "low t v < idx t v"
    and t': "t' = t\<lparr>tj_call := (u, j) # rest, tj_low := (tj_low t)[u := min (low t u) (low t v)]\<rparr>"
  shows "tarjan_inv n succs t'"
proof -
  have o: "order_inv n succs t" and r: "reach_inv n succs t" and l: "low_inv succs t" and out: "out_inv n succs t"
    using inv by (simp_all add: tarjan_inv_def)
  note top = top_frame [OF o call]
  note r = reach_invD [OF r] and l = low_invD [OF l]
  have fr': "frames t' = insert u (fst ` set rest)" by (simp add: frames_def t')
  have fr: "frames t = insert v (frames t')" unfolding fr' by (simp add: frames_def call)
  have v: "v \<notin> frames t'" using top(5) by (simp add: fr')
  have u: "u \<in> frames t" "u < n" "idx t u < idx t v"
    using order_invD(9,13) [OF o] top(4) by (auto simp: fr fr')
  have same: "idx t' x = idx t x" "tj_stack t' = tj_stack t" for x by (simp_all add: t')
  have low': "low t' x = (if x = u then min (low t u) (low t v) else low t x)" for x
    using order_invD(2) [OF o] u(2) by (simp add: t' nth_list_update)
  have ex: "explored succs t' x = explored succs t x" for x
    by (rule explored_leave [OF call refl]) (use top(5) in \<open>simp_all add: t'\<close>)
  have uv: "(u, v) \<in> (edges succs)\<^sup>*" using r(2) [OF u(1) top(2)] u(3) by simp
  obtain zv where zv: "zv \<in> set (tj_stack t)" "idx t zv = low t v" "(v, zv) \<in> (edges succs)\<^sup>*"
    using l(2) [OF top(3)] by blast
  have "frames t' \<subseteq> set (tj_stack t)" using order_invD(13) [OF o] fr by auto
  then have "order_inv n succs t'"
    using o by (auto simp: order_inv_def) (auto simp: t' call)
  moreover have "reach_inv n succs t'"
    unfolding reach_inv_def
  proof (intro conjI allI impI ballI)
    fix x w assume "x < n" "idx t' x \<noteq> -1" "w \<in> explored succs t' x"
    then show "idx t' w \<noteq> -1" using r(1) [of x w] by (simp add: same ex)
  next
    fix c y assume "c \<in> frames t'" "y \<in> set (tj_stack t')" "idx t' c \<le> idx t' y"
    then show "(c, y) \<in> (edges succs)\<^sup>*" using r(2) [of c y] by (simp add: fr same)
  next
    fix x assume "x \<in> set (tj_stack t')"
    then obtain c where c: "c \<in> frames t" "idx t c \<le> idx t x" "(x, c) \<in> (edges succs)\<^sup>*" using r(3) [of x] same by auto
    obtain d where d: "d \<in> frames t" "idx t d \<le> idx t zv" "(zv, d) \<in> (edges succs)\<^sup>*" using r(3) [OF zv(1)] by blast
    show "\<exists>c \<in> frames t'. idx t' c \<le> idx t' x \<and> (x, c) \<in> (edges succs)\<^sup>*"
    proof (cases "c = v")
      case True
      have "d \<noteq> v" using d(2) zv(2) nr by auto
      moreover have "(x, d) \<in> (edges succs)\<^sup>*" using c(3) zv(3) d(3) True by (meson rtrancl_trans)
      ultimately show ?thesis using d c True zv nr by (intro bexI [of _ d]) (auto simp: fr same)
    qed (use c in \<open>auto simp: fr same\<close>)
  qed
  moreover have "low_inv succs t'"
    unfolding low_inv_def
  proof (intro conjI allI impI ballI)
    fix c assume c: "c \<in> frames t'"
    then show "low t' c \<le> idx t' c" using l(1) [of c] u by (auto simp: fr low' same)
    have "(u, zv) \<in> (edges succs)\<^sup>*" using uv zv(3) by (rule rtrancl_trans)
    then show "\<exists>z \<in> set (tj_stack t'). idx t' z = low t' c \<and> (c, z) \<in> (edges succs)\<^sup>*"
      using l(2) [of c] zv c by (auto simp: fr low' same min_def)
  next
    fix x c w assume x: "x \<in> set (tj_stack t')" "owner t' c x" and w: "w \<in> explored succs t' x \<inter> set (tj_stack t')"
    have c: "c \<in> frames t'" using x(2) by (simp add: owner_def)
    show "low t' c \<le> idx t' w"
    proof (cases "owner t c x")
      case True
      then have "low t c \<le> idx t w" using l(3) [of x c w] x w by (simp add: same ex)
      then show ?thesis by (auto simp: low' same)
    next
      case False
      then have vx: "idx t v \<le> idx t x" "idx t c < idx t v" using x(2) by (auto simp: owner_def fr same)
      have "owner t v x" using vx(1) top(7) by (simp add: owner_def top(3))
      then have lv: "low t v \<le> idx t w" using l(3) [of x v w] x w by (simp add: same ex)
      have "idx t u \<le> idx t c" using x(2) u vx by (auto simp: owner_def fr' same)
      moreover have "idx t c \<le> idx t u"
        using c order_invD(12) [OF o] by (auto simp: fr' call)
      ultimately have "idx t c = idx t u" by simp
      moreover have "c \<in> set (tj_stack t)" using order_invD(13) [OF o, of c] c by (simp add: fr)
      ultimately have "c = u" using order_invD(7) [OF o _ u(2)] order_invD(9,10) [OF o, of c] by blast
      then show ?thesis using lv by (simp add: low' same)
    qed
  qed
  moreover have "out_inv n succs t'" using out by (simp add: out_inv_def same) (simp add: t')
  ultimately show ?thesis by (simp add: tarjan_inv_def)
qed

text \<open>A node whose low link is its own index closes its component: the stack from it upwards.\<close>

lemma component_closed:
  assumes inv: "tarjan_inv n succs t" and call: "tj_call t = (v, length (succs ! v)) # rest" and ok: "graph_ok n succs"
    and rt: "low t v = idx t v" and x: "x \<in> set (tj_stack t)" "idx t v \<le> idx t x" and e: "(x, w) \<in> edges succs"
  shows "w \<in> set (concat (tj_out t)) \<or> (w \<in> set (tj_stack t) \<and> idx t v \<le> idx t w)"
proof -
  have o: "order_inv n succs t" and r: "reach_inv n succs t" and l: "low_inv succs t" and out: "out_inv n succs t"
    using inv by (simp_all add: tarjan_inv_def)
  note top = top_frame [OF o call]
  have xn: "x < n" "idx t x \<noteq> -1" using order_invD(9,10) [OF o x(1)] .
  have own: "owner t v x" using x(2) top(3,7) by (simp add: owner_def)
  have w: "w \<in> set (succs ! x)" "w < n" using e ok xn by (auto simp: edges_def graph_ok_edge)
  have "explored succs t x = set (succs ! x)"
  proof (cases "x = v")
    case False
    have "x \<notin> frames t"
    proof
      assume "x \<in> frames t"
      then have "idx t x = idx t v" using top(7) [of x] x(2) by simp
      then show False using order_invD(7) [OF o xn(1) top(1)] xn(2) False by blast
    qed
    then have "map_of (tj_call t) x = None" by (simp add: map_of_eq_None_iff frames_def)
    then show ?thesis by (simp add: explored_def)
  qed (simp add: explored_def call)
  then have ex: "w \<in> explored succs t x" using w by simp
  then have "idx t w \<noteq> -1" using reach_invD(1) [OF r xn] by blast
  then show ?thesis
    using low_invD(3) [OF l x(1) own ex] rt out w(2) by (auto simp: out_inv_def)
qed

lemma component_scc:
  assumes inv: "tarjan_inv n succs t" and call: "tj_call t = (v, length (succs ! v)) # rest" and ok: "graph_ok n succs"
    and rt: "low t v = idx t v" and c: "c = {x \<in> set (tj_stack t). idx t v \<le> idx t x}"
  shows "is_scc succs c" "closed_under succs (set (concat (tj_out t)) \<union> c)"
proof -
  let ?E = "edges succs" and ?D = "set (concat (tj_out t))"
  have o: "order_inv n succs t" and r: "reach_inv n succs t" and out: "out_inv n succs t"
    using inv by (simp_all add: tarjan_inv_def)
  note top = top_frame [OF o call]
  have D: "closed_under succs ?D" using out unfolding out_inv_def by (metis order_refl take_all)
  show all: "closed_under succs (?D \<union> c)"
    using D component_closed [OF inv call ok rt] unfolding closed_under_def c by blast
  have stay: "y \<in> s" if "(x, y) \<in> ?E\<^sup>*" "x \<in> s" "closed_under succs s" for x y s
    using that by (induction rule: rtrancl_induct) (auto simp: closed_under_def)
  have vD: "v \<notin> ?D" using out top(2) by (auto simp: out_inv_def)
  have vc: "v \<in> c" using top(2) by (simp add: c)
  have "w \<in> c \<longleftrightarrow> (v, w) \<in> ?E\<^sup>* \<and> (w, v) \<in> ?E\<^sup>*" for w
  proof
    assume "w \<in> c"
    then have w: "w \<in> set (tj_stack t)" "idx t v \<le> idx t w" by (auto simp: c)
    obtain d where d: "d \<in> frames t" "(w, d) \<in> ?E\<^sup>*" using reach_invD(3) [OF r w(1)] by blast
    have "(d, v) \<in> ?E\<^sup>*" using reach_invD(2) [OF r d(1) top(2) top(7) [OF d(1)]] .
    then show "(v, w) \<in> ?E\<^sup>* \<and> (w, v) \<in> ?E\<^sup>*" using reach_invD(2) [OF r top(3) w] d(2) by (meson rtrancl_trans)
  next
    assume w: "(v, w) \<in> ?E\<^sup>* \<and> (w, v) \<in> ?E\<^sup>*"
    then have "w \<in> ?D \<union> c" using stay [OF _ _ all, of v w] vc by blast
    then show "w \<in> c" using stay [OF _ _ D, of w v] w vD by blast
  qed
  then show "is_scc succs c" using vc top(1) ok unfolding is_scc_def graph_ok_def by auto
qed

lemma desc_distinct: "sorted_wrt (\<lambda>x y. f y < (f x :: int)) xs \<Longrightarrow> distinct xs"
  by (induction xs) auto

lemma complete_inv:
  assumes inv: "tarjan_inv n succs t" and call: "tj_call t = (v, length (succs ! v)) # rest" and ok: "graph_ok n succs"
    and rt: "low t v = idx t v" and split: "tj_stack t = pre @ v # suf"
    and t': "t' = t\<lparr>tj_call := rest, tj_stack := suf,
      tj_onStack := foldl (\<lambda>on w. on[w := False]) (tj_onStack t) (pre @ [v]), tj_out := tj_out t @ [sort (pre @ [v])]\<rparr>"
  shows "tarjan_inv n succs t'"
proof -
  have o: "order_inv n succs t" and r: "reach_inv n succs t" and l: "low_inv succs t" and out: "out_inv n succs t"
    using inv by (simp_all add: tarjan_inv_def)
  note top = top_frame [OF o call] and r = reach_invD [OF r] and l = low_invD [OF l]
  have sorted: "sorted_wrt (\<lambda>x y. idx t y < idx t x) (pre @ v # suf)" using order_invD(8) [OF o] split by simp
  have below: "x \<in> set suf \<longleftrightarrow> x \<in> set (tj_stack t) \<and> idx t x < idx t v" for x
    using sorted by (auto simp: split sorted_wrt_append)
  have above: "set (pre @ [v]) = {x \<in> set (tj_stack t). idx t v \<le> idx t x}"
    using sorted by (force simp: split sorted_wrt_append)
  have fr': "frames t' = fst ` set rest" by (simp add: frames_def t')
  have fr: "frames t = insert v (frames t')" unfolding fr' by (simp add: frames_def call)
  have lt: "idx t c < idx t v" if "c \<in> frames t'" for c using top(4) that fr' by blast
  have same: "idx t' x = idx t x" "low t' x = low t x" "tj_stack t' = suf" for x by (simp_all add: t')
  have ex: "explored succs t' x = explored succs t x" for x
    by (rule explored_leave [OF call refl top(5)]) (simp add: t')
  have "order_inv n succs t'"
    unfolding order_inv_def
  proof (intro conjI)
    show "\<forall>x < n. tj_onStack t' ! x \<longleftrightarrow> x \<in> set (tj_stack t')"
    proof (intro allI impI)
      fix x assume x: "x < n"
      have "tj_onStack t' ! x \<longleftrightarrow> tj_onStack t ! x \<and> x \<notin> set (pre @ [v])"
        using foldl_clear [of x "tj_onStack t" "pre @ [v]"] x order_invD(3) [OF o] by (simp add: t')
      moreover have "x \<in> set (pre @ [v]) \<longleftrightarrow> x \<in> set (tj_stack t) \<and> \<not> idx t x < idx t v" unfolding above by auto
      ultimately show "tj_onStack t' ! x \<longleftrightarrow> x \<in> set (tj_stack t')"
        unfolding same below using order_invD(11) [OF o x] by blast
    qed
    show "sorted_wrt (\<lambda>x y. idx t' y < idx t' x) (tj_stack t')" using sorted by (simp add: same sorted_wrt_append)
    show "frames t' \<subseteq> set (tj_stack t')" using order_invD(13) [OF o] lt below by (auto simp: same fr)
    show "set (tj_stack t') \<subseteq> {x. x < n \<and> idx t' x \<noteq> -1}" using order_invD(9,10) [OF o] below by (auto simp: same)
    show "sorted_wrt (\<lambda>x y. idx t' (fst y) < idx t' (fst x)) (tj_call t')"
      using order_invD(12) [OF o] by (simp add: t' call)
    show "\<forall>(x, i) \<in> set (tj_call t'). i \<le> length (succs ! x)" using order_invD(14) [OF o] by (auto simp: t' call)
    show "length (tj_onStack t') = n" using order_invD(3) [OF o] foldl_clear_length [of "tj_onStack t" "pre @ [v]"] by (simp add: t')
    show "\<forall>x < n. \<forall>w < n. idx t' x = idx t' w \<longrightarrow> idx t' x \<noteq> -1 \<longrightarrow> x = w"
      using order_invD(7) [OF o] by (simp add: same)
  qed (use order_invD(1,2,4,5,6) [OF o] in \<open>simp_all add: t'\<close>)
  moreover have "reach_inv n succs t'"
    unfolding reach_inv_def
  proof (intro conjI allI impI ballI)
    fix x assume "x \<in> set (tj_stack t')"
    then have x: "x \<in> set (tj_stack t)" "idx t x < idx t v" using below by (auto simp: same)
    then show "\<exists>c \<in> frames t'. idx t' c \<le> idx t' x \<and> (x, c) \<in> (edges succs)\<^sup>*"
      using r(3) [OF x(1)] by (auto simp: fr same)
  qed (use r(1,2) below in \<open>auto simp: same ex fr\<close>)
  moreover have "low_inv succs t'"
    unfolding low_inv_def
  proof (intro conjI allI impI ballI)
    fix c assume c: "c \<in> frames t'"
    then show "low t' c \<le> idx t' c" using l(1) [of c] by (simp add: fr same)
    then show "\<exists>z \<in> set (tj_stack t'). idx t' z = low t' c \<and> (c, z) \<in> (edges succs)\<^sup>*"
      using l(2) [of c] lt [OF c] c below by (force simp: fr same)
  next
    fix x c w assume x: "x \<in> set (tj_stack t')" "owner t' c x" and w: "w \<in> explored succs t' x \<inter> set (tj_stack t')"
    have "x \<in> set (tj_stack t)" "idx t x < idx t v" using x(1) below by (auto simp: same)
    moreover from this have "owner t c x" using x(2) by (auto simp: owner_def fr same)
    ultimately show "low t' c \<le> idx t' w" using l(3) [of x c w] w below by (simp add: same ex)
  qed
  moreover have "out_inv n succs t'"
  proof -
    note scc = component_scc [OF inv call ok rt above]
    have dist: "distinct (pre @ [v])" using desc_distinct [OF sorted] by simp
    have disj: "set (pre @ [v]) \<inter> set (concat (tj_out t)) = {}"
      using out unfolding out_inv_def above by auto
    have out': "tj_out t' = tj_out t @ [sort (pre @ [v])]" by (simp add: t')
    have "closed_under succs (set (concat (take k (tj_out t'))))" if "k \<le> length (tj_out t')" for k
    proof (cases "k \<le> length (tj_out t)")
      case True
      then show ?thesis using out by (simp add: out_inv_def out')
    next
      case False
      then have "take k (tj_out t') = tj_out t @ [sort (pre @ [v])]" using that by (simp add: out')
      then show ?thesis using scc(2) by simp
    qed
    moreover have "set (concat (tj_out t')) = {x. x < n \<and> idx t' x \<noteq> -1 \<and> x \<notin> set (tj_stack t')}"
      using out above below order_invD(9,10) [OF o] by (auto simp: out_inv_def out' same)
    moreover have "distinct (concat (tj_out t'))"
      using out dist disj by (simp add: out_inv_def out' Int_commute)
    ultimately show ?thesis using out scc(1) unfolding out_inv_def by (auto simp: out')
  qed
  ultimately show ?thesis by (simp add: tarjan_inv_def)
qed

lemma leaveNode_inv:
  assumes inv: "tarjan_inv n succs t" and call: "tj_call t = (v, length (succs ! v)) # rest" and ok: "graph_ok n succs"
  shows "tarjan_inv n succs (leaveNode v rest t)"
proof -
  have o: "order_inv n succs t" and r: "reach_inv n succs t" and l: "low_inv succs t"
    using inv by (simp_all add: tarjan_inv_def)
  note top = top_frame [OF o call]
  have le: "low t v \<le> idx t v" using low_invD(1) [OF l top(3)] .
  show ?thesis
  proof (cases "low t v = idx t v")
    case True
    obtain pre suf where split: "tj_stack t = pre @ v # suf" using top(2) by (meson split_list)
    have "v \<notin> set pre" using desc_distinct [OF order_invD(8) [OF o]] split by auto
    note pop = popComp_split [OF this, of suf "tj_onStack t" "[]"]
    have keep: "\<not> low t v < low t u" if "rest = (u, j) # rest'" for u j rest'
      using top(4) [of u] low_invD(1) [OF l, of u] True that unfolding frames_Cons [OF call] by simp
    have "leaveNode v rest t = t\<lparr>tj_call := rest, tj_stack := suf,
        tj_onStack := foldl (\<lambda>on w. on[w := False]) (tj_onStack t) (pre @ [v]), tj_out := tj_out t @ [sort (pre @ [v])]\<rparr>"
    proof (cases rest)
      case Nil
      then show ?thesis using True pop by (simp add: leaveNode_def split Let_def)
    next
      case (Cons f fs)
      then show ?thesis using True pop keep by (cases f) (simp add: leaveNode_def split Let_def)
    qed
    then show ?thesis using complete_inv [OF inv call ok True split] by simp
  next
    case False
    then have nr: "low t v < idx t v" using le by simp
    obtain z where z: "z \<in> set (tj_stack t)" "idx t z = low t v" using low_invD(2) [OF l top(3)] by blast
    obtain c where c: "c \<in> frames t" "idx t c \<le> idx t z" using reach_invD(3) [OF r z(1)] by blast
    have "c \<noteq> v" using c(2) z(2) nr by auto
    then have "rest \<noteq> []" using c(1) by (auto simp: frames_def call)
    then obtain u j rest' where rest: "rest = (u, j) # rest'" by (metis list.exhaust surj_pair)
    have "u \<noteq> v" using top(5) rest by auto
    then have "leaveNode v rest t =
        t\<lparr>tj_call := (u, j) # rest', tj_low := (tj_low t)[u := min (low t u) (low t v)]\<rparr>"
      using False by (auto simp: leaveNode_def rest Let_def min_def nth_list_update)
    then show ?thesis using merge_inv [OF inv call [unfolded rest] nr] by simp
  qed
qed

lemma tarjan_step_inv:
  assumes inv: "tarjan_inv n succs t" and ok: "graph_ok n succs"
  shows "tarjan_inv n succs (tarjan_step succs t)"
proof (cases "tj_call t")
  case (Cons f rest)
  obtain v i where f: "f = (v, i)" by (cases f)
  have "i \<le> length (succs ! v)" using top_frame(6) [of n succs t v i rest] inv Cons f by (simp add: tarjan_inv_def)
  then show ?thesis
    using visitEdge_inv [OF inv, of v i rest] leaveNode_inv [OF inv, of v rest] ok Cons f
    by (cases "i < length (succs ! v)") (auto simp: tarjan_step_def)
qed (use inv in \<open>simp add: tarjan_step_def\<close>)

section \<open>It ends\<close>

text \<open>Work left: the unseen nodes with their edges, and the edges left on the open frames.\<close>

definition work_left :: "nat \<Rightarrow> nat list list \<Rightarrow> tarjan_state \<Rightarrow> nat" where
  "work_left n succs t =
     (\<Sum>v | v < n \<and> idx t v = -1. length (succs ! v) + 2) + (\<Sum>(v, i) \<leftarrow> tj_call t. length (succs ! v) - i + 1)"

lemma sum_without:
  assumes "finite A" "w \<in> A" "B = A - {w}"
  shows "(\<Sum>x \<in> A. f x) = f w + (\<Sum>x \<in> B. f x :: nat)"
  using assms by (simp add: sum.remove)

lemma work_left_step:
  assumes inv: "tarjan_inv n succs t" and ok: "graph_ok n succs" and open_call: "tj_call t \<noteq> []"
  shows "work_left n succs (tarjan_step succs t) < work_left n succs t"
proof -
  obtain v i rest where call: "tj_call t = (v, i) # rest" using open_call by (metis list.exhaust surj_pair)
  have o: "order_inv n succs t" using inv by (simp add: tarjan_inv_def)
  note top = top_frame [OF o call]
  show ?thesis
  proof (cases "i < length (succs ! v)")
    case True
    let ?w = "succs ! v ! i"
    have w: "?w < n" using nth_succ [OF ok top(1) True] by simp
    show ?thesis
    proof (cases "idx t ?w = -1")
      case unseen: True
      have "{x. x < n \<and> idx (push t ?w) x = -1} = {x. x < n \<and> idx t x = -1} - {?w}"
        using push_simps(1) [OF order_invD(1-3) [OF o] w] order_invD(4) [OF o] by auto
      then have "(\<Sum>x | x < n \<and> idx t x = -1. length (succs ! x) + 2) =
          (length (succs ! ?w) + 2) + (\<Sum>x | x < n \<and> idx (push t ?w) x = -1. length (succs ! x) + 2)"
        by (intro sum_without) (use unseen w in simp_all)
      moreover have "tarjan_step succs t = (push t ?w)\<lparr>tj_call := (?w, 0) # (v, Suc i) # rest\<rparr>"
        using True unseen by (simp add: tarjan_step_def call visitEdge_def Let_def push_def)
      ultimately show ?thesis using True by (simp add: work_left_def call)
    next
      case False
      have "tj_call (tarjan_step succs t) = (v, Suc i) # rest" "tj_index (tarjan_step succs t) = tj_index t"
        using True False by (simp_all add: tarjan_step_def call visitEdge_def Let_def)
      then show ?thesis using True by (simp add: work_left_def call)
    qed
  next
    case False
    have "tj_call (tarjan_step succs t) = rest" "tj_index (tarjan_step succs t) = tj_index t"
      using False by (auto simp: tarjan_step_def call leaveNode_def Let_def split: prod.splits list.splits)
    then show ?thesis by (simp add: work_left_def call)
  qed
qed

lemma tarjan_loop_ok:
  assumes inv: "tarjan_inv n succs t" and ok: "graph_ok n succs"
  obtains t' where "tarjan_loop succs t = Some t'" "tarjan_inv n succs t'" "tj_call t' = []"
    "\<And>v. v < n \<Longrightarrow> idx t v \<noteq> -1 \<Longrightarrow> idx t' v \<noteq> -1"
proof -
  let ?P = "\<lambda>s. tarjan_inv n succs s \<and> (\<forall>v < n. idx t v \<noteq> -1 \<longrightarrow> idx s v \<noteq> -1)"
  have step: "?P (tarjan_step succs s)" if s: "?P s" "tj_call s \<noteq> []" for s
  proof -
    obtain v i rest where call: "tj_call s = (v, i) # rest" using s(2) by (metis list.exhaust surj_pair)
    have o: "order_inv n succs s" using s(1) by (simp add: tarjan_inv_def)
    have "idx (tarjan_step succs s) x \<noteq> -1" if "x < n" "idx s x \<noteq> -1" for x
    proof (cases "i < length (succs ! v)")
      case True
      have "succs ! v ! i < n" using nth_succ [OF ok top_frame(1) [OF o call] True] by simp
      then show ?thesis
        using that True order_invD(1,4) [OF o]
        by (simp add: tarjan_step_def call visitEdge_def Let_def push_def nth_list_update)
    next
      case False
      then show ?thesis
        using that by (auto simp: tarjan_step_def call leaveNode_def Let_def split: prod.splits list.splits)
    qed
    then show ?thesis using s(1) tarjan_step_inv [OF _ ok] by blast
  qed
  obtain t' where t': "tarjan_loop succs t = Some t'"
    unfolding tarjan_loop_def
    using measure_while_option_Some [of ?P "\<lambda>s. tj_call s \<noteq> []" "tarjan_step succs" "work_left n succs" t]
      step work_left_step [OF _ ok] inv by blast
  moreover have "?P t'"
    using while_option_rule [of ?P "\<lambda>s. tj_call s \<noteq> []" "tarjan_step succs" t t'] step inv t' unfolding tarjan_loop_def by blast
  moreover have "tj_call t' = []" using while_option_stop [OF t' [unfolded tarjan_loop_def]] by simp
  ultimately show thesis using that by blast
qed

lemma tarjan_roots_ok:
  assumes ok: "graph_ok n succs" and "tarjan_inv n succs t" "tj_call t = []" "\<forall>r \<in> set rs. r < n"
  shows "\<exists>t'. tarjan_roots succs rs t = Some t' \<and> tarjan_inv n succs t' \<and> tj_call t' = [] \<and>
    (\<forall>v < n. v \<in> set rs \<or> idx t v \<noteq> -1 \<longrightarrow> idx t' v \<noteq> -1)"
  using assms(2-4)
proof (induction rs arbitrary: t)
  case (Cons r rs)
  show ?case
  proof (cases "idx t r = -1")
    case True
    let ?t = "(push t r)\<lparr>tj_call := [(r, 0)]\<rparr>"
    have r: "r < n" using Cons.prems by simp
    have o: "order_inv n succs t" using Cons.prems by (simp add: tarjan_inv_def)
    have "tarjan_inv n succs ?t"
      by (rule push_inv [OF Cons.prems(1) r True refl]) (use Cons.prems(2) in \<open>auto simp: frames_def explored_def\<close>)
    then obtain t' where t': "tarjan_loop succs ?t = Some t'" "tarjan_inv n succs t'" "tj_call t' = []"
        "\<And>v. v < n \<Longrightarrow> idx ?t v \<noteq> -1 \<Longrightarrow> idx t' v \<noteq> -1"
      using tarjan_loop_ok [OF _ ok] by metis
    have "idx t' v \<noteq> -1" if "v < n" "v = r \<or> idx t v \<noteq> -1" for v
      using t'(4) [OF that(1)] that order_invD(4) [OF o] push_simps(1) [OF order_invD(1-3) [OF o] r, of v]
      by (auto split: if_splits)
    moreover obtain t'' where "tarjan_roots succs rs t' = Some t''" "tarjan_inv n succs t''" "tj_call t'' = []"
        "\<forall>v < n. v \<in> set rs \<or> idx t' v \<noteq> -1 \<longrightarrow> idx t'' v \<noteq> -1"
      using Cons.IH [OF t'(2,3)] Cons.prems(3) by auto
    ultimately show ?thesis using True t'(1) by auto
  next
    case False
    then show ?thesis using Cons.IH [OF Cons.prems(1,2)] Cons.prems(3) by auto
  qed
qed auto

definition tarjan_start :: "nat \<Rightarrow> tarjan_state" where
  "tarjan_start n = \<lparr>tj_index = replicate n (-1), tj_low = replicate n 0, tj_onStack = replicate n False, tj_stack = [],
     tj_out = [], tj_next = 0, tj_call = []\<rparr>"

lemma tarjan_inv_start: "tarjan_inv n succs (tarjan_start n)"
  by (simp add: tarjan_inv_def order_inv_def reach_inv_def low_inv_def out_inv_def frames_def tarjan_start_def
      closed_under_def)

lemma tarjan_run:
  assumes ok: "graph_ok n succs"
  obtains comps where "tarjan n succs = Some comps" "\<forall>c \<in> set comps. is_scc succs (set c) \<and> sorted c"
    "distinct (concat comps)" "set (concat comps) = {..<n}"
    "\<forall>k \<le> length comps. closed_under succs (set (concat (take k comps)))"
proof -
  obtain t where t: "tarjan_roots succs [0..<n] (tarjan_start n) = Some t" "tarjan_inv n succs t" "tj_call t = []"
      "\<forall>v < n. idx t v \<noteq> -1"
    using tarjan_roots_ok [OF ok tarjan_inv_start, of "[0..<n]"] by (auto simp: tarjan_start_def)
  have "set (tj_stack t) = {}"
    using t(2,3) reach_invD(3) [of n succs t] by (fastforce simp: tarjan_inv_def frames_def)
  then have "set (concat (tj_out t)) = {..<n}" using t(2,4) by (auto simp: tarjan_inv_def out_inv_def)
  moreover have "tarjan n succs = Some (tj_out t)" using t(1) by (simp add: tarjan_def tarjan_start_def)
  ultimately show thesis using that [of "tj_out t"] t(2) by (simp add: tarjan_inv_def out_inv_def)
qed

lemma is_scc_unique:
  assumes "is_scc succs c" "is_scc succs d" "x \<in> c" "x \<in> d"
  shows "c = d"
proof -
  have eq: "a = {w. (x, w) \<in> (edges succs)\<^sup>* \<and> (w, x) \<in> (edges succs)\<^sup>*}" if "is_scc succs a" "x \<in> a" for a
    using that unfolding is_scc_def by (auto intro: rtrancl_trans)
  show ?thesis using eq [OF assms(1,3)] eq [OF assms(2,4)] by simp
qed

lemma tarjan_ends: "graph_ok n succs \<Longrightarrow> \<exists>comps. tarjan n succs = Some comps"
  using tarjan_run by metis

lemma tarjan_facts:
  assumes ok: "graph_ok n succs" and t: "tarjan n succs = Some comps"
  shows "set ` set comps = {c. is_scc succs c}" "distinct (concat comps)" "set (concat comps) = {..<n}"
    "\<And>c. c \<in> set comps \<Longrightarrow> c \<noteq> [] \<and> sorted c \<and> is_scc succs (set c) \<and> set c \<subseteq> {..<n}"
    "\<And>i j v w. i < length comps \<Longrightarrow> j < length comps \<Longrightarrow> v \<in> set (comps ! i) \<Longrightarrow> w \<in> set (comps ! j) \<Longrightarrow>
      (v, w) \<in> edges succs \<Longrightarrow> j \<le> i"
proof -
  have c: "\<forall>c \<in> set comps. is_scc succs (set c) \<and> sorted c" "distinct (concat comps)" "set (concat comps) = {..<n}"
    "\<forall>k \<le> length comps. closed_under succs (set (concat (take k comps)))"
    using tarjan_run [OF ok] t by (metis option.inject)+
  show "distinct (concat comps)" "set (concat comps) = {..<n}" using c by simp_all
  have "\<exists>c \<in> set comps. set c = d" if "is_scc succs d" for d
  proof -
    obtain v where "v \<in> d" "v < n" using \<open>is_scc succs d\<close> ok by (auto simp: is_scc_def graph_ok_def)
    moreover from this obtain c where "c \<in> set comps" "v \<in> set c" using c(3) by auto
    ultimately show ?thesis using is_scc_unique [OF _ that] c(1) by blast
  qed
  then show "set ` set comps = {c. is_scc succs c}" using c(1) by auto
  show "c \<noteq> [] \<and> sorted c \<and> is_scc succs (set c) \<and> set c \<subseteq> {..<n}" if "c \<in> set comps" for c
    using c(1,3) that by (auto simp: is_scc_def)
  show "j \<le> i"
    if "i < length comps" "j < length comps" "v \<in> set (comps ! i)" "w \<in> set (comps ! j)" "(v, w) \<in> edges succs" for i j v w
  proof (rule ccontr)
    assume "\<not> j \<le> i"
    have "closed_under succs (set (concat (take (Suc i) comps)))" using c(4) that(1) by simp
    moreover have "v \<in> set (concat (take (Suc i) comps))" using that(1,3) by (auto simp: take_Suc_conv_app_nth)
    ultimately have "w \<in> set (concat (take (Suc i) comps))" using that(5) unfolding closed_under_def by blast
    moreover have "drop (Suc i) comps ! (j - Suc i) \<in> set (drop (Suc i) comps)"
      by (rule nth_mem) (use that(2) \<open>\<not> j \<le> i\<close> in simp)
    then have "comps ! j \<in> set (drop (Suc i) comps)" using that(1) \<open>\<not> j \<le> i\<close> by simp
    then have "w \<in> set (concat (drop (Suc i) comps))" using that(4) by auto
    moreover have "distinct (concat (take (Suc i) comps) @ concat (drop (Suc i) comps))"
      using c(2) by (metis append_take_drop_id concat_append)
    ultimately show False unfolding distinct_append by blast
  qed
qed

text \<open>
  C4. The components of the loop graph are found, all of them and in order. On every graph whose
  successor lists name its own nodes the iterative search ends and returns exactly the strongly connected
  components, each once and with its members ascending; every node is in one; and an edge
  never leads to a component that comes later, so the list is in reverse topological order.
\<close>

theorem tarjan_exact:
  assumes ok: "graph_ok n succs"
  shows "\<exists>comps. tarjan n succs = Some comps \<and>
    set ` set comps = {c. is_scc succs c} \<and> distinct (concat comps) \<and> set (concat comps) = {..<n} \<and>
    (\<forall>c \<in> set comps. c \<noteq> [] \<and> sorted c) \<and>
    (\<forall>i < length comps. \<forall>j < length comps. \<forall>v \<in> set (comps ! i). \<forall>w \<in> set (comps ! j).
       (v, w) \<in> edges succs \<longrightarrow> j \<le> i)"
proof -
  obtain comps where t: "tarjan n succs = Some comps" using tarjan_ends [OF ok] by blast
  note f = tarjan_facts [OF ok t]
  have "\<forall>c \<in> set comps. c \<noteq> [] \<and> sorted c" using f(4) by blast
  moreover have "\<forall>i < length comps. \<forall>j < length comps. \<forall>v \<in> set (comps ! i). \<forall>w \<in> set (comps ! j).
       (v, w) \<in> edges succs \<longrightarrow> j \<le> i" using f(5) by blast
  ultimately show ?thesis using t f(1,2,3) by (intro exI [of _ comps]) simp
qed

theorem tarjan_exact_witness:
  "\<exists>comps. tarjan 4 [[1], [2, 0], [3], []] = Some comps \<and> set ` set comps = {c. is_scc [[1], [2, 0], [3], []] c} \<and>
     comps = [[3], [2], [0, 1]]"
proof -
  have "graph_ok 4 [[1], [2, 0], [3], []]" by (simp add: graph_ok_def)
  moreover have "tarjan 4 [[1], [2, 0], [3], []] = Some [[3], [2], [0, 1]]" by code_simp
  ultimately show ?thesis using tarjan_exact [of 4 "[[1], [2, 0], [3], []]"] by auto
qed

end
