(* ===== verification/LoopCover.thy ===== *)
theory LoopCover
  imports Tarjan
begin

text \<open>
  The rest of component/automations/loop_graph_scc.go: the strata of the loop graph, and whether every
  cycle of a component passes an automation with a @loop. Nodes are the automations' indices;
  successor lists are those BuildLoopGraph (loop_graph.go) collected.
\<close>

section \<open>Definitions\<close>

definition hasSelfEdge :: "nat list list \<Rightarrow> nat \<Rightarrow> bool" where
  "hasSelfEdge succs v = list_ex (\<lambda>w. w = v) (succs ! v)"

text \<open>The component of each node, as BuildLoopGraph fills it in.\<close>

definition componentOf :: "nat \<Rightarrow> nat list list \<Rightarrow> nat list" where
  "componentOf n comps =
     foldl (\<lambda>cmp c. foldl (\<lambda>cmp m. cmp[m := c]) cmp (comps ! c)) (replicate n 0) [0..<length comps]"

definition raiseLevel :: "nat \<Rightarrow> int list \<Rightarrow> nat \<Rightarrow> int list" where
  "raiseLevel c level d = (if d \<noteq> c \<and> level ! d < level ! c + 1 then level[d := level ! c + 1] else level)"

definition strata :: "nat list list \<Rightarrow> nat list \<Rightarrow> nat list list \<Rightarrow> int list" where
  "strata comps cmp succs =
     (let level = foldl (\<lambda>level c. foldl (\<lambda>level v. foldl (\<lambda>level w. raiseLevel c level (cmp ! w)) level (succs ! v))
                                     level (comps ! c))
                    (replicate (length comps) 0) (rev [0..<length comps])
      in map (\<lambda>c. level ! c) cmp)"

definition localNodes :: "nat list \<Rightarrow> (nat \<Rightarrow> bool) \<Rightarrow> (nat \<Rightarrow> nat option) \<times> nat list" where
  "localNodes members isLoop =
     foldl (\<lambda>(loc, keep) m. if \<not> isLoop m then (loc(m \<mapsto> length keep), keep @ [m]) else (loc, keep))
       (Map.empty, []) members"

definition subgraph :: "(nat \<Rightarrow> nat option) \<Rightarrow> nat list \<Rightarrow> nat list list \<Rightarrow> nat list list" where
  "subgraph loc keep succs = map (\<lambda>v. List.map_filter loc (succs ! v)) keep"

definition holdsCycle :: "nat list list \<Rightarrow> nat list \<Rightarrow> bool" where
  "holdsCycle succs members \<longleftrightarrow> length members > 1 \<or> hasSelfEdge succs (members ! 0)"

definition covered :: "nat list \<Rightarrow> nat list list \<Rightarrow> (nat \<Rightarrow> bool) \<Rightarrow> bool option" where
  "covered members succs isLoop =
     (let (loc, keep) = localNodes members isLoop; sub = subgraph loc keep succs
      in case tarjan (length keep) sub of
           None \<Rightarrow> None
         | Some comps \<Rightarrow> Some (\<not> list_ex (holdsCycle sub) comps))"

section \<open>Components and strata\<close>

lemma assign_all:
  "length (foldl (\<lambda>cmp m. cmp[m := c]) cmp ms) = length cmp"
  "x < length cmp \<Longrightarrow> foldl (\<lambda>cmp m. cmp[m := c]) cmp ms ! x = (if x \<in> set ms then c else cmp ! x)"
proof -
  show len: "length (foldl (\<lambda>cmp m. cmp[m := c]) cmp ms) = length cmp" by (induction ms arbitrary: cmp) simp_all
  show "x < length cmp \<Longrightarrow> foldl (\<lambda>cmp m. cmp[m := c]) cmp ms ! x = (if x \<in> set ms then c else cmp ! x)"
    by (induction ms arbitrary: cmp) (auto simp: nth_list_update)
qed

lemma concat_nth_disjoint:
  "distinct (concat xss) \<Longrightarrow> i < j \<Longrightarrow> j < length xss \<Longrightarrow> set (xss ! i) \<inter> set (xss ! j) = {}"
proof (induction xss arbitrary: i j)
  case (Cons xs xss)
  then obtain k where k: "j = Suc k" "k < length xss" by (cases j) auto
  have "set (xss ! k) \<subseteq> \<Union> (set ` set xss)" using nth_mem [OF k(2)] by blast
  then show ?case using Cons.prems Cons.IH [of _ k] k by (cases i) fastforce+
qed simp

lemma componentOf_nth:
  assumes "distinct (concat comps)" "\<forall>c \<in> set comps. \<forall>m \<in> set c. m < n"
  shows "length (componentOf n comps) = n \<and> (\<forall>c < length comps. \<forall>x \<in> set (comps ! c). componentOf n comps ! x = c)"
proof -
  let ?f = "\<lambda>cmp c. foldl (\<lambda>cmp m. cmp[m := c]) cmp (comps ! c)"
  have sep: "x \<notin> set (comps ! d)" if "c < length comps" "d < length comps" "x \<in> set (comps ! c)" "c \<noteq> d" for c d x
    using concat_nth_disjoint [OF assms(1), of c d] concat_nth_disjoint [OF assms(1), of d c] that by (cases "c < d") auto
  have "k \<le> length comps \<Longrightarrow> length (foldl ?f (replicate n 0) [0..<k]) = n \<and>
      (\<forall>c < k. \<forall>x \<in> set (comps ! c). foldl ?f (replicate n 0) [0..<k] ! x = c)" for k
  proof (induction k)
    case (Suc k)
    let ?g = "foldl ?f (replicate n 0) [0..<k]"
    have len: "length ?g = n" using Suc by simp
    have "(?f ?g k) ! x = c" if "c < Suc k" "x \<in> set (comps ! c)" for c x
    proof -
      have c: "c < length comps" using that(1) Suc.prems by simp
      then have "x < n" using that(2) assms(2) nth_mem by blast
      then have step: "(?f ?g k) ! x = (if x \<in> set (comps ! k) then k else ?g ! x)"
        using assign_all(2) [of x ?g k "comps ! k"] len by simp
      show ?thesis
      proof (cases "c = k")
        case False
        then have "x \<notin> set (comps ! k)" "?g ! x = c" using sep [OF c _ that(2)] Suc that by auto
        then show ?thesis using step by simp
      qed (use step that in simp)
    qed
    moreover have "length (?f ?g k) = n" unfolding assign_all(1) by (rule len)
    ultimately show ?case by simp
  qed simp
  then show ?thesis unfolding componentOf_def by blast
qed

lemma foldl_nested: "foldl (\<lambda>l v. foldl f l (g v)) l vs = foldl f l (concat (map g vs))"
  by (induction vs arbitrary: l) simp_all

lemma raise_all:
  assumes "c < length level" "\<forall>d \<in> set ds. d < length level"
  shows "length (foldl (raiseLevel c) level ds) = length level"
    "e < length level \<Longrightarrow> foldl (raiseLevel c) level ds ! e =
       (if e \<in> set ds \<and> e \<noteq> c then max (level ! e) (level ! c + 1) else level ! e)"
proof -
  have "length (foldl (raiseLevel c) level ds) = length level \<and>
    (\<forall>e < length level. foldl (raiseLevel c) level ds ! e =
       (if e \<in> set ds \<and> e \<noteq> c then max (level ! e) (level ! c + 1) else level ! e))"
    using assms
  proof (induction ds arbitrary: level)
    case (Cons d ds)
    let ?l = "raiseLevel c level d"
    have len: "length ?l = length level" by (simp add: raiseLevel_def)
    have one: "?l ! e = (if e = d \<and> e \<noteq> c then max (level ! e) (level ! c + 1) else level ! e)" if "e < length level" for e
      using that Cons.prems by (auto simp: raiseLevel_def nth_list_update)
    show ?case using Cons.IH [of ?l] Cons.prems len one by auto
  qed simp
  then show "length (foldl (raiseLevel c) level ds) = length level"
    "e < length level \<Longrightarrow> foldl (raiseLevel c) level ds ! e =
       (if e \<in> set ds \<and> e \<noteq> c then max (level ! e) (level ! c + 1) else level ! e)" by blast+
qed

text \<open>The components the edges of one component lead to, and the levels once the components from \<open>k\<close> up are done.\<close>

definition targets :: "nat list list \<Rightarrow> nat list \<Rightarrow> nat list list \<Rightarrow> nat \<Rightarrow> nat list" where
  "targets comps cmp succs c = map ((!) cmp) (concat (map ((!) succs) (comps ! c)))"

definition levels :: "nat list list \<Rightarrow> nat list \<Rightarrow> nat list list \<Rightarrow> nat \<Rightarrow> int list" where
  "levels comps cmp succs k =
     foldl (\<lambda>level c. foldl (raiseLevel c) level (targets comps cmp succs c)) (replicate (length comps) 0) (rev [k..<length comps])"

lemma strata_levels: "strata comps cmp succs = map (\<lambda>c. levels comps cmp succs 0 ! c) cmp"
  unfolding strata_def levels_def targets_def Let_def foldl_nested
  by (simp add: foldl_map)

lemma levels_ok:
  assumes "\<And>c d. c < length comps \<Longrightarrow> d \<in> set (targets comps cmp succs c) \<Longrightarrow> d \<le> c" and "k \<le> length comps"
  defines "l \<equiv> levels comps cmp succs k"
  shows "length l = length comps \<and>
    (\<forall>x. k \<le> x \<longrightarrow> x < length comps \<longrightarrow> (\<forall>d \<in> set (targets comps cmp succs x) - {x}. l ! x + 1 \<le> l ! d)) \<and>
    (\<forall>d < length comps. l ! d = 0 \<or>
      (\<exists>x. k \<le> x \<and> x < length comps \<and> d \<in> set (targets comps cmp succs x) - {x} \<and> l ! d = l ! x + 1))"
  using assms(2) unfolding l_def
proof (induction rule: inc_induct)
  case base
  then show ?case by (simp add: levels_def)
next
  case (step c)
  let ?t = "\<lambda>x. set (targets comps cmp succs x)" and ?l = "levels comps cmp succs (Suc c)"
  have eq: "levels comps cmp succs c = foldl (raiseLevel c) ?l (targets comps cmp succs c)" (is "?m = _")
    using step.hyps by (simp add: levels_def upt_conv_Cons)
  have len: "length ?l = length comps" using step.IH by blast
  have low: "\<forall>d \<in> ?t c. d < length ?l" using assms(1) step.hyps len by fastforce
  have c: "c < length ?l" using step.hyps len by simp
  have m: "?m ! e = (if e \<in> ?t c \<and> e \<noteq> c then max (?l ! e) (?l ! c + 1) else ?l ! e)" if "e < length comps" for e
    unfolding eq using raise_all(2) [OF c low, of e] that len by simp
  have lenm: "length ?m = length comps" unfolding eq using raise_all(1) [OF c low] len by simp
  have same: "?m ! x = ?l ! x" if "c \<le> x" "x < length comps" for x
    using m [OF that(2)] assms(1) [of c x] that step.hyps by auto
  have ge: "?l ! e \<le> ?m ! e" if "e < length comps" for e using m [OF that] by auto
  have in_range: "d < length comps" if "x < length comps" "d \<in> ?t x" for x d
    using assms(1) [OF that] that(1) by simp
  have "?m ! x + 1 \<le> ?m ! d" if "c \<le> x" "x < length comps" "d \<in> ?t x - {x}" for x d
  proof (cases "x = c")
    case True
    then show ?thesis using m [of d] same [of c] in_range [of x d] that by auto
  next
    case False
    then have "?l ! x + 1 \<le> ?l ! d" using step.IH that by auto
    then show ?thesis using same [of x] ge [of d] in_range [of x d] that by fastforce
  qed
  moreover have "?m ! d = 0 \<or> (\<exists>x. c \<le> x \<and> x < length comps \<and> d \<in> ?t x - {x} \<and> ?m ! d = ?m ! x + 1)"
    if d: "d < length comps" for d
  proof (cases "?m ! d = ?l ! d")
    case True
    then show ?thesis using step.IH d same by (metis Suc_leD)
  next
    case False
    then have "d \<in> ?t c - {c}" "?m ! d = ?l ! c + 1" using m [OF d] by (auto split: if_splits)
    then show ?thesis using same [of c] step.hyps by auto
  qed
  ultimately show ?case using lenm by blast
qed

lemma component_members:
  assumes ok: "graph_ok n succs" and t: "tarjan n succs = Some comps" and v: "v < n"
  shows "componentOf n comps ! v < length comps" "v \<in> set (comps ! (componentOf n comps ! v))"
    "length (componentOf n comps) = n"
proof -
  note f = tarjan_facts [OF ok t]
  have c: "length (componentOf n comps) = n \<and> (\<forall>c < length comps. \<forall>x \<in> set (comps ! c). componentOf n comps ! x = c)"
    by (rule componentOf_nth) (use f(2,4) in auto)
  obtain i where "i < length comps" "v \<in> set (comps ! i)"
    using f(3) v by (metis lessThan_iff set_concat UN_iff in_set_conv_nth)
  then show "componentOf n comps ! v < length comps" "v \<in> set (comps ! (componentOf n comps ! v))" using c by auto
  show "length (componentOf n comps) = n" using c by simp
qed

lemma same_component:
  assumes ok: "graph_ok n succs" and t: "tarjan n succs = Some comps" and v: "v < n" "w < n"
  shows "componentOf n comps ! v = componentOf n comps ! w \<longleftrightarrow> (v, w) \<in> (edges succs)\<^sup>* \<and> (w, v) \<in> (edges succs)\<^sup>*"
proof -
  let ?c = "\<lambda>v. comps ! (componentOf n comps ! v)"
  note f = tarjan_facts [OF ok t] and m = component_members [OF ok t]
  have scc: "is_scc succs (set (?c v))" if "v < n" for v using f(4) m(1) [OF that] nth_mem by blast
  have eq: "set (?c v) = {w. (v, w) \<in> (edges succs)\<^sup>* \<and> (w, v) \<in> (edges succs)\<^sup>*}"
    using scc [OF v(1)] m(2) [OF v(1)] unfolding is_scc_def by (auto intro: rtrancl_trans)
  have "componentOf n comps ! v = componentOf n comps ! w \<longleftrightarrow> w \<in> set (?c v)"
  proof
    assume "w \<in> set (?c v)"
    then have "\<not> componentOf n comps ! v < componentOf n comps ! w" "\<not> componentOf n comps ! w < componentOf n comps ! v"
      using concat_nth_disjoint [OF f(2)] m(1,2) v by blast+
    then show "componentOf n comps ! v = componentOf n comps ! w" by simp
  qed (use m(2) [OF v(2)] in simp)
  then show ?thesis using eq by simp
qed

lemma strata_ok:
  assumes ok: "graph_ok n succs" and t: "tarjan n succs = Some comps"
  defines "cmp \<equiv> componentOf n comps"
  defines "s \<equiv> strata comps cmp succs"
  shows "length s = n"
    "\<And>v w. v < n \<Longrightarrow> w < n \<Longrightarrow> cmp ! v = cmp ! w \<Longrightarrow> s ! v = s ! w"
    "\<And>v w. (v, w) \<in> edges succs \<Longrightarrow> cmp ! v \<noteq> cmp ! w \<Longrightarrow> s ! v < s ! w"
    "\<And>w. w < n \<Longrightarrow> s ! w = 0 \<or> (\<exists>v u. (v, u) \<in> edges succs \<and> cmp ! v \<noteq> cmp ! w \<and> cmp ! u = cmp ! w \<and> s ! w = s ! v + 1)"
proof -
  note m = component_members [OF ok t, folded cmp_def] and f = tarjan_facts [OF ok t]
  let ?l = "levels comps cmp succs 0"
  have c: "cmp ! x = c" if "c < length comps" "x \<in> set (comps ! c)" for c x
    using componentOf_nth [of comps n] f(2,4) that unfolding cmp_def by auto
  have e: "v < n \<and> w < n \<and> w \<in> set (succs ! v)" if "(v, w) \<in> edges succs" for v w
    using that ok graph_ok_edge(1) by (auto simp: edges_def graph_ok_def)
  have tg: "d \<in> set (targets comps cmp succs c) \<longleftrightarrow> (\<exists>v \<in> set (comps ! c). \<exists>w. (v, w) \<in> edges succs \<and> d = cmp ! w)"
    if "c < length comps" for c d
  proof -
    have "v < length succs" if "v \<in> set (comps ! c)" for v
      using f(4) [OF nth_mem [OF \<open>c < length comps\<close>]] that ok by (auto simp: graph_ok_def)
    then show ?thesis by (auto simp: targets_def edges_def)
  qed
  have bck: "d \<le> c" if "c < length comps" "d \<in> set (targets comps cmp succs c)" for c d
    using that(2) f(5) [OF that(1)] m(1,2) e unfolding tg [OF that(1)] by blast
  note l = levels_ok [where k = 0, OF bck, simplified]
  have nth: "s ! v = ?l ! (cmp ! v)" if "v < n" for v using that m(3) [OF that] by (simp add: s_def strata_levels)
  have len: "length cmp = n"
    using componentOf_nth [of comps n] f(2,4) unfolding cmp_def by (auto simp: subset_iff)
  show "length s = n" by (simp add: s_def strata_levels len)
  show "s ! v = s ! w" if "v < n" "w < n" "cmp ! v = cmp ! w" for v w using that nth by simp
  show "s ! v < s ! w" if edge: "(v, w) \<in> edges succs" and ne: "cmp ! v \<noteq> cmp ! w" for v w
  proof -
    have "cmp ! w \<in> set (targets comps cmp succs (cmp ! v)) - {cmp ! v}"
      using tg [of "cmp ! v" "cmp ! w"] m(1,2) e [OF edge] edge ne by auto
    then have "?l ! (cmp ! v) + 1 \<le> ?l ! (cmp ! w)" using l m(1) e [OF edge] by blast
    then show ?thesis using nth e [OF edge] by simp
  qed
  show "s ! w = 0 \<or> (\<exists>v u. (v, u) \<in> edges succs \<and> cmp ! v \<noteq> cmp ! w \<and> cmp ! u = cmp ! w \<and> s ! w = s ! v + 1)"
    if w: "w < n" for w
  proof (cases "?l ! (cmp ! w) = 0")
    case False
    then obtain x where x: "x < length comps" "cmp ! w \<in> set (targets comps cmp succs x) - {x}"
        "?l ! (cmp ! w) = ?l ! x + 1"
      using l m(1) [OF w] by blast
    then obtain v u where v: "v \<in> set (comps ! x)" "(v, u) \<in> edges succs" "cmp ! w = cmp ! u" using tg by auto
    have "cmp ! v = x" "v < n" using c [OF x(1) v(1)] e [OF v(2)] by auto
    then show ?thesis using v x w nth by (intro disjI2 exI [of _ v] exI [of _ u]) auto
  qed (use nth [OF w] in simp)
qed

section \<open>Cycles and cover\<close>

lemma holdsCycle_some:
  assumes ok: "graph_ok n succs" and t: "tarjan n succs = Some comps" and c: "c \<in> set comps" "holdsCycle succs c"
  shows "\<exists>v \<in> set c. (v, v) \<in> (edges succs)\<^sup>+"
proof -
  note f = tarjan_facts [OF ok t]
  have ne: "c \<noteq> []" "is_scc succs (set c)" "distinct c" "set c \<subseteq> {..<n}"
    using f(4) [OF c(1)] f(2) c(1) by (auto simp: distinct_concat_iff)
  have reach: "(v, w) \<in> (edges succs)\<^sup>*" if "v \<in> set c" "w \<in> set c" for v w
    using ne(2) that unfolding is_scc_def by (auto intro: rtrancl_trans)
  show ?thesis
  proof (cases "length c > 1")
    case True
    have len: "0 < length c" "1 < length c" using True ne(1) by simp_all
    have "c ! 0 \<noteq> c ! 1" using ne(3) len by (metis nth_eq_iff_index_eq zero_neq_one)
    moreover have "c ! 0 \<in> set c" "c ! 1 \<in> set c" using len by (metis nth_mem)+
    ultimately have "(c ! 0, c ! 0) \<in> (edges succs)\<^sup>+"
      using reach by (metis rtrancl_eq_or_trancl trancl_trans)
    then show ?thesis using \<open>c ! 0 \<in> set c\<close> by blast
  next
    case False
    have "c ! 0 \<in> set c" using ne(1) by (cases c) auto
    moreover have "(c ! 0, c ! 0) \<in> edges succs"
      using c(2) False calculation ne(4) ok by (auto simp: holdsCycle_def hasSelfEdge_def list_ex_iff edges_def graph_ok_def)
    ultimately show ?thesis by blast
  qed
qed

lemma holdsCycle_find:
  assumes ok: "graph_ok n succs" and t: "tarjan n succs = Some comps" and v: "(v, v) \<in> (edges succs)\<^sup>+"
    and c: "c \<in> set comps" "v \<in> set c"
  shows "holdsCycle succs c"
proof -
  note f = tarjan_facts [OF ok t]
  obtain w where w: "(v, w) \<in> edges succs" "(w, v) \<in> (edges succs)\<^sup>*" using v by (meson tranclD)
  have "w \<in> set c" using f(4) [OF c(1)] c(2) w unfolding is_scc_def by (auto intro: rtrancl_trans r_into_rtrancl)
  show ?thesis
  proof (cases "length c > 1")
    case False
    then have "c = [v]" using c(2) by (cases c) auto
    then have "w = v" using \<open>w \<in> set c\<close> by simp
    then show ?thesis using \<open>c = [v]\<close> w(1) by (auto simp: holdsCycle_def hasSelfEdge_def list_ex_iff edges_def)
  qed (simp add: holdsCycle_def)
qed

lemma cyclic_iff:
  assumes ok: "graph_ok n succs" and t: "tarjan n succs = Some comps"
  shows "list_ex (holdsCycle succs) comps \<longleftrightarrow> (\<exists>v. (v, v) \<in> (edges succs)\<^sup>+)"
proof
  assume "\<exists>v. (v, v) \<in> (edges succs)\<^sup>+"
  then obtain v where v: "(v, v) \<in> (edges succs)\<^sup>+" ..
  then have "v \<in> {..<n}" using edges_in_range [OF ok] by (meson lessThan_iff tranclD)
  then obtain c where "c \<in> set comps" "v \<in> set c" using tarjan_facts(3) [OF ok t] by auto
  then show "list_ex (holdsCycle succs) comps" using holdsCycle_find [OF ok t v] by (auto simp: list_ex_iff)
qed (use holdsCycle_some [OF ok t] in \<open>auto simp: list_ex_iff\<close>)

lemma localNodes_exact:
  assumes "distinct members"
  shows "snd (localNodes members isLoop) = filter (\<lambda>m. \<not> isLoop m) members"
    "fst (localNodes members isLoop) w = Some j \<longleftrightarrow>
       j < length (filter (\<lambda>m. \<not> isLoop m) members) \<and> filter (\<lambda>m. \<not> isLoop m) members ! j = w"
proof -
  have "snd (localNodes members isLoop) = filter (\<lambda>m. \<not> isLoop m) members \<and>
    (\<forall>w j. fst (localNodes members isLoop) w = Some j \<longleftrightarrow>
       j < length (filter (\<lambda>m. \<not> isLoop m) members) \<and> filter (\<lambda>m. \<not> isLoop m) members ! j = w)"
    using assms
  proof (induction members rule: rev_induct)
    case (snoc m ms)
    let ?k = "filter (\<lambda>m. \<not> isLoop m) ms"
    obtain loc keep where lk: "localNodes ms isLoop = (loc, keep)" by fastforce
    have IH: "keep = ?k" "\<forall>w j. loc w = Some j \<longleftrightarrow> j < length ?k \<and> ?k ! j = w" using snoc lk by auto
    have step: "localNodes (ms @ [m]) isLoop = (if \<not> isLoop m then (loc(m \<mapsto> length keep), keep @ [m]) else (loc, keep))"
      using lk by (simp add: localNodes_def)
    have "m \<notin> set ?k" using snoc.prems by simp
    then have "\<forall>j < length ?k. ?k ! j \<noteq> m" by (metis nth_mem)
    then show ?case using IH step by (auto simp: nth_append less_Suc_eq)
  qed (simp add: localNodes_def)
  then show "snd (localNodes members isLoop) = filter (\<lambda>m. \<not> isLoop m) members"
    "fst (localNodes members isLoop) w = Some j \<longleftrightarrow>
       j < length (filter (\<lambda>m. \<not> isLoop m) members) \<and> filter (\<lambda>m. \<not> isLoop m) members ! j = w" by blast+
qed

text \<open>The graph restricted to a set of nodes.\<close>

definition within_nodes :: "nat list list \<Rightarrow> nat set \<Rightarrow> (nat \<times> nat) set" where
  "within_nodes succs k = edges succs \<inter> k \<times> k"

lemma set_map_filter: "j \<in> set (List.map_filter f ws) \<longleftrightarrow> (\<exists>w \<in> set ws. f w = Some j)"
  by (induction ws) (auto simp: List.map_filter_simps split: option.splits)

lemma subgraph_edges:
  fixes isLoop :: "nat \<Rightarrow> bool"
  assumes "distinct members" "set members \<subseteq> {..<n}" "graph_ok n succs"
  defines "keep \<equiv> filter (\<lambda>m. \<not> isLoop m) members"
  shows "(i, j) \<in> edges (subgraph (fst (localNodes members isLoop)) keep succs) \<longleftrightarrow>
      i < length keep \<and> j < length keep \<and> (keep ! i, keep ! j) \<in> edges succs"
    "graph_ok (length keep) (subgraph (fst (localNodes members isLoop)) keep succs)"
proof -
  note loc = localNodes_exact(2) [OF assms(1), of isLoop, folded keep_def]
  have e: "(i, j) \<in> edges (subgraph (fst (localNodes members isLoop)) keep succs) \<longleftrightarrow>
      i < length keep \<and> j < length keep \<and> (keep ! i, keep ! j) \<in> edges succs" for i j
  proof -
    have "i < length keep \<Longrightarrow> keep ! i < length succs"
      using assms nth_mem [of i keep] by (auto simp: keep_def graph_ok_def)
    moreover have "j \<in> set (List.map_filter (fst (localNodes members isLoop)) ws) \<longleftrightarrow> j < length keep \<and> keep ! j \<in> set ws" for ws
      unfolding set_map_filter loc by blast
    ultimately show ?thesis by (auto simp: edges_def subgraph_def)
  qed
  show "(i, j) \<in> edges (subgraph (fst (localNodes members isLoop)) keep succs) \<longleftrightarrow>
      i < length keep \<and> j < length keep \<and> (keep ! i, keep ! j) \<in> edges succs" by (rule e)
  show "graph_ok (length keep) (subgraph (fst (localNodes members isLoop)) keep succs)"
    by (auto simp: graph_ok_def subgraph_def set_map_filter loc)
qed

lemma nth_trancl:
  assumes "\<And>i j. (i, j) \<in> s \<longleftrightarrow> i < length xs \<and> j < length xs \<and> (xs ! i, xs ! j) \<in> r" and dist: "distinct xs"
  shows "(\<exists>i. (i, i) \<in> s\<^sup>+) \<longleftrightarrow> (\<exists>v. (v, v) \<in> (r \<inter> set xs \<times> set xs)\<^sup>+)"
proof
  assume "\<exists>i. (i, i) \<in> s\<^sup>+"
  then obtain i where i: "(i, i) \<in> s\<^sup>+" ..
  have "(xs ! i, xs ! j) \<in> (r \<inter> set xs \<times> set xs)\<^sup>+" if "(i, j) \<in> s\<^sup>+" for j
    using that by (induction rule: trancl_induct) (auto simp: assms(1) intro: trancl_into_trancl)
  then show "\<exists>v. (v, v) \<in> (r \<inter> set xs \<times> set xs)\<^sup>+" using i by blast
next
  assume "\<exists>v. (v, v) \<in> (r \<inter> set xs \<times> set xs)\<^sup>+"
  then obtain v where v: "(v, v) \<in> (r \<inter> set xs \<times> set xs)\<^sup>+" ..
  then have "v \<in> set xs" by (meson IntD2 mem_Sigma_iff tranclD)
  then obtain i where i: "i < length xs" "xs ! i = v" by (auto simp: in_set_conv_nth)
  have "\<exists>j < length xs. xs ! j = w \<and> (i, j) \<in> s\<^sup>+" if "(v, w) \<in> (r \<inter> set xs \<times> set xs)\<^sup>+" for w
    using that
  proof (induction rule: trancl_induct)
    case (base w)
    then obtain j where "j < length xs" "xs ! j = w" by (auto simp: in_set_conv_nth)
    then show ?case using base i assms(1) [of i j] by blast
  next
    case (step w u)
    then obtain j k where "j < length xs" "xs ! j = w" "(i, j) \<in> s\<^sup>+" "k < length xs" "xs ! k = u"
      by (auto simp: in_set_conv_nth)
    then show ?case using step(2) assms(1) [of j k] by (auto intro: trancl_into_trancl)
  qed
  then obtain j where "j < length xs" "xs ! j = v" "(i, j) \<in> s\<^sup>+" using v by blast
  then show "\<exists>i. (i, i) \<in> s\<^sup>+" using i dist by (metis nth_eq_iff_index_eq)
qed

lemma covered_run:
  assumes ok: "graph_ok n succs" and "distinct members" "set members \<subseteq> {..<n}"
  shows "covered members succs isLoop =
    Some (\<not> (\<exists>v. (v, v) \<in> (within_nodes succs {m \<in> set members. \<not> isLoop m})\<^sup>+))"
proof -
  define keep where "keep = filter (\<lambda>m. \<not> isLoop m) members"
  define sub where "sub = subgraph (fst (localNodes members isLoop)) keep succs"
  note e = subgraph_edges [OF assms(2,3) ok, where isLoop = isLoop, folded keep_def, folded sub_def]
  obtain comps where t: "tarjan (length keep) sub = Some comps" using tarjan_ends [OF e(2)] by blast
  have "list_ex (holdsCycle sub) comps \<longleftrightarrow> (\<exists>v. (v, v) \<in> (edges sub)\<^sup>+)" by (rule cyclic_iff [OF e(2) t])
  also have "\<dots> \<longleftrightarrow> (\<exists>v. (v, v) \<in> (within_nodes succs (set keep))\<^sup>+)"
    unfolding within_nodes_def using assms(2) by (intro nth_trancl e(1)) (simp add: keep_def)
  finally show ?thesis
    using t localNodes_exact(1) [OF assms(2), of isLoop]
    by (simp add: covered_def Let_def case_prod_beta keep_def sub_def)
qed

section \<open>Properties\<close>

text \<open>
  The strata layer the automations. On the components the search returns, nodes that reach each
  other share a stratum; every other edge leads to a strictly higher stratum; and a stratum is no
  higher than it must be: it is zero, or one more than that of a node outside the component with an edge
  into it.
\<close>

theorem strata_exact:
  assumes ok: "graph_ok n succs" and t: "tarjan n succs = Some comps"
  defines "s \<equiv> strata comps (componentOf n comps) succs"
    and "same \<equiv> \<lambda>v w. (v, w) \<in> (edges succs)\<^sup>* \<and> (w, v) \<in> (edges succs)\<^sup>*"
  shows "length s = n \<and> (\<forall>v < n. \<forall>w < n. same v w \<longrightarrow> s ! v = s ! w) \<and>
    (\<forall>(v, w) \<in> edges succs. \<not> same v w \<longrightarrow> s ! v < s ! w) \<and>
    (\<forall>w < n. s ! w = 0 \<or> (\<exists>(v, u) \<in> edges succs. same u w \<and> \<not> same v w \<and> s ! w = s ! v + 1))"
proof -
  note st = strata_ok [OF ok t, folded s_def]
  have same: "same v w \<longleftrightarrow> componentOf n comps ! v = componentOf n comps ! w" if "v < n" "w < n" for v w
    using same_component [OF ok t that] by (simp add: same_def)
  note r = edges_in_range [OF ok]
  have "s ! v < s ! w" if "(v, w) \<in> edges succs" "\<not> same v w" for v w
    using st(3) [OF that(1)] same [of v w] r [OF that(1)] that(2) by auto
  moreover have "s ! w = 0 \<or> (\<exists>(v, u) \<in> edges succs. same u w \<and> \<not> same v w \<and> s ! w = s ! v + 1)" if w: "w < n" for w
  proof (cases "s ! w = 0")
    case False
    then obtain v u where "(v, u) \<in> edges succs" "componentOf n comps ! v \<noteq> componentOf n comps ! w"
        "componentOf n comps ! u = componentOf n comps ! w" "s ! w = s ! v + 1"
      using st(4) [OF w] by blast
    then show ?thesis using same [OF _ w] r by (intro disjI2 bexI [of _ "(v, u)"]) auto
  qed simp
  ultimately show ?thesis using st(1,2) same by blast
qed

theorem strata_exact_witness:
  "let g = [[1], [2, 0], [3], []]; s = strata [[3], [2], [0, 1]] (componentOf 4 [[3], [2], [0, 1]]) g
   in s = [0, 0, 1, 2] \<and> length s = 4 \<and> s ! 0 = s ! 1"
proof -
  let ?g = "[[1], [2, 0], [3], []]"
  have s: "strata [[3], [2], [0, 1]] (componentOf 4 [[3], [2], [0, 1]]) ?g = [0, 0, 1, 2]" by code_simp
  have t: "tarjan 4 ?g = Some [[3], [2], [0, 1]]" by code_simp
  have "graph_ok 4 ?g" by (simp add: graph_ok_def)
  note p = strata_exact [OF this t]
  have "(0, 1) \<in> edges ?g" "(1, 0) \<in> edges ?g" by (simp_all add: edges_def)
  then have "(0, 1) \<in> (edges ?g)\<^sup>* \<and> (1, 0) \<in> (edges ?g)\<^sup>*" by blast
  then show ?thesis using p unfolding s Let_def by simp
qed

end
