(* ===== verification/CyclePath.thy ===== *)
theory CyclePath
  imports Tarjan
begin

text \<open>
  The cycle a refusal of the static loop check prints (component/automations/loop_graph_report.go): a
  breadth-first search for the shortest cycle through a node over the nodes allowed, proved to end, to
  find a cycle whenever there is one, and to find no longer one than any other.
\<close>

section \<open>Definitions\<close>

text \<open>
  The search for a shortest cycle. The loop that seeds the queue from the start and the loop over the queue
  look at the successors of a node the same way; both end the search when one is the start.
\<close>

record bfs =
  bf_parent :: "nat \<Rightarrow> nat option"
  bf_queue :: "nat list"
  bf_found :: "nat option"

fun scanSucc :: "nat \<Rightarrow> (nat \<Rightarrow> bool) \<Rightarrow> nat \<Rightarrow> nat list \<Rightarrow> bfs \<Rightarrow> bfs" where
  "scanSucc start allowed v [] s = s"
| "scanSucc start allowed v (w # ws) s =
     (if \<not> allowed w then scanSucc start allowed v ws s
      else if w = start then s\<lparr>bf_found := Some v\<rparr>
      else if bf_parent s w = None then
        scanSucc start allowed v ws (s\<lparr>bf_parent := (bf_parent s)(w \<mapsto> v), bf_queue := bf_queue s @ [w]\<rparr>)
      else scanSucc start allowed v ws s)"

definition bfs_step :: "nat \<Rightarrow> nat list list \<Rightarrow> (nat \<Rightarrow> bool) \<Rightarrow> bfs \<Rightarrow> bfs" where
  "bfs_step start succs allowed s =
     (case bf_queue s of
        [] \<Rightarrow> s
      | v # queue \<Rightarrow> scanSucc start allowed v (succs ! v) (s\<lparr>bf_queue := queue\<rparr>))"

text \<open>A missing key of the parent map reads as the zero node.\<close>

definition walkBack :: "nat \<Rightarrow> (nat \<Rightarrow> nat option) \<Rightarrow> nat \<times> nat list \<Rightarrow> (nat \<times> nat list) option" where
  "walkBack start parent =
     while_option (\<lambda>(x, back). x \<noteq> start) (\<lambda>(x, back). (case parent x of Some y \<Rightarrow> y | None \<Rightarrow> 0, back @ [x]))"

definition shortestCycle :: "nat \<Rightarrow> nat list list \<Rightarrow> (nat \<Rightarrow> bool) \<Rightarrow> nat list option option" where
  "shortestCycle start succs allowed =
     (let s = scanSucc start allowed start (succs ! start) \<lparr>bf_parent = Map.empty, bf_queue = [], bf_found = None\<rparr>
      in case while_option (\<lambda>s. bf_found s = None \<and> bf_queue s \<noteq> []) (bfs_step start succs allowed) s of
           None \<Rightarrow> None
         | Some s \<Rightarrow>
             (case bf_found s of
                None \<Rightarrow> Some None
              | Some v \<Rightarrow>
                  (case walkBack start (bf_parent s) (v, []) of
                     None \<Rightarrow> None
                   | Some (x, back) \<Rightarrow> Some (Some (start # rev back @ [start])))))"

fun firstCycle :: "nat list list \<Rightarrow> (nat \<Rightarrow> bool) \<Rightarrow> nat list \<Rightarrow> nat list option option" where
  "firstCycle succs allowed [] = Some None"
| "firstCycle succs allowed (start # starts) =
     (if \<not> allowed start then firstCycle succs allowed starts
      else case shortestCycle start succs allowed of
             None \<Rightarrow> None
           | Some (Some path) \<Rightarrow> Some (Some path)
           | Some None \<Rightarrow> firstCycle succs allowed starts)"

definition cyclePath :: "nat list \<Rightarrow> nat list list \<Rightarrow> (nat \<Rightarrow> bool) \<Rightarrow> nat list option option" where
  "cyclePath members succs skip = firstCycle succs (\<lambda>w. w \<in> set members \<and> \<not> skip w) members"

section \<open>Closed walks\<close>

definition walk :: "nat list list \<Rightarrow> (nat \<Rightarrow> bool) \<Rightarrow> nat list \<Rightarrow> bool" where
  "walk succs allowed xs \<longleftrightarrow> successively (\<lambda>x y. (x, y) \<in> edges succs) xs \<and> list_all allowed xs"

definition cycle_at :: "nat list list \<Rightarrow> (nat \<Rightarrow> bool) \<Rightarrow> nat \<Rightarrow> nat list \<Rightarrow> bool" where
  "cycle_at succs allowed start xs \<longleftrightarrow> walk succs allowed xs \<and> (\<exists>mid. xs = start # mid @ [start])"

text \<open>A cycle through the start holds one that returns to it only at the end.\<close>

lemma cycle_first_return:
  assumes "cycle_at succs allowed start xs"
  obtains mid where "start \<notin> set mid" "walk succs allowed (start # mid @ [start])" "length mid + 2 \<le> length xs"
proof -
  obtain mid where xs: "xs = start # mid @ [start]" "walk succs allowed xs" using assms by (auto simp: cycle_at_def)
  obtain pre post where p: "mid @ [start] = pre @ start # post" "start \<notin> set pre"
    by (metis in_set_conv_decomp_first list.set_intros(1) set_append Un_iff)
  have eq: "xs = (start # pre @ [start]) @ post" using xs p by simp
  then have "walk succs allowed (start # pre @ [start])" using xs(2) unfolding walk_def
    by (simp add: successively_append_iff del: append_Cons append.simps)
  moreover have "length pre + 2 \<le> length xs" using eq by simp
  ultimately show thesis using that p(2) by blast
qed

section \<open>The search\<close>

text \<open>
  Seen nodes carry their distance \<open>d\<close> along the parents; those that left the queue have had their successors
  seen. The first predicate is that of the chain of parents, the second that of the queue while the successors of \<open>v\<close> are
  being looked at.
\<close>

definition chain_ok :: "nat \<Rightarrow> nat list list \<Rightarrow> (nat \<Rightarrow> bool) \<Rightarrow> (nat \<Rightarrow> nat) \<Rightarrow> bfs \<Rightarrow> bool" where
  "chain_ok start succs allowed d s \<longleftrightarrow>
     d start = 0 \<and> bf_parent s start = None \<and>
     (\<forall>w p. bf_parent s w = Some p \<longrightarrow>
        allowed w \<and> (p = start \<or> bf_parent s p \<noteq> None) \<and> (p, w) \<in> edges succs \<and> d w = d p + 1)"

definition looked :: "nat \<Rightarrow> bfs \<Rightarrow> nat \<Rightarrow> bool" where
  "looked start s p \<longleftrightarrow> (p = start \<or> bf_parent s p \<noteq> None) \<and> p \<notin> set (bf_queue s)"

definition done_ok :: "nat \<Rightarrow> nat list list \<Rightarrow> (nat \<Rightarrow> bool) \<Rightarrow> (nat \<Rightarrow> nat) \<Rightarrow> bfs \<Rightarrow> nat \<Rightarrow> bool" where
  "done_ok start succs allowed d s p \<longleftrightarrow>
     (\<forall>w \<in> set (succs ! p). allowed w \<longrightarrow> w \<noteq> start \<and> bf_parent s w \<noteq> None \<and> d w \<le> d p + 1)"

definition scan_inv :: "nat \<Rightarrow> nat list list \<Rightarrow> (nat \<Rightarrow> bool) \<Rightarrow> (nat \<Rightarrow> nat) \<Rightarrow> nat \<Rightarrow> bfs \<Rightarrow> bool" where
  "scan_inv start succs allowed d v s \<longleftrightarrow>
     chain_ok start succs allowed d s \<and> looked start s v \<and> distinct (bf_queue s) \<and>
     (\<forall>x \<in> set (bf_queue s). bf_parent s x \<noteq> None \<and> d v \<le> d x \<and> d x \<le> d v + 1) \<and>
     sorted (map d (bf_queue s)) \<and>
     (\<forall>p. looked start s p \<longrightarrow> d p \<le> d v) \<and>
     (\<forall>p. looked start s p \<longrightarrow> p \<noteq> v \<longrightarrow> done_ok start succs allowed d s p)"

definition bfs_inv :: "nat \<Rightarrow> nat list list \<Rightarrow> (nat \<Rightarrow> bool) \<Rightarrow> (nat \<Rightarrow> nat) \<Rightarrow> bfs \<Rightarrow> bool" where
  "bfs_inv start succs allowed d s \<longleftrightarrow>
     chain_ok start succs allowed d s \<and> distinct (bf_queue s) \<and>
     (\<forall>x \<in> set (bf_queue s). bf_parent s x \<noteq> None \<and> d x \<le> d (hd (bf_queue s)) + 1) \<and>
     sorted (map d (bf_queue s)) \<and>
     (\<forall>p. looked start s p \<longrightarrow> done_ok start succs allowed d s p) \<and>
     (\<forall>p. looked start s p \<longrightarrow> (\<forall>x \<in> set (bf_queue s). d p \<le> d x))"

lemma chain_okD:
  assumes "chain_ok start succs allowed d s"
  shows "d start = 0" "bf_parent s start = None"
    "\<And>w p. bf_parent s w = Some p \<Longrightarrow> allowed w" "\<And>w p. bf_parent s w = Some p \<Longrightarrow> p = start \<or> bf_parent s p \<noteq> None"
    "\<And>w p. bf_parent s w = Some p \<Longrightarrow> (p, w) \<in> edges succs" "\<And>w p. bf_parent s w = Some p \<Longrightarrow> d w = d p + 1"
  using assms unfolding chain_ok_def by blast+

lemma scan_add:
  assumes inv: "scan_inv start succs allowed d v s" and w: "allowed w" "w \<noteq> start" "bf_parent s w = None" "(v, w) \<in> edges succs"
  shows "scan_inv start succs allowed (d(w := d v + 1)) v
    (s\<lparr>bf_parent := (bf_parent s)(w \<mapsto> v), bf_queue := bf_queue s @ [w]\<rparr>)" (is "scan_inv _ _ _ ?d _ ?s")
proof -
  have v: "looked start s v" and q: "\<forall>x \<in> set (bf_queue s). bf_parent s x \<noteq> None \<and> d v \<le> d x \<and> d x \<le> d v + 1"
    and ch: "chain_ok start succs allowed d s"
    using inv by (simp_all add: scan_inv_def)
  have wv: "w \<noteq> v" using v w by (auto simp: looked_def)
  have wq: "w \<notin> set (bf_queue s)" using q w(3) by blast
  have "allowed u \<and> (p = start \<or> bf_parent ?s p \<noteq> None) \<and> (p, u) \<in> edges succs \<and> ?d u = ?d p + 1"
    if up: "bf_parent ?s u = Some p" for u p
  proof (cases "u = w")
    case False
    then have "bf_parent s u = Some p" using up by simp
    note c = chain_okD(3-6) [OF ch this]
    have "p \<noteq> w" using c(2) w(2,3) by blast
    then show ?thesis using c False by auto
  qed (use up w v wv in \<open>auto simp: looked_def\<close>)
  then have "chain_ok start succs allowed ?d ?s" using chain_okD(1,2) [OF ch] w(2) by (simp add: chain_ok_def)
  moreover have lk: "looked start ?s p \<longleftrightarrow> looked start s p" for p using wq w by (auto simp: looked_def)
  moreover have "done_ok start succs allowed ?d ?s p" if "done_ok start succs allowed d s p" "looked start s p" for p
    using that w by (auto simp: done_ok_def looked_def)
  moreover have "sorted (map ?d (bf_queue s @ [w]))"
  proof -
    have "map ?d (bf_queue s @ [w]) = map d (bf_queue s) @ [d v + 1]" using wq by simp
    moreover have "sorted (map d (bf_queue s) @ [d v + 1])" using inv q by (auto simp: scan_inv_def sorted_append)
    ultimately show ?thesis by (simp only:)
  qed
  moreover have "p \<noteq> w" if "looked start s p" for p using that w by (auto simp: looked_def)
  ultimately show ?thesis using inv q wv wq by (simp add: scan_inv_def)
qed

lemma scan_inv_found: "scan_inv start succs allowed d v (s\<lparr>bf_found := f\<rparr>) = scan_inv start succs allowed d v s"
  by (simp add: scan_inv_def chain_ok_def looked_def done_ok_def)

lemma scan_run:
  assumes "scan_inv start succs allowed d v s" "bf_found s = None" "set ws \<subseteq> set (succs ! v)" "v < length succs"
  defines "s' \<equiv> scanSucc start allowed v ws s"
  obtains d' where "scan_inv start succs allowed d' v s'" "\<And>x. bf_parent s x \<noteq> None \<Longrightarrow> bf_parent s' x \<noteq> None"
    "(bf_found s' = None \<and> (\<forall>w \<in> set ws. allowed w \<longrightarrow> w \<noteq> start \<and> bf_parent s' w \<noteq> None)) \<or>
     (bf_found s' = Some v \<and> start \<in> set ws \<and> allowed start)"
proof -
  have "\<exists>d'. scan_inv start succs allowed d' v s' \<and> (\<forall>x. bf_parent s x \<noteq> None \<longrightarrow> bf_parent s' x \<noteq> None) \<and>
    ((bf_found s' = None \<and> (\<forall>w \<in> set ws. allowed w \<longrightarrow> w \<noteq> start \<and> bf_parent s' w \<noteq> None)) \<or>
     (bf_found s' = Some v \<and> start \<in> set ws \<and> allowed start))"
    using assms(1-3) unfolding s'_def
  proof (induction ws arbitrary: d s)
    case (Cons w ws)
    have sub: "set ws \<subseteq> set (succs ! v)" using Cons.prems(3) by simp
    show ?case
    proof (cases "allowed w \<and> w \<noteq> start \<and> bf_parent s w = None")
      case True
      let ?s = "s\<lparr>bf_parent := (bf_parent s)(w \<mapsto> v), bf_queue := bf_queue s @ [w]\<rparr>"
      have "(v, w) \<in> edges succs" using Cons.prems(3) assms(4) by (simp add: edges_def)
      then have "scan_inv start succs allowed (d(w := d v + 1)) v ?s" using True by (intro scan_add [OF Cons.prems(1)]) auto
      note IH = Cons.IH [OF this _ sub]
      have eq: "scanSucc start allowed v (w # ws) s = scanSucc start allowed v ws ?s" using True by simp
      show ?thesis unfolding eq using IH Cons.prems(2) True by (auto split: if_splits)
    next
      case False
      consider "\<not> allowed w" | "allowed w" "w = start" | "allowed w" "w \<noteq> start" "bf_parent s w \<noteq> None" using False by argo
      then show ?thesis
      proof cases
        case 2
        have "scan_inv start succs allowed d v (s\<lparr>bf_found := Some v\<rparr>)"
          using Cons.prems(1) by (simp only: scan_inv_found)
        moreover have eq: "scanSucc start allowed v (w # ws) s = s\<lparr>bf_found := Some v\<rparr>" using 2 by simp
        ultimately show ?thesis unfolding eq using 2 by (intro exI [of _ d] conjI disjI2 allI impI) simp_all
      next
        case 1
        then have eq: "scanSucc start allowed v (w # ws) s = scanSucc start allowed v ws s" by simp
        show ?thesis unfolding eq using Cons.IH [OF Cons.prems(1,2) sub] 1 by auto
      next
        case 3
        then have eq: "scanSucc start allowed v (w # ws) s = scanSucc start allowed v ws s" by auto
        show ?thesis unfolding eq using Cons.IH [OF Cons.prems(1,2) sub] 3 by auto
      qed
    qed
  qed auto
  then show thesis using that by blast
qed

lemma scan_seen:
  assumes "scan_inv start succs allowed d v s" "bf_parent s w \<noteq> None"
  shows "d w \<le> d v + 1" "w \<noteq> v \<Longrightarrow> looked start s w \<Longrightarrow> done_ok start succs allowed d s w"
proof -
  show "d w \<le> d v + 1"
  proof (cases "w \<in> set (bf_queue s)")
    case False
    then have "looked start s w" using assms(2) by (simp add: looked_def)
    then have "d w \<le> d v" using assms(1) by (simp add: scan_inv_def)
    then show ?thesis by simp
  qed (use assms(1) in \<open>simp add: scan_inv_def\<close>)
  show "w \<noteq> v \<Longrightarrow> looked start s w \<Longrightarrow> done_ok start succs allowed d s w" using assms(1) by (simp add: scan_inv_def)
qed

lemma scan_done:
  assumes inv: "scan_inv start succs allowed d v s"
    and all: "\<forall>w \<in> set (succs ! v). allowed w \<longrightarrow> w \<noteq> start \<and> bf_parent s w \<noteq> None"
  shows "bfs_inv start succs allowed d s"
proof -
  have "done_ok start succs allowed d s v" using all scan_seen(1) [OF inv] by (simp add: done_ok_def)
  then have "\<forall>p. looked start s p \<longrightarrow> done_ok start succs allowed d s p" using inv by (auto simp: scan_inv_def)
  moreover have "d x \<le> d (hd (bf_queue s)) + 1" if "x \<in> set (bf_queue s)" for x
  proof -
    have "hd (bf_queue s) \<in> set (bf_queue s)" using that by (cases "bf_queue s") auto
    then have "d v \<le> d (hd (bf_queue s))" "d x \<le> d v + 1" using inv that by (simp_all add: scan_inv_def)
    then show ?thesis by simp
  qed
  ultimately show ?thesis using inv unfolding bfs_inv_def scan_inv_def by (meson order_trans)
qed

lemma bfs_pop:
  assumes inv: "bfs_inv start succs allowed d s" and q: "bf_queue s = v # q"
  shows "scan_inv start succs allowed d v (s\<lparr>bf_queue := q\<rparr>)"
proof -
  have lk: "looked start (s\<lparr>bf_queue := q\<rparr>) p \<longleftrightarrow> p = v \<or> looked start s p" for p
    using inv q by (auto simp: bfs_inv_def looked_def)
  have "d p \<le> d v" if "looked start s p" for p using inv that q by (simp add: bfs_inv_def)
  then show ?thesis
    using inv q unfolding scan_inv_def lk by (auto simp: bfs_inv_def chain_ok_def done_ok_def)
qed

lemma scan_start:
  "scan_inv start succs allowed (\<lambda>_. 0) start \<lparr>bf_parent = Map.empty, bf_queue = [], bf_found = None\<rparr>"
  by (simp add: scan_inv_def chain_ok_def looked_def)

section \<open>It ends\<close>

definition unseen :: "nat \<Rightarrow> bfs \<Rightarrow> nat" where
  "unseen n s = 2 * card {w. w < n \<and> bf_parent s w = None} + length (bf_queue s)"

lemma unseen_scan:
  assumes "\<forall>w \<in> set ws. w < n"
  shows "unseen n (scanSucc start allowed v ws s) \<le> unseen n s"
  using assms
proof (induction ws arbitrary: s)
  case (Cons w ws)
  show ?case
  proof (cases "allowed w \<and> w \<noteq> start \<and> bf_parent s w = None")
    case True
    let ?s = "s\<lparr>bf_parent := (bf_parent s)(w \<mapsto> v), bf_queue := bf_queue s @ [w]\<rparr>"
    have "{x. x < n \<and> bf_parent ?s x = None} = {x. x < n \<and> bf_parent s x = None} - {w}" by auto
    moreover have "w \<in> {x. x < n \<and> bf_parent s x = None}" using True Cons.prems by simp
    moreover have "finite {x. x < n \<and> bf_parent s x = None}" by simp
    ultimately have "card {x. x < n \<and> bf_parent s x = None} = Suc (card {x. x < n \<and> bf_parent ?s x = None})"
      by (metis card.remove)
    then have "unseen n ?s \<le> unseen n s" by (simp add: unseen_def)
    moreover have "unseen n (scanSucc start allowed v ws ?s) \<le> unseen n ?s" using Cons by simp
    ultimately show ?thesis using True by simp
  next
    case False
    have "unseen n (s\<lparr>bf_found := Some v\<rparr>) = unseen n s" by (simp add: unseen_def)
    then show ?thesis using False Cons by (cases "allowed w"; cases "w = start") auto
  qed
qed simp

lemma bfs_loop:
  fixes allowed :: "nat \<Rightarrow> bool"
  assumes ok: "graph_ok n succs" and st: "start < n"
  defines "s0 \<equiv> scanSucc start allowed start (succs ! start) \<lparr>bf_parent = Map.empty, bf_queue = [], bf_found = None\<rparr>"
  obtains s d v where "while_option (\<lambda>s. bf_found s = None \<and> bf_queue s \<noteq> []) (bfs_step start succs allowed) s0 = Some s"
    "(bf_found s = None \<and> bf_queue s = [] \<and> bfs_inv start succs allowed d s) \<or>
     (bf_found s = Some v \<and> scan_inv start succs allowed d v s \<and> start \<in> set (succs ! v) \<and> allowed start \<and> v < n)"
proof -
  let ?b = "\<lambda>s. bf_found s = None \<and> bf_queue s \<noteq> []"
  let ?P = "\<lambda>s. (bf_found s = None \<and> (\<exists>d. bfs_inv start succs allowed d s)) \<or>
     (\<exists>v d. bf_found s = Some v \<and> scan_inv start succs allowed d v s \<and> start \<in> set (succs ! v) \<and> allowed start \<and> v < n)"
  have scan: "?P (scanSucc start allowed v (succs ! v) s)"
    if "scan_inv start succs allowed d v s" "bf_found s = None" "v < n" for s d v
  proof -
    have "v < length succs" using that(3) ok by (simp add: graph_ok_def)
    from scan_run [OF that(1,2) order_refl this] obtain d' where
      d': "scan_inv start succs allowed d' v (scanSucc start allowed v (succs ! v) s)"
      "(bf_found (scanSucc start allowed v (succs ! v) s) = None \<and>
          (\<forall>w \<in> set (succs ! v). allowed w \<longrightarrow> w \<noteq> start \<and> bf_parent (scanSucc start allowed v (succs ! v) s) w \<noteq> None)) \<or>
       (bf_found (scanSucc start allowed v (succs ! v) s) = Some v \<and> start \<in> set (succs ! v) \<and> allowed start)"
      by metis
    then show ?thesis using scan_done [OF d'(1)] that(3) by blast
  qed
  have init: "?P s0" unfolding s0_def by (rule scan [OF scan_start]) (simp_all add: st)
  have step: "?P (bfs_step start succs allowed s) \<and> unseen n (bfs_step start succs allowed s) < unseen n s"
    if P: "?P s" and b: "?b s" for s
  proof -
    obtain v q where q: "bf_queue s = v # q" using b by (cases "bf_queue s") auto
    obtain d where d: "bfs_inv start succs allowed d s" using P b by auto
    have "bf_parent s v \<noteq> None" using d q by (simp add: bfs_inv_def)
    then have "v < n" using d edges_in_range [OF ok] unfolding bfs_inv_def using chain_okD(5) by fastforce
    moreover have "unseen n (scanSucc start allowed v (succs ! v) (s\<lparr>bf_queue := q\<rparr>)) \<le> unseen n (s\<lparr>bf_queue := q\<rparr>)"
      using graph_ok_edge(1) [OF ok \<open>v < n\<close>] by (intro unseen_scan) blast
    ultimately show ?thesis
      using scan [OF bfs_pop [OF d q]] b q by (simp add: bfs_step_def unseen_def)
  qed
  obtain s where s: "while_option ?b (bfs_step start succs allowed) s0 = Some s"
    using measure_while_option_Some [of ?P ?b "bfs_step start succs allowed" "unseen n" s0] step init by blast
  have "?P s" using while_option_rule [of ?P ?b "bfs_step start succs allowed" s0 s] step init s by blast
  moreover have "bf_found s = None \<Longrightarrow> bf_queue s = []" using while_option_stop [OF s] by blast
  ultimately show thesis using that [OF s] by blast
qed

section \<open>What it finds\<close>

lemma seen_walk:
  assumes "\<And>p. l p \<Longrightarrow> done_ok start succs allowed d s p" "l p" "walk succs allowed (p # mid)"
    and "\<And>x. x \<in> set mid \<Longrightarrow> x \<noteq> start"
  shows "(\<exists>x \<in> set mid. \<not> l x \<and> bf_parent s x \<noteq> None \<and> d x \<le> d p + length mid) \<or> l (last (p # mid))"
  using assms(2-4)
proof (induction mid arbitrary: p)
  case (Cons u us)
  have "u \<in> set (succs ! p)" "allowed u" using Cons.prems(2) by (auto simp: walk_def edges_def)
  then have u: "bf_parent s u \<noteq> None" "d u \<le> d p + 1"
    using assms(1) [OF Cons.prems(1)] by (auto simp: done_ok_def)
  show ?case
  proof (cases "l u")
    case True
    have "walk succs allowed (u # us)" using Cons.prems(2) by (simp add: walk_def)
    from Cons.IH [OF True this] Cons.prems(3)
    have "(\<exists>x \<in> set us. \<not> l x \<and> bf_parent s x \<noteq> None \<and> d x \<le> d u + length us) \<or> l (last (u # us))" by simp
    then show ?thesis using u(2) by auto
  qed (use u in auto)
qed simp

lemma walk_edge:
  assumes "walk succs allowed (xs @ [y])" "xs \<noteq> []"
  shows "y \<in> set (succs ! last xs)" "allowed y"
  using assms by (auto simp: walk_def edges_def successively_append_iff)

lemma no_cycle:
  assumes "bfs_inv start succs allowed d s" "bf_queue s = []"
  shows "\<not> cycle_at succs allowed start xs"
proof
  assume "cycle_at succs allowed start xs"
  then obtain mid where m: "start \<notin> set mid" "walk succs allowed (start # mid @ [start])" by (rule cycle_first_return)
  let ?l = "looked start s"
  have l: "?l x \<longleftrightarrow> x = start \<or> bf_parent s x \<noteq> None" for x using assms(2) by (simp add: looked_def)
  have w: "walk succs allowed (start # mid)" using m(2) by (simp add: walk_def successively_append_iff flip: append_Cons)
  have dn: "done_ok start succs allowed d s p" if "?l p" for p using assms(1) that by (simp add: bfs_inv_def)
  have "?l (last (start # mid))" using seen_walk [of ?l, OF dn _ w] m(1) l by blast
  moreover have "start \<in> set (succs ! last (start # mid))" "allowed start"
    using walk_edge [of succs allowed "start # mid" start] m(2) by simp_all
  ultimately show False using dn by (auto simp: done_ok_def)
qed

lemma no_shorter:
  assumes inv: "scan_inv start succs allowed d v s" and c: "cycle_at succs allowed start xs"
  shows "d v + 2 \<le> length xs"
proof (cases "v = start")
  case True
  then show ?thesis using inv c chain_okD(1) by (fastforce simp: scan_inv_def cycle_at_def)
next
  case False
  obtain mid where m: "start \<notin> set mid" "walk succs allowed (start # mid @ [start])" "length mid + 2 \<le> length xs"
    using cycle_first_return [OF c] .
  let ?l = "\<lambda>p. looked start s p \<and> p \<noteq> v"
  have w: "walk succs allowed (start # mid)" using m(2) by (simp add: walk_def successively_append_iff flip: append_Cons)
  have dn: "done_ok start succs allowed d s p" if "?l p" for p using inv that by (simp add: scan_inv_def)
  have d0: "d start = 0" "bf_parent s start = None" using inv chain_okD(1,2) by (auto simp: scan_inv_def)
  have st: "?l start" using False inv d0 by (auto simp: looked_def scan_inv_def)
  have "start \<in> set (succs ! last (start # mid))" "allowed start"
    using walk_edge [of succs allowed "start # mid" start] m(2) by simp_all
  then have "\<not> ?l (last (start # mid))" using dn [of "last (start # mid)"] unfolding done_ok_def by blast
  then obtain x where x: "x \<in> set mid" "\<not> ?l x" "bf_parent s x \<noteq> None" "d x \<le> length mid"
    using seen_walk [of ?l, OF dn st w] m(1) d0 by auto
  then have "x = v \<or> x \<in> set (bf_queue s)" by (auto simp: looked_def)
  then have "d v \<le> d x" using inv by (auto simp: scan_inv_def)
  then show ?thesis using x(4) m(3) by simp
qed

lemma walkBack_run:
  assumes ch: "chain_ok start succs allowed d s" and "v = start \<or> bf_parent s v \<noteq> None"
  shows "\<exists>bk. walkBack start (bf_parent s) (v, acc) = Some (start, acc @ bk) \<and> length bk = d v \<and>
    last (start # rev bk) = v \<and> successively (\<lambda>x y. (x, y) \<in> edges succs) (start # rev bk) \<and> list_all allowed bk"
  using assms(2)
proof (induction "d v" arbitrary: v acc)
  case 0
  then have "v = start" using chain_okD(6) [OF ch, of v] by (cases "bf_parent s v") auto
  then show ?case using 0 by (simp add: walkBack_def while_option_unfold)
next
  case (Suc k)
  then have v: "v \<noteq> start" using chain_okD(1) [OF ch] by auto
  then obtain p where p: "bf_parent s v = Some p" using Suc.prems by auto
  note c = chain_okD(3-6) [OF ch p]
  have "k = d p" using c(4) Suc.hyps(2) by simp
  from Suc.hyps(1) [OF this c(2), of "acc @ [v]"] obtain bk where
    bk: "walkBack start (bf_parent s) (p, acc @ [v]) = Some (start, acc @ [v] @ bk)" "length bk = d p"
      "last (start # rev bk) = p" "successively (\<lambda>x y. (x, y) \<in> edges succs) (start # rev bk)" "list_all allowed bk" by auto
  have "walkBack start (bf_parent s) (v, acc) = walkBack start (bf_parent s) (p, acc @ [v])"
    unfolding walkBack_def using v p by (subst while_option_unfold) simp
  moreover have "successively (\<lambda>x y. (x, y) \<in> edges succs) ((start # rev bk) @ [v])"
    using bk(3,4) c(3) by (simp only: successively_append_iff) simp
  ultimately show ?case using bk c by (intro exI [of _ "v # bk"]) simp
qed

lemma shortestCycle_run:
  assumes ok: "graph_ok n succs" and st: "start < n"
  obtains (none) "shortestCycle start succs allowed = Some None" "\<And>xs. \<not> cycle_at succs allowed start xs"
  | (some) path where "shortestCycle start succs allowed = Some (Some path)" "cycle_at succs allowed start path"
      "\<And>xs. cycle_at succs allowed start xs \<Longrightarrow> length path \<le> length xs"
proof -
  obtain s d v where
    w: "while_option (\<lambda>s. bf_found s = None \<and> bf_queue s \<noteq> []) (bfs_step start succs allowed)
      (scanSucc start allowed start (succs ! start) \<lparr>bf_parent = Map.empty, bf_queue = [], bf_found = None\<rparr>) = Some s"
    and s: "(bf_found s = None \<and> bf_queue s = [] \<and> bfs_inv start succs allowed d s) \<or>
     (bf_found s = Some v \<and> scan_inv start succs allowed d v s \<and> start \<in> set (succs ! v) \<and> allowed start \<and> v < n)"
    using bfs_loop [OF ok st, of allowed] .
  show thesis
  proof (cases "bf_found s")
    case None
    then have "shortestCycle start succs allowed = Some None" using w by (simp add: shortestCycle_def Let_def)
    then show thesis using none no_cycle s None by auto
  next
    case (Some u)
    then have v: "u = v" "scan_inv start succs allowed d v s" "start \<in> set (succs ! v)" "allowed start" "v < n" using s by auto
    have ch: "chain_ok start succs allowed d s" "v = start \<or> bf_parent s v \<noteq> None"
      using v(2) by (auto simp: scan_inv_def looked_def)
    obtain bk where bk: "walkBack start (bf_parent s) (v, []) = Some (start, bk)" "length bk = d v"
      "last (start # rev bk) = v" "successively (\<lambda>x y. (x, y) \<in> edges succs) (start # rev bk)" "list_all allowed bk"
      using walkBack_run [OF ch, of "[]"] by auto
    let ?p = "start # rev bk @ [start]"
    have "shortestCycle start succs allowed = Some (Some ?p)"
      using w Some v(1) bk(1) by (simp add: shortestCycle_def Let_def)
    moreover have "(v, start) \<in> edges succs" using v ok by (simp add: edges_def graph_ok_def)
    then have "successively (\<lambda>x y. (x, y) \<in> edges succs) ((start # rev bk) @ [start])"
      using bk(3,4) by (simp only: successively_append_iff) simp
    then have "cycle_at succs allowed start ?p"
      using v(4) bk(5) by (auto simp: cycle_at_def walk_def list_all_iff)
    moreover have "length ?p = d v + 2" using bk(2) by simp
    ultimately show thesis using some no_shorter [OF v(2)] by simp
  qed
qed

text \<open>The cycle of the first member that is on one.\<close>

lemma firstCycle_run:
  assumes ok: "graph_ok n succs" and "\<forall>m \<in> set ms. m < n"
  shows "(firstCycle succs allowed ms = Some None \<and> (\<forall>m \<in> set ms. allowed m \<longrightarrow> (\<forall>xs. \<not> cycle_at succs allowed m xs))) \<or>
    (\<exists>m path. firstCycle succs allowed ms = Some (Some path) \<and> m \<in> set ms \<and> cycle_at succs allowed m path)"
  using assms(2)
proof (induction ms)
  case (Cons m ms)
  then have m: "m < n" by simp
  show ?case
  proof (cases "allowed m")
    case True
    show ?thesis
    proof (rule shortestCycle_run [OF ok m, of allowed])
      assume "shortestCycle m succs allowed = Some None" "\<And>xs. \<not> cycle_at succs allowed m xs"
      then show ?thesis using Cons True by auto
    qed (use True in auto)
  qed (use Cons in auto)
qed simp

section \<open>Properties\<close>

text \<open>
  C39. The search for a shortest cycle always returns, and is right: it returns no path exactly when no
  cycle through the start keeps to the allowed nodes, and otherwise a cycle through the start over allowed nodes that no
  other such cycle is shorter than.
\<close>

theorem shortestCycle_exact:
  assumes "graph_ok n succs" "start < n"
  shows "case shortestCycle start succs allowed of
      None \<Rightarrow> False
    | Some None \<Rightarrow> \<not> (\<exists>xs. cycle_at succs allowed start xs)
    | Some (Some path) \<Rightarrow> cycle_at succs allowed start path \<and>
        (\<forall>xs. cycle_at succs allowed start xs \<longrightarrow> length path \<le> length xs)"
  by (rule shortestCycle_run [OF assms, of allowed]) auto

theorem shortestCycle_exact_witness:
  "cycle_at [[1, 2], [3], [0], [0]] (\<lambda>_. True) 0 [0, 2, 0] \<and> length [0 :: nat, 2, 0] \<le> length [0 :: nat, 1, 3, 0] \<and>
   cycle_at [[1, 2], [3], [0], [0]] (\<lambda>_. True) 0 [0, 1, 3, 0]"
proof -
  let ?g = "[[1, 2], [3], [0], [0]]"
  have "shortestCycle 0 ?g (\<lambda>_. True) = Some (Some [0, 2, 0])" by code_simp
  moreover have "graph_ok 4 ?g" by (simp add: graph_ok_def)
  moreover have other: "cycle_at ?g (\<lambda>_. True) 0 [0, 1, 3, 0]"
    by (simp add: cycle_at_def walk_def edges_def)
  ultimately have "cycle_at ?g (\<lambda>_. True) 0 [0, 2, 0]" "length [0 :: nat, 2, 0] \<le> length [0 :: nat, 1, 3, 0]"
    using shortestCycle_exact [of 4 ?g 0 "\<lambda>_. True"] by auto
  then show ?thesis using other by blast
qed

end
