(* ===== verification/LoopCheck.thy ===== *)
theory LoopCheck
  imports LoopCover CyclePath Values "HOL-Library.List_Lexorder" "HOL-Library.Char_ord"
begin

text \<open>
  The verdict of the static loop check: the end of BuildLoopGraph and its cycles
  (component/automations/loop_graph.go), and the refusal of one candidate
  (component/automations/loop_graph_report.go). A graph with an edge list and successor lists is judged: every cyclic
  component is recorded, permitted when the automations with a @loop cover it and refused with one printed
  cycle otherwise. A search that never returned would be None.
\<close>

section \<open>Definitions\<close>

record GraphEdge =
  ge_From :: string
  ge_To :: string
  ge_Concept :: string
  ge_Topic :: string
  ge_Via :: "string list"
  ge_Decided :: bool
  ge_Reason :: string

record GraphCycle =
  gc_Members :: "string list"
  gc_PermittedBy :: "string list"
  gc_Path :: "string list"

record LoopProblem =
  lp_Automation :: string
  lp_Origin :: string
  lp_Code :: string
  lp_Message :: string

text \<open>What the check reads of an automation: its name, its origin and the maxDepth of its @loop.\<close>

record graphNode =
  gn_Name :: string
  gn_Origin :: string
  gn_Loop :: "int option"

record graphIndex =
  gi_nodes :: "graphNode list"
  gi_succ :: "nat list list"
  gi_edge :: "nat \<times> nat \<Rightarrow> nat option"
  gi_comp :: "nat list"
  gi_comps :: "nat list list"

record LoopGraph =
  lg_Strata :: "int list"
  lg_CycleOf :: "int list"
  lg_Edges :: "GraphEdge list"
  lg_Cycles :: "GraphCycle list"
  lg_Problems :: "LoopProblem list"
  lg_idx :: graphIndex

definition codeLoopCycle :: string where "codeLoopCycle = ''loop_cycle''"
definition codeLoopMaxDepthRange :: string where "codeLoopMaxDepthRange = ''loop_max_depth_range''"

definition cycleFix :: string where
  "cycleFix =
     ''Permit it with @loop(maxDepth=<n>, until=row => <done>) on one automation of the cycle, with its negation in that automation'' @ [CHR 0x27] @ ''s @filter; '' @
     ''or give an automation a @filter this write cannot satisfy -- a trigger for first versions only declares '' @ [CHR 0x60] @ ''firstVersion bool'' @ [CHR 0x60] @
     '' in its args block and filters '' @ [CHR 0x60] @ ''@filter(row => args.firstVersion == true)'' @ [CHR 0x60]"

definition names :: "graphNode list \<Rightarrow> nat list \<Rightarrow> string list" where
  "names nodes is = map (\<lambda>i. gn_Name (nodes ! i)) is"

fun edgeLines :: "GraphEdge list \<Rightarrow> (nat \<times> nat \<Rightarrow> nat option) \<Rightarrow> nat list \<Rightarrow> string" where
  "edgeLines edgs edge (v # w # path) =
     (case edge (v, w) of
        Some e \<Rightarrow> [CHR 0x0A] @ ''  '' @ ge_From (edgs ! e) @ '' -> '' @ ge_To (edgs ! e) @ '': '' @ ge_Reason (edgs ! e)
      | None \<Rightarrow> []) @ edgeLines edgs edge (w # path)"
| "edgeLines edgs edge path = []"

definition renderCycleProblem :: "GraphEdge list \<Rightarrow> graphIndex \<Rightarrow> nat list \<Rightarrow> string" where
  "renderCycleProblem edgs ix path =
     ''automation cycle not covered by @loop: '' @ Join (names (gi_nodes ix) path) '' -> '' @
     edgeLines edgs (gi_edge ix) path @ [CHR 0x0A] @ ''  '' @ cycleFix @ '' ['' @ codeLoopCycle @ '']''"

definition isLoop :: "graphNode list \<Rightarrow> nat \<Rightarrow> bool" where
  "isLoop nodes i \<longleftrightarrow> gn_Loop (nodes ! i) \<noteq> None"

text \<open>The body of the loop over the cyclic components.\<close>

definition judgeCycle :: "GraphEdge list \<Rightarrow> graphIndex \<Rightarrow> nat list \<Rightarrow> (GraphCycle \<times> LoopProblem list) option" where
  "judgeCycle edgs ix members =
     (let nodes = gi_nodes ix; succs = gi_succ ix
      in case covered members succs (isLoop nodes) of
           None \<Rightarrow> None
         | Some True \<Rightarrow>
             (case cyclePath members succs (\<lambda>_. False) of
                None \<Rightarrow> None
              | Some path \<Rightarrow>
                  Some (\<lparr>gc_Members = names nodes members,
                         gc_PermittedBy = sort (names nodes (filter (isLoop nodes) members)),
                         gc_Path = names nodes (case path of None \<Rightarrow> [] | Some p \<Rightarrow> p)\<rparr>, []))
         | Some False \<Rightarrow>
             (case cyclePath members succs (isLoop nodes) of
                None \<Rightarrow> None
              | Some path \<Rightarrow>
                  Some (\<lparr>gc_Members = names nodes members, gc_PermittedBy = [],
                         gc_Path = names nodes (case path of None \<Rightarrow> [] | Some p \<Rightarrow> p)\<rparr>,
                        case path of
                          Some (v # rest) \<Rightarrow>
                            [\<lparr>lp_Automation = gn_Name (nodes ! v), lp_Origin = gn_Origin (nodes ! v), lp_Code = codeLoopCycle,
                              lp_Message = renderCycleProblem edgs ix (v # rest)\<rparr>]
                        | _ \<Rightarrow> [])))"

fun judgeAll :: "GraphEdge list \<Rightarrow> graphIndex \<Rightarrow> nat list list \<Rightarrow> (GraphCycle list \<times> LoopProblem list) option" where
  "judgeAll edgs ix [] = Some ([], [])"
| "judgeAll edgs ix (members # rest) =
     (case judgeCycle edgs ix members of
        None \<Rightarrow> None
      | Some (cycle, ps) \<Rightarrow>
          (case judgeAll edgs ix rest of
             None \<Rightarrow> None
           | Some (cs, qs) \<Rightarrow> Some (cycle # cs, ps @ qs)))"

definition cyclicComponents :: "graphIndex \<Rightarrow> nat list list" where
  "cyclicComponents ix = sort_key (\<lambda>members. members ! 0) (filter (holdsCycle (gi_succ ix)) (gi_comps ix))"

definition cycleOf :: "nat \<Rightarrow> nat list list \<Rightarrow> int list" where
  "cycleOf n cyclic =
     foldl (\<lambda>cyc c. foldl (\<lambda>cyc m. cyc[m := int c]) cyc (cyclic ! c)) (replicate n (-1)) [0..<length cyclic]"

definition depthProblems :: "graphNode list \<Rightarrow> int \<Rightarrow> LoopProblem list" where
  "depthProblems nodes depthCap =
     (if depthCap > 0 then
        List.map_filter
          (\<lambda>a. case gn_Loop a of
                 None \<Rightarrow> None
               | Some d \<Rightarrow>
                   if d < 1 \<or> d > depthCap then
                     Some \<lparr>lp_Automation = gn_Name a, lp_Origin = gn_Origin a, lp_Code = codeLoopMaxDepthRange,
                       lp_Message = ''automation '' @ gn_Name a @ '': @loop(maxDepth='' @ itoa d @ '') is outside 1 to '' @ itoa depthCap @
                         '', the chain depth cap (MEMQL_AUTOMATION_MAX_CHAIN_DEPTH) -- write a maxDepth from 1 to '' @ itoa depthCap @
                         '' ['' @ codeLoopMaxDepthRange @ '']''\<rparr>
                   else None)
          nodes
      else [])"

definition problemKey :: "LoopProblem \<Rightarrow> string list" where
  "problemKey p = [lp_Automation p, lp_Origin p, lp_Code p, lp_Message p]"

text \<open>BuildLoopGraph from the point where the edges are known.\<close>

definition finishGraph ::
  "graphNode list \<Rightarrow> nat list list \<Rightarrow> GraphEdge list \<Rightarrow> (nat \<times> nat \<Rightarrow> nat option) \<Rightarrow> int \<Rightarrow> LoopGraph option" where
  "finishGraph nodes succs edgs edge depthCap =
     (let n = length nodes
      in case tarjan n succs of
           None \<Rightarrow> None
         | Some comps \<Rightarrow>
             let cmp = componentOf n comps;
                 ix = \<lparr>gi_nodes = nodes, gi_succ = succs, gi_edge = edge, gi_comp = cmp, gi_comps = comps\<rparr>;
                 cyclic = cyclicComponents ix
             in case judgeAll edgs ix cyclic of
                  None \<Rightarrow> None
                | Some (cycles, problems) \<Rightarrow>
                    Some \<lparr>lg_Strata = strata comps cmp succs, lg_CycleOf = cycleOf n cyclic, lg_Edges = edgs,
                          lg_Cycles = cycles,
                          lg_Problems = sort_key problemKey (problems @ depthProblems nodes depthCap), lg_idx = ix\<rparr>)"

fun originIndex :: "graphNode list \<Rightarrow> string \<Rightarrow> nat option" where
  "originIndex [] origin = None"
| "originIndex (a # nodes) origin = (if gn_Origin a = origin then Some 0 else map_option Suc (originIndex nodes origin))"

text \<open>The refusal of the automation at an origin, if any; the outer option is that of a search that does not return.\<close>

definition problemThrough :: "LoopGraph \<Rightarrow> string \<Rightarrow> LoopProblem option option" where
  "problemThrough g origin =
     (let ix = lg_idx g; nodes = gi_nodes ix
      in case originIndex nodes origin of
           None \<Rightarrow> Some None
         | Some k \<Rightarrow>
             if isLoop nodes k then Some None
             else
               (case shortestCycle k (gi_succ ix)
                       (\<lambda>m. m \<in> set (gi_comps ix ! (gi_comp ix ! k)) \<and> \<not> isLoop nodes m) of
                  None \<Rightarrow> None
                | Some None \<Rightarrow> Some None
                | Some (Some path) \<Rightarrow>
                    Some (Some \<lparr>lp_Automation = gn_Name (nodes ! k), lp_Origin = gn_Origin (nodes ! k),
                                lp_Code = codeLoopCycle, lp_Message = renderCycleProblem (lg_Edges g) ix path\<rparr>)))"

section \<open>Cycles as walks\<close>

lemma walk_trancl:
  "walk succs allowed (v # mid @ [w]) \<Longrightarrow> (v, w) \<in> (within_nodes succs {x. allowed x})\<^sup>+"
proof (induction mid arbitrary: v)
  case Nil
  then show ?case by (auto simp: walk_def within_nodes_def)
next
  case (Cons u mid)
  have "(v, u) \<in> within_nodes succs {x. allowed x}" "walk succs allowed (u # mid @ [w])"
    using Cons.prems by (auto simp: walk_def within_nodes_def)
  then show ?case using Cons.IH by (meson trancl_into_trancl2)
qed

lemma trancl_walk:
  assumes "(v, w) \<in> (within_nodes succs {x. allowed x})\<^sup>+"
  shows "\<exists>mid. walk succs allowed (v # mid @ [w])"
  using assms
proof (induction rule: trancl_induct)
  case (base y)
  then show ?case by (intro exI [of _ "[]"]) (auto simp: walk_def within_nodes_def)
next
  case (step y z)
  then obtain mid where m: "walk succs allowed (v # mid @ [y])" by blast
  have "walk succs allowed ((v # mid @ [y]) @ [z])"
    using m step(2) unfolding walk_def successively_append_iff by (auto simp: within_nodes_def)
  then show ?case by (intro exI [of _ "mid @ [y]"]) simp
qed

lemma cycle_trancl: "(\<exists>xs. cycle_at succs allowed v xs) \<longleftrightarrow> (v, v) \<in> (within_nodes succs {x. allowed x})\<^sup>+"
  unfolding cycle_at_def using walk_trancl trancl_walk by blast

lemma within_mono: "a \<subseteq> b \<Longrightarrow> within_nodes succs a \<subseteq> within_nodes succs b"
  by (auto simp: within_nodes_def)

text \<open>A cycle stays in the component of its nodes.\<close>

lemma within_component:
  assumes ok: "graph_ok n succs" and t: "tarjan n succs = Some comps" and c: "c \<in> set comps" "v \<in> set c"
    and v: "(v, v) \<in> (within_nodes succs k)\<^sup>+"
  shows "(v, v) \<in> (within_nodes succs (k \<inter> set c))\<^sup>+"
proof -
  have sub: "within_nodes succs k \<subseteq> edges succs" by (auto simp: within_nodes_def)
  have scc: "w \<in> set c" if "(v, w) \<in> (edges succs)\<^sup>*" "(w, v) \<in> (edges succs)\<^sup>*" for w
    using tarjan_facts(4) [OF ok t c(1)] c(2) that unfolding is_scc_def by (auto intro: rtrancl_trans)
  have "(v, w) \<in> (within_nodes succs (k \<inter> set c))\<^sup>+" if "(v, w) \<in> (within_nodes succs k)\<^sup>+" "(w, v) \<in> (within_nodes succs k)\<^sup>*" for w
    using that
  proof (induction rule: trancl_induct)
    case (base w)
    have "w \<in> set c" using base sub by (intro scc) (auto intro: rtrancl_mono [THEN subsetD])
    then show ?case using base(1) c(2) by (auto simp: within_nodes_def)
  next
    case (step w u)
    have wv: "(w, v) \<in> (within_nodes succs k)\<^sup>*" using step by (meson converse_rtrancl_into_rtrancl)
    have "(v, w) \<in> (edges succs)\<^sup>*" "(v, u) \<in> (edges succs)\<^sup>*" "(w, v) \<in> (edges succs)\<^sup>*" "(u, v) \<in> (edges succs)\<^sup>*"
      using step(1,2,4) wv rtrancl_mono [OF sub] by (meson subsetD trancl_into_rtrancl rtrancl.rtrancl_into_rtrancl)+
    then have "w \<in> set c" "u \<in> set c" using scc by blast+
    then have "(w, u) \<in> within_nodes succs (k \<inter> set c)" using step(2) by (auto simp: within_nodes_def)
    then show ?case using step.IH wv by (meson trancl_into_trancl)
  qed
  then show ?thesis using v by blast
qed

lemma cycle_at_mono: "cycle_at succs a v xs \<Longrightarrow> (\<And>x. a x \<Longrightarrow> b x) \<Longrightarrow> cycle_at succs b v xs"
  by (auto simp: cycle_at_def walk_def list_all_iff)

lemma cycle_at_head: "cycle_at succs a v xs \<Longrightarrow> a v \<and> (\<exists>rest. xs = v # rest)"
  by (auto simp: cycle_at_def walk_def)

section \<open>The verdict on one component\<close>

definition cycleProblem :: "GraphEdge list \<Rightarrow> graphIndex \<Rightarrow> nat \<Rightarrow> nat list \<Rightarrow> LoopProblem" where
  "cycleProblem edgs ix v path =
     \<lparr>lp_Automation = gn_Name (gi_nodes ix ! v), lp_Origin = gn_Origin (gi_nodes ix ! v), lp_Code = codeLoopCycle,
      lp_Message = renderCycleProblem edgs ix path\<rparr>"

lemma cyclePath_run:
  fixes skip :: "nat \<Rightarrow> bool"
  assumes ok: "graph_ok n succs" and "set members \<subseteq> {..<n}"
  defines "a \<equiv> \<lambda>w. w \<in> set members \<and> \<not> skip w"
  obtains (none) "cyclePath members succs skip = Some None" "\<not> (\<exists>v. (v, v) \<in> (within_nodes succs {w. a w})\<^sup>+)"
  | (some) v path where "cyclePath members succs skip = Some (Some path)" "cycle_at succs a v path"
proof -
  have "\<forall>m \<in> set members. m < n" using assms(2) by auto
  from firstCycle_run [OF ok this, of a]
  consider "firstCycle succs a members = Some None" "\<forall>m \<in> set members. a m \<longrightarrow> (\<forall>xs. \<not> cycle_at succs a m xs)"
    | m path where "firstCycle succs a members = Some (Some path)" "cycle_at succs a m path" by blast
  then show thesis
  proof cases
    case 1
    have "\<not> (v, v) \<in> (within_nodes succs {w. a w})\<^sup>+" for v
      using 1(2) cycle_trancl [of succs a v] cycle_at_head [of succs a v] a_def by blast
    then show thesis using none 1(1) by (simp add: cyclePath_def a_def)
  qed (use some in \<open>simp add: cyclePath_def a_def\<close>)
qed

lemma judgeCycle_run:
  assumes ok: "graph_ok n (gi_succ ix)" and m: "distinct members" "set members \<subseteq> {..<n}"
  defines "free \<equiv> {m \<in> set members. \<not> isLoop (gi_nodes ix) m}"
  obtains cyc ps where "judgeCycle edgs ix members = Some (cyc, ps)"
    "ps = [] \<longleftrightarrow> \<not> (\<exists>v. (v, v) \<in> (within_nodes (gi_succ ix) free)\<^sup>+)"
    "\<forall>p \<in> set ps. \<exists>v path. cycle_at (gi_succ ix) (\<lambda>m. \<not> isLoop (gi_nodes ix) m) v path \<and> p = cycleProblem edgs ix v path"
proof -
  let ?nodes = "gi_nodes ix" and ?succs = "gi_succ ix"
  note cov = covered_run [OF ok m, of "isLoop ?nodes", folded free_def]
  show thesis
  proof (cases "\<exists>v. (v, v) \<in> (within_nodes ?succs free)\<^sup>+")
    case False
    obtain path where "cyclePath members ?succs (\<lambda>_. False) = Some path"
      using cyclePath_run [OF ok m(2), of "\<lambda>_. False"] by metis
    then show thesis using that False cov by (simp add: judgeCycle_def Let_def)
  next
    case True
    show thesis
    proof (rule cyclePath_run [OF ok m(2), of "isLoop ?nodes"])
      assume "\<not> (\<exists>v. (v, v) \<in> (within_nodes ?succs {w. w \<in> set members \<and> \<not> isLoop ?nodes w})\<^sup>+)"
      then show thesis using True by (simp add: free_def)
    next
      fix v path assume p: "cyclePath members ?succs (isLoop ?nodes) = Some (Some path)"
        "cycle_at ?succs (\<lambda>w. w \<in> set members \<and> \<not> isLoop ?nodes w) v path"
      obtain rest where path: "path = v # rest" using cycle_at_head [OF p(2)] by blast
      have "judgeCycle edgs ix members =
          Some (\<lparr>gc_Members = names ?nodes members, gc_PermittedBy = [], gc_Path = names ?nodes path\<rparr>,
            [cycleProblem edgs ix v path])"
        using True cov p(1) path by (simp add: judgeCycle_def Let_def cycleProblem_def)
      moreover have "cycle_at ?succs (\<lambda>m. \<not> isLoop ?nodes m) v path" using p(2) by (rule cycle_at_mono) simp
      ultimately show thesis using True by (intro that [of _ "[cycleProblem edgs ix v path]"]) auto
    qed
  qed
qed

lemma judgeAll_run:
  assumes ok: "graph_ok n (gi_succ ix)" and "\<forall>c \<in> set cs. distinct c \<and> set c \<subseteq> {..<n}"
  shows "\<exists>cycs ps. judgeAll edgs ix cs = Some (cycs, ps) \<and>
    (ps = [] \<longleftrightarrow> (\<forall>c \<in> set cs. \<not> (\<exists>v. (v, v) \<in> (within_nodes (gi_succ ix) {m \<in> set c. \<not> isLoop (gi_nodes ix) m})\<^sup>+))) \<and>
    (\<forall>p \<in> set ps. \<exists>v path. cycle_at (gi_succ ix) (\<lambda>m. \<not> isLoop (gi_nodes ix) m) v path \<and> p = cycleProblem edgs ix v path)"
  using assms(2)
proof (induction cs)
  case (Cons c cs)
  have "distinct c" "set c \<subseteq> {..<n}" using Cons.prems by simp_all
  then obtain cyc ps where
    j: "judgeCycle edgs ix c = Some (cyc, ps)"
      "ps = [] \<longleftrightarrow> \<not> (\<exists>v. (v, v) \<in> (within_nodes (gi_succ ix) {m \<in> set c. \<not> isLoop (gi_nodes ix) m})\<^sup>+)"
      "\<forall>p \<in> set ps. \<exists>v path. cycle_at (gi_succ ix) (\<lambda>m. \<not> isLoop (gi_nodes ix) m) v path \<and> p = cycleProblem edgs ix v path"
    by (rule judgeCycle_run [OF ok])
  obtain cycs qs where q: "judgeAll edgs ix cs = Some (cycs, qs)"
      "qs = [] \<longleftrightarrow> (\<forall>c \<in> set cs. \<not> (\<exists>v. (v, v) \<in> (within_nodes (gi_succ ix) {m \<in> set c. \<not> isLoop (gi_nodes ix) m})\<^sup>+))"
      "\<forall>p \<in> set qs. \<exists>v path. cycle_at (gi_succ ix) (\<lambda>m. \<not> isLoop (gi_nodes ix) m) v path \<and> p = cycleProblem edgs ix v path"
    using Cons by auto
  have "judgeAll edgs ix (c # cs) = Some (cyc # cycs, ps @ qs)" using j(1) q(1) by simp
  then show ?case using j(2,3) q(2,3) by (intro exI [of _ "cyc # cycs"] exI [of _ "ps @ qs"]) auto
qed simp

lemma cyclic_holds:
  assumes ok: "graph_ok n (gi_succ ix)" and t: "tarjan n (gi_succ ix) = Some (gi_comps ix)"
  shows "(\<exists>c \<in> set (cyclicComponents ix). \<exists>v. (v, v) \<in> (within_nodes (gi_succ ix) {m \<in> set c. \<not> isLoop (gi_nodes ix) m})\<^sup>+) \<longleftrightarrow>
    (\<exists>v xs. cycle_at (gi_succ ix) (\<lambda>m. \<not> isLoop (gi_nodes ix) m) v xs)"
proof
  let ?a = "\<lambda>m. \<not> isLoop (gi_nodes ix) m" and ?s = "gi_succ ix"
  assume "\<exists>v xs. cycle_at ?s ?a v xs"
  then obtain v where v: "(v, v) \<in> (within_nodes ?s {x. ?a x})\<^sup>+" using cycle_trancl by blast
  have e: "(v, v) \<in> (edges ?s)\<^sup>+" using v by (rule trancl_mono) (auto simp: within_nodes_def)
  then have "v \<in> {..<n}" using edges_in_range [OF ok] by (meson lessThan_iff tranclD)
  then obtain c where c: "c \<in> set (gi_comps ix)" "v \<in> set c" using tarjan_facts(3) [OF ok t] by auto
  have "c \<in> set (cyclicComponents ix)" using c holdsCycle_find [OF ok t e c] by (simp add: cyclicComponents_def)
  moreover have "{x. ?a x} \<inter> set c = {m \<in> set c. ?a m}" by auto
  ultimately show "\<exists>c \<in> set (cyclicComponents ix). \<exists>v. (v, v) \<in> (within_nodes ?s {m \<in> set c. ?a m})\<^sup>+"
    using within_component [OF ok t c v] by auto
next
  let ?a = "\<lambda>m. \<not> isLoop (gi_nodes ix) m" and ?s = "gi_succ ix"
  assume "\<exists>c \<in> set (cyclicComponents ix). \<exists>v. (v, v) \<in> (within_nodes ?s {m \<in> set c. ?a m})\<^sup>+"
  then obtain c v where v: "(v, v) \<in> (within_nodes ?s {m \<in> set c. ?a m})\<^sup>+" by blast
  have "(v, v) \<in> (within_nodes ?s {x. ?a x})\<^sup>+" by (rule trancl_mono [OF v]) (rule within_mono, auto)
  then show "\<exists>v xs. cycle_at ?s ?a v xs" using cycle_trancl by blast
qed

section \<open>The verdict\<close>

lemma finishGraph_run:
  assumes ok: "graph_ok (length nodes) succs"
  obtains g comps ps where "finishGraph nodes succs edgs edge depthCap = Some g"
    "tarjan (length nodes) succs = Some comps"
    "lg_idx g = \<lparr>gi_nodes = nodes, gi_succ = succs, gi_edge = edge, gi_comp = componentOf (length nodes) comps, gi_comps = comps\<rparr>"
    "lg_Edges g = edgs" "set (lg_Problems g) = set ps \<union> set (depthProblems nodes depthCap)"
    "lg_Strata g = strata comps (componentOf (length nodes) comps) succs"
    "ps = [] \<longleftrightarrow> \<not> (\<exists>v xs. cycle_at succs (\<lambda>m. \<not> isLoop nodes m) v xs)"
    "\<forall>p \<in> set ps. \<exists>v path. cycle_at succs (\<lambda>m. \<not> isLoop nodes m) v path \<and> p = cycleProblem edgs (lg_idx g) v path"
proof -
  obtain comps where t: "tarjan (length nodes) succs = Some comps" using tarjan_ends [OF ok] by blast
  define ix where "ix = \<lparr>gi_nodes = nodes, gi_succ = succs, gi_edge = edge,
    gi_comp = componentOf (length nodes) comps, gi_comps = comps\<rparr>"
  have ix: "gi_nodes ix = nodes" "gi_succ ix = succs" "gi_comps ix = comps" by (simp_all add: ix_def)
  note f = tarjan_facts [OF ok t]
  have "\<forall>c \<in> set (cyclicComponents ix). distinct c \<and> set c \<subseteq> {..<length nodes}"
    using f(2,4) by (auto simp: cyclicComponents_def ix distinct_concat_iff)
  from judgeAll_run [of "length nodes" ix, unfolded ix, OF ok this, of edgs]
  obtain cycs ps where j: "judgeAll edgs ix (cyclicComponents ix) = Some (cycs, ps)"
    "ps = [] \<longleftrightarrow> (\<forall>c \<in> set (cyclicComponents ix). \<not> (\<exists>v. (v, v) \<in> (within_nodes succs {m \<in> set c. \<not> isLoop nodes m})\<^sup>+))"
    "\<forall>p \<in> set ps. \<exists>v path. cycle_at succs (\<lambda>m. \<not> isLoop nodes m) v path \<and> p = cycleProblem edgs ix v path" by blast
  have "(\<exists>c \<in> set (cyclicComponents ix). \<exists>v. (v, v) \<in> (within_nodes succs {m \<in> set c. \<not> isLoop nodes m})\<^sup>+) \<longleftrightarrow>
      (\<exists>v xs. cycle_at succs (\<lambda>m. \<not> isLoop nodes m) v xs)"
    using cyclic_holds [of "length nodes" ix, unfolded ix, OF ok t] .
  then have e: "ps = [] \<longleftrightarrow> \<not> (\<exists>v xs. cycle_at succs (\<lambda>m. \<not> isLoop nodes m) v xs)" using j(2) by blast
  define g where "g = \<lparr>lg_Strata = strata comps (componentOf (length nodes) comps) succs,
    lg_CycleOf = cycleOf (length nodes) (cyclicComponents ix), lg_Edges = edgs, lg_Cycles = cycs,
    lg_Problems = sort_key problemKey (ps @ depthProblems nodes depthCap), lg_idx = ix\<rparr>"
  have fin: "finishGraph nodes succs edgs edge depthCap = Some g"
    using t j(1) by (simp add: finishGraph_def Let_def g_def ix_def)
  have gi: "lg_idx g = ix" by (simp add: g_def)
  show thesis
    by (rule that [OF fin t _ _ _ _ e]) (use j(3) in \<open>simp_all add: g_def ix_def\<close>)
qed

lemma depthProblems_code: "p \<in> set (depthProblems nodes depthCap) \<Longrightarrow> lp_Code p \<noteq> codeLoopCycle"
  by (auto simp: depthProblems_def set_map_filter codeLoopCycle_def codeLoopMaxDepthRange_def split: if_splits option.splits)

lemma free_walk_distinct:
  assumes "\<And>v xs. \<not> cycle_at succs a v xs" "walk succs a xs"
  shows "distinct xs"
proof (rule ccontr)
  assume "\<not> distinct xs"
  then obtain as x bs cs where "xs = as @ [x] @ bs @ [x] @ cs" using not_distinct_decomp by blast
  then have "xs = as @ (x # bs @ [x]) @ cs" by simp
  then have "walk succs a (x # bs @ [x])"
    using assms(2) unfolding walk_def by (simp only: successively_append_iff list_all_append)
  then show False using assms(1) by (auto simp: cycle_at_def)
qed

text \<open>A walk in a graph whose every cycle meets a loop node is as long as its visits to loop nodes allow.\<close>

lemma covered_walk_length:
  assumes ok: "graph_ok n succs" and acyc: "\<And>v xs. \<not> cycle_at succs (\<lambda>m. \<not> l m) v xs"
  shows "walk succs (\<lambda>m. m < n) xs \<Longrightarrow> length xs \<le> n + (n + 1) * length (filter l xs)"
proof (induction "length xs" arbitrary: xs rule: less_induct)
  case less
  define seg where "seg = takeWhile (\<lambda>m. \<not> l m) xs"
  have split: "xs = seg @ dropWhile (\<lambda>m. \<not> l m) xs" by (simp add: seg_def)
  have parts: "walk succs (\<lambda>m. m < n) seg" "walk succs (\<lambda>m. m < n) (dropWhile (\<lambda>m. \<not> l m) xs)"
    using less.prems split unfolding walk_def by (metis successively_append_iff list_all_append)+
  have "walk succs (\<lambda>m. \<not> l m) seg"
    using parts(1) unfolding walk_def seg_def list_all_iff by (metis set_takeWhileD)
  then have "distinct seg" by (rule free_walk_distinct [OF acyc])
  moreover have "set seg \<subseteq> {..<n}" using parts(1) by (auto simp: walk_def list_all_iff)
  ultimately have seg: "length seg \<le> n" by (metis card_lessThan card_mono distinct_card finite_lessThan)
  show ?case
  proof (cases "dropWhile (\<lambda>m. \<not> l m) xs")
    case Nil
    then show ?thesis using seg split by (metis append_Nil2 trans_le_add1)
  next
    case (Cons x ys)
    have x: "l x" using Cons by (metis dropWhile_eq_Cons_conv)
    have ys: "walk succs (\<lambda>m. m < n) ys" using parts(2) Cons by (cases ys) (auto simp: walk_def)
    have xs: "xs = seg @ x # ys" using split Cons by simp
    have "length ys \<le> n + (n + 1) * length (filter l ys)" using less.hyps [OF _ ys] xs by simp
    moreover have "length (filter l xs) \<ge> Suc (length (filter l ys))" using xs x by simp
    moreover have "(n + 1) * Suc (length (filter l ys)) \<le> (n + 1) * length (filter l xs)"
      using calculation(2) by (rule mult_le_mono2)
    ultimately show ?thesis using seg xs by simp
  qed
qed

lemma originIndex_Some:
  "originIndex nodes origin = Some k \<Longrightarrow> k < length nodes \<and> gn_Origin (nodes ! k) = origin"
  by (induction nodes arbitrary: k) (auto split: if_splits)

lemma problemThrough_run:
  assumes ok: "graph_ok (length nodes) succs" and fin: "finishGraph nodes succs edgs edge depthCap = Some g"
    and k: "originIndex nodes origin = Some k"
  shows "(problemThrough g origin = Some None \<and> \<not> (\<exists>xs. cycle_at succs (\<lambda>m. \<not> isLoop nodes m) k xs)) \<or>
    (\<exists>path. problemThrough g origin = Some (Some (cycleProblem edgs (lg_idx g) k path)) \<and>
       cycle_at succs (\<lambda>m. \<not> isLoop nodes m) k path)"
proof -
  let ?n = "length nodes" and ?a = "\<lambda>m. \<not> isLoop nodes m"
  obtain comps where g: "tarjan ?n succs = Some comps" "lg_Edges g = edgs"
      "lg_idx g = \<lparr>gi_nodes = nodes, gi_succ = succs, gi_edge = edge, gi_comp = componentOf ?n comps, gi_comps = comps\<rparr>"
    using finishGraph_run [OF ok, of edgs edge depthCap] fin by (metis option.inject)
  have kn: "k < ?n" using originIndex_Some [OF k] by simp
  define c where "c = comps ! (componentOf ?n comps ! k)"
  let ?b = "\<lambda>m. m \<in> set c \<and> \<not> isLoop nodes m"
  have c: "c \<in> set comps" "k \<in> set c"
    using component_members(1,2) [OF ok g(1) kn] by (simp_all add: c_def)
  have inside: "(\<exists>xs. cycle_at succs ?a k xs) \<longleftrightarrow> (\<exists>xs. cycle_at succs ?b k xs)"
  proof
    assume "\<exists>xs. cycle_at succs ?a k xs"
    then have "(k, k) \<in> (within_nodes succs ({x. ?a x} \<inter> set c))\<^sup>+"
      using within_component [OF ok g(1) c] cycle_trancl by blast
    moreover have "{x. ?a x} \<inter> set c = {x. ?b x}" by auto
    ultimately show "\<exists>xs. cycle_at succs ?b k xs" using cycle_trancl [of succs ?b k] by simp
  qed (auto intro: cycle_at_mono)
  show ?thesis
  proof (cases "isLoop nodes k")
    case True
    then show ?thesis using k cycle_at_head by (auto simp: problemThrough_def g(3) Let_def)
  next
    case False
    show ?thesis
    proof (rule shortestCycle_run [OF ok kn, of ?b])
      assume s: "shortestCycle k succs ?b = Some None" "\<And>xs. \<not> cycle_at succs ?b k xs"
      have "problemThrough g origin = Some None" using k False s(1) by (simp add: problemThrough_def g(3) Let_def c_def)
      then show ?thesis using inside s(2) by blast
    next
      fix path assume s: "shortestCycle k succs ?b = Some (Some path)" "cycle_at succs ?b k path"
      have "problemThrough g origin = Some (Some (cycleProblem edgs (lg_idx g) k path))"
        using k False s(1) by (simp add: problemThrough_def g(2,3) Let_def c_def cycleProblem_def)
      moreover have "cycle_at succs ?a k path" using s(2) by (rule cycle_at_mono) simp
      ultimately show ?thesis by blast
    qed
  qed
qed

section \<open>Properties\<close>

text \<open>
  C3. The static check refuses exactly the graphs that can loop without a bound. For every graph of
  automations it returns; it reports a \<^verbatim>\<open>loop_cycle\<close> problem exactly when some cycle passes no automation with a
  \<^verbatim>\<open>@loop\<close>; and every such problem prints a real cycle of that kind, on the file of the automation it starts at.
\<close>

theorem static_check_exact:
  assumes ok: "graph_ok (length nodes) succs"
  shows "\<exists>g. finishGraph nodes succs edgs edge depthCap = Some g \<and>
    ((\<exists>p \<in> set (lg_Problems g). lp_Code p = codeLoopCycle) \<longleftrightarrow> (\<exists>v xs. cycle_at succs (\<lambda>m. \<not> isLoop nodes m) v xs)) \<and>
    (\<forall>p \<in> set (lg_Problems g). lp_Code p = codeLoopCycle \<longrightarrow>
       (\<exists>v path. cycle_at succs (\<lambda>m. \<not> isLoop nodes m) v path \<and> lp_Origin p = gn_Origin (nodes ! v) \<and>
          lp_Message p = renderCycleProblem edgs (lg_idx g) path))"
proof -
  obtain g ps where g: "finishGraph nodes succs edgs edge depthCap = Some g" "gi_nodes (lg_idx g) = nodes"
    "set (lg_Problems g) = set ps \<union> set (depthProblems nodes depthCap)"
    "ps = [] \<longleftrightarrow> \<not> (\<exists>v xs. cycle_at succs (\<lambda>m. \<not> isLoop nodes m) v xs)"
    "\<forall>p \<in> set ps. \<exists>v path. cycle_at succs (\<lambda>m. \<not> isLoop nodes m) v path \<and> p = cycleProblem edgs (lg_idx g) v path"
    by (rule finishGraph_run [OF ok, of edgs edge depthCap]) simp
  have code: "p \<in> set ps \<longleftrightarrow> lp_Code p = codeLoopCycle" if "p \<in> set (lg_Problems g)" for p
    using that g(3,5) depthProblems_code [of p] by (auto simp: cycleProblem_def)
  have "(\<exists>p \<in> set (lg_Problems g). lp_Code p = codeLoopCycle) \<longleftrightarrow> ps \<noteq> []"
    using code g(3) by (metis UnI1 list.set_intros(1) neq_Nil_conv length_pos_if_in_set length_greater_0_conv)
  moreover have "\<exists>v path. cycle_at succs (\<lambda>m. \<not> isLoop nodes m) v path \<and> lp_Origin p = gn_Origin (nodes ! v) \<and>
      lp_Message p = renderCycleProblem edgs (lg_idx g) path"
    if "p \<in> set (lg_Problems g)" "lp_Code p = codeLoopCycle" for p
    using code [OF that(1)] that(2) g(2,5) by (fastforce simp: cycleProblem_def)
  ultimately show ?thesis using g(1,4) by blast
qed

definition sample_nodes :: "graphNode list" where
  "sample_nodes = [\<lparr>gn_Name = ''a'', gn_Origin = ''o1'', gn_Loop = None\<rparr>, \<lparr>gn_Name = ''b'', gn_Origin = ''o2'', gn_Loop = None\<rparr>]"

lemma sample_cycle: "cycle_at [[1], [0]] (\<lambda>m. \<not> isLoop sample_nodes m) 0 [0, 1, 0]" "graph_ok (length sample_nodes) [[1], [0]]"
  by (simp_all add: cycle_at_def walk_def edges_def isLoop_def sample_nodes_def graph_ok_def)

theorem static_check_exact_witness:
  "\<exists>g. finishGraph sample_nodes [[1], [0]] [] (\<lambda>_. None) 0 = Some g \<and> (\<exists>p \<in> set (lg_Problems g). lp_Code p = codeLoopCycle)"
  using static_check_exact [OF sample_cycle(2), of "[]" "\<lambda>_. None" 0] sample_cycle(1) by blast

text \<open>
  C40. A candidate is refused for the cycles it closes, and only for them. In a judged graph, the
  automation at an origin gets a problem exactly when some cycle through it passes no automation with a
  \<^verbatim>\<open>@loop\<close>; the problem is its own and prints such a cycle through it.
\<close>

theorem problemThrough_exact:
  assumes "graph_ok (length nodes) succs" and "finishGraph nodes succs edgs edge depthCap = Some g"
    and "originIndex nodes origin = Some k"
  shows "problemThrough g origin \<noteq> None \<and>
    (problemThrough g origin = Some None \<longleftrightarrow> \<not> (\<exists>xs. cycle_at succs (\<lambda>m. \<not> isLoop nodes m) k xs)) \<and>
    (\<forall>p. problemThrough g origin = Some (Some p) \<longrightarrow>
       (\<exists>path. cycle_at succs (\<lambda>m. \<not> isLoop nodes m) k path \<and> p = cycleProblem edgs (lg_idx g) k path))"
  using problemThrough_run [OF assms] by auto

theorem problemThrough_exact_witness:
  "\<exists>g p. finishGraph sample_nodes [[1], [0]] [] (\<lambda>_. None) 0 = Some g \<and> problemThrough g ''o1'' = Some (Some p)"
proof -
  obtain g where g: "finishGraph sample_nodes [[1], [0]] [] (\<lambda>_. None) 0 = Some g"
    by (rule finishGraph_run [OF sample_cycle(2), of "[]" "\<lambda>_. None" 0])
  have "originIndex sample_nodes ''o1'' = Some 0" by (simp add: sample_nodes_def)
  from problemThrough_exact [OF sample_cycle(2) g this] sample_cycle(1)
  have "problemThrough g ''o1'' \<noteq> None" "problemThrough g ''o1'' \<noteq> Some None" by auto
  then show ?thesis using g by (metis not_Some_eq)
qed

end
