(* ===== verification/LoopBuild.thy ===== *)
theory LoopBuild
  imports FilterRuns CallGraph LoopCheck
begin

text \<open>
  The first half of \<^verbatim>\<open>BuildLoopGraph\<close> (component/automations/loop_graph.go,
  loop_graph_before_write.go, the edge's reason of loop_graph_report.go): what an automation's steps do,
  what each of its writes is known to put in a row, the topics it publishes, its sub-automations' included, and the edges drawn from them.
\<close>

section \<open>Steps\<close>

text \<open>
  A value of a step: an expression parsed at load, plain JSON, or a container of such. A compiled
  expression that does not parse is an expression that is no literal.
\<close>

datatype stepVal = Leaf expr | Plain xval | SMap "(string \<times> stepVal) list" | SList "stepVal list"

text \<open>A step as the graph reads it; the topic of an event step is empty when it is an expression.\<close>

datatype gstep =
    FunctionStep string "(string \<times> stepVal) list"
  | AutomationStep string
  | EventStep string "(string \<times> stepVal) list"
  | ActionStep string
  | ForEachStep "gstep list"
  | ParallelStep "gstep list"
  | BlockStep "gstep list"
  | FieldWriteStep string
  | PureStep

record graphAutomation =
  ga_Name :: string
  ga_Origin :: string
  ga_Enabled :: bool
  ga_Loop :: "int option"
  ga_Event :: string
  ga_FilterText :: string
  ga_Filter :: "string + triggerFilter option"
  ga_Args :: "argsField list"
  ga_Steps :: "gstep list"
  ga_BeforeWrite :: "(string \<times> string) option"

record stepFacts =
  sf_calls :: "(string \<times> (string \<times> stepVal) list) list"
  sf_subs :: "string list"
  sf_publishes :: "(string \<times> (string \<times> stepVal) list) list"
  sf_opaque :: "string list"

definition noFacts :: stepFacts where
  "noFacts = \<lparr>sf_calls = [], sf_subs = [], sf_publishes = [], sf_opaque = []\<rparr>"

definition joinFacts :: "stepFacts \<Rightarrow> stepFacts \<Rightarrow> stepFacts" where
  "joinFacts a b = \<lparr>sf_calls = sf_calls a @ sf_calls b, sf_subs = sf_subs a @ sf_subs b,
     sf_publishes = sf_publishes a @ sf_publishes b, sf_opaque = sf_opaque a @ sf_opaque b\<rparr>"

fun visitStep :: "gstep \<Rightarrow> stepFacts" where
  "visitStep (FunctionStep n args) = noFacts\<lparr>sf_calls := [(n, args)]\<rparr>"
| "visitStep (AutomationStep n) = noFacts\<lparr>sf_subs := [n]\<rparr>"
| "visitStep (EventStep t p) = noFacts\<lparr>sf_publishes := [(t, p)]\<rparr>"
| "visitStep (ActionStep r) = noFacts\<lparr>sf_opaque := [''action '' @ r]\<rparr>"
| "visitStep (ForEachStep ss) = foldr joinFacts (map visitStep ss) noFacts"
| "visitStep (ParallelStep ss) = foldr joinFacts (map visitStep ss) noFacts"
| "visitStep (BlockStep ss) = foldr joinFacts (map visitStep ss) noFacts"
| "visitStep _ = noFacts"

definition collectStepFacts :: "graphAutomation \<Rightarrow> stepFacts" where
  "collectStepFacts a = foldr joinFacts (map visitStep (ga_Steps a)) noFacts"

section \<open>What a write is known to set\<close>

fun literalArg :: "stepVal \<Rightarrow> xval option" where
  "literalArg (Leaf n) = (case Unparen n of LiteralE v \<Rightarrow> Some v | NilE \<Rightarrow> Some VNil | _ \<Rightarrow> None)"
| "literalArg (Plain v) = Some v"
| "literalArg (SMap m) = map_option VMap (those (map (\<lambda>p. map_option (Pair (fst p)) (literalArg (snd p))) m))"
| "literalArg (SList xs) = map_option VList (those (map (\<lambda>x. literalArg x) xs))"

text \<open>Value, whether it is passed, and whether it is a literal.\<close>

definition callSiteArg :: "(string \<times> stepVal) list \<Rightarrow> string \<Rightarrow> xval \<times> bool \<times> bool" where
  "callSiteArg args name =
     (case map_of args name of
        None \<Rightarrow> (VNil, False, False)
      | Some v \<Rightarrow> (case literalArg v of None \<Rightarrow> (VNil, True, False) | Some lit \<Rightarrow> (lit, True, True)))"

datatype fieldFate = FateKnown xval | FateAbsent | FateUnknown string

definition newRowOf :: "xval WriteSpec \<Rightarrow> bool" where
  "newRowOf spec \<longleftrightarrow> ws_Kind spec = ''insert'' \<and> ws_NewRow spec"

definition possessive :: string where
  "possessive = [CHR 0x27, CHR 0x73]"

definition keepsText :: string where
  "keepsText = ''the row keeps the value already stored''"

definition fateOf :: "xval Write \<Rightarrow> (string \<times> stepVal) list \<Rightarrow> string \<Rightarrow> xval FieldValue \<Rightarrow> fieldFate" where
  "fateOf w args f fv =
     (let mut = wr_Mutation w; arg = fv_Arg fv; sets = mut @ '' sets '' @ f @ '' to args.'' @ arg
      in if fv_HasLiteral fv then FateKnown (fv_Literal fv)
         else if arg \<noteq> '''' \<and> length (wr_Path w) = 1 then
           (case callSiteArg args arg of (v, passed, literal) \<Rightarrow>
              if \<not> passed \<and> newRowOf (wr_Spec w) then FateAbsent
              else if \<not> passed then FateUnknown (sets @ '', which the call leaves out, so '' @ keepsText)
              else if literal then FateKnown v
              else FateUnknown (sets @ '', known only at run time''))
         else if arg \<noteq> '''' then FateUnknown (sets @ '', known only at run time'')
         else FateUnknown (mut @ '' sets '' @ f @ '' to a value computed at run time''))"

definition fates :: "xval Write \<Rightarrow> (string \<times> stepVal) list \<Rightarrow> (string \<times> fieldFate) list" where
  "fates w args = map (\<lambda>q. (fst q, fateOf w args (fst q) (snd q))) (ws_Fields (wr_Spec w))"

fun knownOf :: "string \<times> fieldFate \<Rightarrow> xmap" where
  "knownOf (f, FateKnown v) = [(f, v)]"
| "knownOf _ = []"

fun whysOf :: "string \<times> fieldFate \<Rightarrow> (string \<times> string) list" where
  "whysOf (f, FateUnknown y) = [(f, y)]"
| "whysOf _ = []"

definition kindKnown :: "xval WriteSpec \<Rightarrow> bool" where
  "kindKnown spec \<longleftrightarrow> ws_Kind spec = ''insert'' \<or> ws_Kind spec = ''update''"

definition explainWrite :: "xval Write \<Rightarrow> (string \<times> string) list \<Rightarrow> bool \<Rightarrow> string \<Rightarrow> string" where
  "explainWrite w whys updatedTopic f =
     (case map_of whys f of
        Some s \<Rightarrow> s
      | None \<Rightarrow>
          let mut = wr_Mutation w
          in if \<not> kindKnown (wr_Spec w) then mut @ possessive @ '' write is not known at load''
             else if f = ''firstVersion'' \<and> updatedTopic then ''a graph.node.updated event carries no firstVersion of its own''
             else if f = ''firstVersion''
             then mut @ '' may write a row that already exists, so whether this is its first version is known only at run time''
             else if ws_Kind (wr_Spec w) = ''update''
             then mut @ '' updates the row without setting '' @ f @ '', so '' @ keepsText
             else mut @ '' does not set '' @ f @ '' where the load can read it'')"

definition writeRow :: "xval Write \<Rightarrow> (string \<times> stepVal) list \<Rightarrow> bool \<Rightarrow> knownRow" where
  "writeRow w args updatedTopic =
     (let spec = wr_Spec w; fs = fates w args
      in \<lparr>kr_Concept = wr_Concept w,
          kr_Fields = concat (map knownOf fs),
          kr_Absent = map fst (filter (\<lambda>q. snd q = FateAbsent) fs),
          kr_OthersKnown = newRowOf spec,
          kr_FirstVersion = (if updatedTopic \<or> \<not> kindKnown spec then triUnknown
                             else if ws_Kind spec = ''update'' then triFalse
                             else if newRowOf spec then triTrue else triUnknown),
          kr_Unknown = map fst (concat (map whysOf fs)),
          kr_explain = Some (explainWrite w (concat (map whysOf fs)) updatedTopic)\<rparr>)"

section \<open>Productions\<close>

record production =
  pr_kind :: string
  pr_concept :: string
  pr_topic :: string
  pr_via :: "string list"
  pr_row :: knownRow

definition kindPublish :: string where
  "kindPublish = ''publish''"

definition writeProductions :: "xval Write \<Rightarrow> (string \<times> stepVal) list \<Rightarrow> string list \<Rightarrow> production list" where
  "writeProductions w args via =
     (let produce = (\<lambda>base upd. \<lparr>pr_kind = ws_Kind (wr_Spec w), pr_concept = wr_Concept w,
            pr_topic = BuildTopicWithConcept base (wr_Concept w), pr_via = via, pr_row = writeRow w args upd\<rparr>)
      in produce TopicGraphNodeCreated False #
         (if ws_Kind (wr_Spec w) \<noteq> ''insert'' then [produce TopicGraphNodeUpdated True] else []))"

definition publishProduction :: "string \<times> (string \<times> stepVal) list \<Rightarrow> string list \<Rightarrow> production" where
  "publishProduction p via =
     (let lits = concat (map (\<lambda>q. case literalArg (snd q) of Some v \<Rightarrow> [(fst q, v)] | None \<Rightarrow> []) (snd p));
          rest = map fst (filter (\<lambda>q. literalArg (snd q) = None) (snd p))
      in \<lparr>pr_kind = kindPublish, pr_concept = '''', pr_topic = fst p, pr_via = via,
          pr_row = \<lparr>kr_Concept = '''', kr_Fields = lits, kr_Absent = [], kr_OthersKnown = True,
             kr_FirstVersion = (case map_of lits ''firstVersion'' of Some (VBool b) \<Rightarrow> triOf b | _ \<Rightarrow> triUnknown),
             kr_Unknown = rest,
             kr_explain = Some (\<lambda>f. if f \<in> set rest then ''the event'' @ possessive @ '' '' @ f @ '' is computed at run time''
                                    else ''the event'' @ possessive @ '' '' @ f @ '' is known only at run time'')\<rparr>\<rparr>)"

section \<open>Hooks before a write\<close>

text \<open>The fields the steps of a hook assign; an assignment the graph cannot resolve has no name.\<close>

fun fieldWrites :: "gstep \<Rightarrow> string list" where
  "fieldWrites (FieldWriteStep f) = [f]"
| "fieldWrites (BlockStep ss) = concat (map fieldWrites ss)"
| "fieldWrites (ForEachStep ss) = concat (map fieldWrites ss)"
| "fieldWrites (ParallelStep ss) = concat (map fieldWrites ss)"
| "fieldWrites _ = []"

definition hookApplies :: "production \<Rightarrow> graphAutomation \<Rightarrow> bool" where
  "hookApplies p a \<longleftrightarrow>
     (case ga_BeforeWrite a of
        None \<Rightarrow> False
      | Some (occ, concept) \<Rightarrow>
          concept = pr_concept p \<and> \<not> (occ = ''create'' \<and> pr_kind p = ''update'') \<and>
          \<not> (occ = ''update'' \<and> pr_kind p = ''insert'' \<and> kr_FirstVersion (pr_row p) = triTrue))"

text \<open>Each field the hooks may replace, with the last hook that does.\<close>

definition hookWrites :: "graphAutomation list \<Rightarrow> production \<Rightarrow> (string \<times> string) list" where
  "hookWrites nodes p =
     concat (map (\<lambda>a. map (\<lambda>f. (f, ga_Name a)) (concat (map fieldWrites (ga_Steps a)))) (filter (hookApplies p) nodes))"

text \<open>The row after the hooks, given what they assign.\<close>

definition hookedRow :: "(string \<times> string) list \<Rightarrow> knownRow \<Rightarrow> knownRow" where
  "hookedRow ws row =
        (let unresolved = filter (\<lambda>q. fst q = '''') ws;
            allFields = (if unresolved = [] then '''' else snd (last unresolved));
            named = rev (filter (\<lambda>q. fst q \<noteq> '''') ws);
            changed = (if allFields \<noteq> '''' then map (\<lambda>f. (f, allFields)) (map fst (kr_Fields row) @ kr_Absent row) else []) @ named
        in if changed = [] \<and> allFields = '''' then row
           else row\<lparr>kr_Fields := filter (\<lambda>q. fst q \<notin> fst ` set changed) (kr_Fields row),
                  kr_Absent := filter (\<lambda>f. f \<notin> fst ` set changed) (kr_Absent row),
                  kr_OthersKnown := kr_OthersKnown row \<and> allFields = '''',
                  kr_Unknown := kr_Unknown row @ map fst changed,
                  kr_explain := Some (\<lambda>f. case map_of changed f of
                      Some hook \<Rightarrow> ''before-write automation '' @ hook @ '' may replace '' @ f @
                        '' before the original write publishes its event''
                    | None \<Rightarrow>
                        if allFields \<noteq> ''''
                        then ''before-write automation '' @ allFields @ '' has a field assignment the graph cannot resolve''
                        else case kr_explain row of Some prior \<Rightarrow> prior f | None \<Rightarrow> '''')\<rparr>)"

lemma hookedRow_Nil [simp]: "hookedRow [] row = row"
  by (simp add: hookedRow_def)

definition invalidateBeforeWriteFields :: "graphAutomation list \<Rightarrow> production \<Rightarrow> production" where
  "invalidateBeforeWriteFields nodes p =
     (if pr_kind p = kindPublish \<or> pr_concept p = '''' then p
      else p\<lparr>pr_row := hookedRow (hookWrites nodes p) (pr_row p)\<rparr>)"

section \<open>The builder\<close>

record graphBuilder =
  gb_reg :: "xval Registry"
  gb_nodes :: "graphAutomation list"
  gb_byName :: "string \<Rightarrow> nat option"

definition factsAt :: "graphBuilder \<Rightarrow> nat \<Rightarrow> stepFacts" where
  "factsAt b i = collectStepFacts (gb_nodes b ! i)"

definition ownProductions :: "graphBuilder \<Rightarrow> nat \<Rightarrow> string list \<Rightarrow> production list" where
  "ownProductions b i pre =
     concat (map (\<lambda>c. concat (map (\<lambda>w. writeProductions w (snd c) (pre @ wr_Path w)) (UnionWrites [fst c] (gb_reg b))))
               (sf_calls (factsAt b i))) @
     map (\<lambda>p. publishProduction p pre) (sf_publishes (factsAt b i))"

text \<open>
  The walk over sub-automations: each entered once, by index, its productions through the path of
  names it was reached by, its own sub-automations before the next name.
\<close>

function (domintros) subWalk :: "graphBuilder \<Rightarrow> string list \<Rightarrow> string list \<Rightarrow> nat list \<times> production list \<Rightarrow> nat list \<times> production list"
where
  "subWalk b [] path st = st"
| "subWalk b (n # ns) path st =
     (case gb_byName b n of
        None \<Rightarrow> subWalk b ns path st
      | Some k \<Rightarrow>
          if k \<in> set (fst st) \<or> length (gb_nodes b) \<le> k then subWalk b ns path st
          else subWalk b ns path
                 (subWalk b (sf_subs (factsAt b k)) (path @ [n]) (k # fst st, snd st @ ownProductions b k (path @ [n]))))"
  by pat_completeness auto

lemma subWalk_seen:
  "subWalk_dom (b, ns, path, st) \<Longrightarrow> set (fst st) \<subseteq> set (fst (subWalk b ns path st))"
proof (induction b ns path st rule: subWalk.pinduct)
  case (2 b n ns path st)
  show ?case
  proof (cases "gb_byName b n")
    case None
    then show ?thesis using 2 by (simp add: subWalk.psimps)
  next
    case (Some k)
    show ?thesis
    proof (cases "k \<in> set (fst st) \<or> length (gb_nodes b) \<le> k")
      case True
      then show ?thesis using 2(1) 2(3) [OF Some True] Some by (simp add: subWalk.psimps)
    next
      case False
      then show ?thesis using 2(1) 2(4,5) [OF Some False] Some by (auto simp: subWalk.psimps)
    qed
  qed
qed (simp add: subWalk.psimps)

definition unseen :: "graphBuilder \<Rightarrow> nat list \<Rightarrow> nat" where
  "unseen b seen = card ({..<length (gb_nodes b)} - set seen)"

lemma unseen_enter:
  assumes "k < length (gb_nodes b)" "k \<notin> set seen" "set (k # seen) \<subseteq> set seen'"
  shows "unseen b seen' < unseen b seen"
  unfolding unseen_def by (rule psubset_card_mono) (use assms in auto)

termination subWalk
proof (relation "measures [\<lambda>(b, ns, path, st). unseen b (fst st), \<lambda>(b, ns, path, st). length ns]", goal_cases)
  case (4 b n ns path st k)
  then show ?case using unseen_enter [of k b "fst st" "k # fst st"] by auto
next
  case (5 b n ns path st k)
  then have "set (k # fst st) \<subseteq>
      set (fst (subWalk b (sf_subs (factsAt b k)) (path @ [n]) (k # fst st, snd st @ ownProductions b k (path @ [n]))))"
    using subWalk_seen by fastforce
  then show ?case using 5 unseen_enter [of k b "fst st"] by auto
qed auto

text \<open>The stable sort of the productions, by what the comparison reads; the path is compared joined by a zero byte.\<close>

definition productionKey :: "production \<Rightarrow> string \<times> string \<times> string \<times> string" where
  "productionKey p = (pr_topic p, pr_concept p, pr_kind p, Join (pr_via p) [CHR 0x00])"

definition productions :: "graphBuilder \<Rightarrow> nat \<Rightarrow> production list" where
  "productions b i =
     (if ga_BeforeWrite (gb_nodes b ! i) \<noteq> None then []
      else let out = snd (subWalk b (sf_subs (factsAt b i)) [] ([i], ownProductions b i []))
           in sort_key productionKey (map (invalidateBeforeWriteFields (gb_nodes b)) out))"

section \<open>Edges\<close>

definition kindWord :: "string \<Rightarrow> string" where
  "kindWord kind = (if kind = '''' then ''a write of unknown kind'' else kind)"

text \<open>The words of a reason; how an expression is printed is the argument \<open>fmt\<close>.\<close>

fun whyText :: "(expr \<Rightarrow> string) \<Rightarrow> why \<Rightarrow> string" where
  "whyText fmt NoWhy = ''''"
| "whyText fmt (WhyText s) = s"
| "whyText fmt (WhyColumn f) = ''the row'' @ possessive @ '' '' @ f @ '' is known only at run time''"
| "whyText fmt (WhyEnvelope f) = ''the event'' @ possessive @ '' '' @ f @ '' is known only at run time''"
| "whyText fmt (NotEvaluated e) = fmt e @ '' is not evaluated at load''"
| "whyText fmt (NotLambda ps e) = fmt (LambdaE ps e) @ '' is not a one-parameter lambda''"

definition edgeReason ::
  "(expr \<Rightarrow> string) \<Rightarrow> graphAutomation \<Rightarrow> graphAutomation \<Rightarrow> production \<Rightarrow> tri \<Rightarrow> why \<Rightarrow> string" where
  "edgeReason fmt frm till p t y =
     (let through = (if pr_via p \<noteq> [] then '' through '' @ Join (pr_via p) '' -> '' else '''');
          subject = (if pr_kind p = kindPublish then ''this event'' else ''this write'');
          what = (if pr_kind p = kindPublish \<and> pr_topic p = '''' then
                    ga_Name frm @ '' publishes an event whose topic is known only at run time'' @ through @ '', and '' @
                    ga_Name till @ '' triggers on the raw topic '' @ ga_Event till
                  else if pr_kind p = kindPublish then
                    ga_Name frm @ '' publishes '' @ pr_topic p @ through @ '', and '' @ ga_Name till @ '' triggers on it''
                  else ga_Name frm @ '' writes '' @ pr_concept p @ through @ '' ('' @ kindWord (pr_kind p) @ ''), which publishes '' @
                    pr_topic p @ '', and '' @ ga_Name till @ '' triggers on it'');
          filt = TrimSpace (ga_FilterText till)
      in what @ (if filt = '''' then '' with no @filter''
                 else if t = triTrue then ''; its @filter '' @ filt @ '' holds for '' @ subject
                 else ''; its @filter '' @ filt @ '' could not be decided: '' @ whyText fmt y))"

definition matchesProduction :: "string \<Rightarrow> production \<Rightarrow> bool" where
  "matchesProduction pattern p =
     (if pr_topic p \<noteq> '''' then Match pattern (pr_topic p)
      else pr_kind p = kindPublish \<and> \<not> HasPrefix pattern ''graph.'')"

text \<open>The verdict on one production: a filter that does not parse is undecided.\<close>

definition edgeVerdict :: "graphAutomation \<Rightarrow> production \<Rightarrow> verdict3" where
  "edgeVerdict till p =
     (case ga_Filter till of
        Inl err \<Rightarrow> (triUnknown, WhyText err)
      | Inr None \<Rightarrow> (triTrue, NoWhy)
      | Inr (Some lam) \<Rightarrow> decideFilter (Some lam) (pr_row p) (declaredArgs (ga_Args till)))"

type_synonym best = "(production \<times> bool \<times> tri \<times> why) option"

fun scanProductions :: "graphAutomation \<Rightarrow> best \<Rightarrow> production list \<Rightarrow> best" where
  "scanProductions till best [] = best"
| "scanProductions till best (p # ps) =
     (if \<not> matchesProduction (ga_Event till) p then scanProductions till best ps
      else let (t, y) = edgeVerdict till p
           in if t = triFalse then scanProductions till best ps
              else let decided = (t = triTrue \<and> pr_topic p \<noteq> '''');
                       bestDecided = (case best of None \<Rightarrow> False | Some (_, dec, _) \<Rightarrow> dec);
                       best' = (if best = None \<or> (decided \<and> \<not> bestDecided) then Some (p, decided, t, y) else best)
                   in if (case best' of None \<Rightarrow> False | Some (_, dec, _) \<Rightarrow> dec) then best'
                      else scanProductions till best' ps)"

definition edgeBetween :: "(expr \<Rightarrow> string) \<Rightarrow> graphAutomation \<Rightarrow> graphAutomation \<Rightarrow> production list \<Rightarrow> GraphEdge option" where
  "edgeBetween fmt frm till prods =
     (case scanProductions till None prods of
        None \<Rightarrow> None
      | Some (p, decided, t, y) \<Rightarrow>
          Some \<lparr>ge_From = ga_Name frm, ge_To = ga_Name till, ge_Concept = pr_concept p, ge_Topic = pr_topic p,
                ge_Via = pr_via p, ge_Decided = decided, ge_Reason = edgeReason fmt frm till p t y\<rparr>)"

section \<open>The graph\<close>

text \<open>A name is that of its first automation, a global one before an authored one.\<close>

definition authored :: "graphAutomation \<Rightarrow> bool" where
  "authored a \<longleftrightarrow> HasPrefix (ga_Origin a) ''authored:''"

definition enterName :: "graphAutomation list \<Rightarrow> (string \<Rightarrow> nat option) \<Rightarrow> nat \<Rightarrow> string \<Rightarrow> nat option" where
  "enterName nodes m i =
     (let a = nodes ! i
      in case m (ga_Name a) of
           None \<Rightarrow> m(ga_Name a \<mapsto> i)
         | Some prior \<Rightarrow> if authored (nodes ! prior) \<and> \<not> authored a then m(ga_Name a \<mapsto> i) else m)"

definition newBuilder :: "xval Registry \<Rightarrow> graphAutomation list \<Rightarrow> graphBuilder" where
  "newBuilder reg automations =
     (let nodes = sort_key (\<lambda>a. (ga_Name a, ga_Origin a)) (filter ga_Enabled automations)
      in \<lparr>gb_reg = reg, gb_nodes = nodes, gb_byName = foldl (enterName nodes) (\<lambda>_. None) [0..<length nodes]\<rparr>)"

definition successors :: "(expr \<Rightarrow> string) \<Rightarrow> graphBuilder \<Rightarrow> nat \<Rightarrow> (nat \<times> GraphEdge) list" where
  "successors fmt b i =
     (let prods = productions b i
      in concat (map (\<lambda>j. let till = gb_nodes b ! j
           in if ga_Event till = '''' then []
              else case edgeBetween fmt (gb_nodes b ! i) till prods of None \<Rightarrow> [] | Some e \<Rightarrow> [(j, e)]) [0..<length (gb_nodes b)]))"

definition graphSuccs :: "(expr \<Rightarrow> string) \<Rightarrow> graphBuilder \<Rightarrow> nat list list" where
  "graphSuccs fmt b = map (\<lambda>i. map fst (successors fmt b i)) [0..<length (gb_nodes b)]"

text \<open>Where the edge of a pair stands in the list of edges.\<close>

fun edgePos :: "nat \<Rightarrow> (nat \<times> nat) list \<Rightarrow> nat \<times> nat \<Rightarrow> nat option" where
  "edgePos k [] q = None"
| "edgePos k (p # ps) q = (if p = q then Some k else edgePos (Suc k) ps q)"

definition BuildLoopGraph :: "(expr \<Rightarrow> string) \<Rightarrow> xval Registry \<Rightarrow> graphAutomation list \<Rightarrow> int \<Rightarrow> LoopGraph option" where
  "BuildLoopGraph fmt reg automations depthCap =
     (let b = newBuilder reg automations; n = length (gb_nodes b);
          all = concat (map (\<lambda>i. map (\<lambda>q. ((i, fst q), snd q)) (successors fmt b i)) [0..<n])
      in finishGraph (map (\<lambda>a. \<lparr>gn_Name = ga_Name a, gn_Origin = ga_Origin a, gn_Loop = ga_Loop a\<rparr>) (gb_nodes b))
           (graphSuccs fmt b) (map snd all) (edgePos 0 (map fst all)) depthCap)"

section \<open>What the productions cover\<close>

text \<open>The automations whose steps run in a run of \<open>i\<close>: itself, and the sub-automations those call.\<close>

inductive runsIn :: "graphBuilder \<Rightarrow> nat \<Rightarrow> nat \<Rightarrow> bool" for b i where
  itself: "runsIn b i i"
| sub: "runsIn b i k \<Longrightarrow> n \<in> set (sf_subs (factsAt b k)) \<Longrightarrow> gb_byName b n = Some m \<Longrightarrow> m < length (gb_nodes b) \<Longrightarrow> runsIn b i m"

text \<open>A sub-automation a list of names leads to.\<close>

definition subOf :: "graphBuilder \<Rightarrow> string list \<Rightarrow> nat set" where
  "subOf b ns = {m. m < length (gb_nodes b) \<and> (\<exists>n \<in> set ns. gb_byName b n = Some m)}"

lemma subOf_Cons:
  "subOf b (n # ns) = (case gb_byName b n of None \<Rightarrow> {} | Some k \<Rightarrow> if length (gb_nodes b) \<le> k then {} else {k}) \<union> subOf b ns"
  by (auto simp: subOf_def split: option.splits)

lemma subWalk_covers:
  "set (fst st) \<subseteq> set (fst (subWalk b ns path st)) \<and> set (snd st) \<subseteq> set (snd (subWalk b ns path st)) \<and>
   subOf b ns \<subseteq> set (fst (subWalk b ns path st)) \<and>
   (\<forall>k \<in> set (fst (subWalk b ns path st)) - set (fst st).
      subOf b (sf_subs (factsAt b k)) \<subseteq> set (fst (subWalk b ns path st)) \<and>
      (\<exists>p. set (ownProductions b k p) \<subseteq> set (snd (subWalk b ns path st))))"
proof (induction b ns path st rule: subWalk.induct)
  case (1 b path st)
  then show ?case by (simp add: subOf_def)
next
  case (2 b n ns path st)
  show ?case
  proof (cases "gb_byName b n")
    case None
    then show ?thesis using 2(1) [OF None] by (simp add: subOf_Cons)
  next
    case (Some k)
    show ?thesis
    proof (cases "k \<in> set (fst st) \<or> length (gb_nodes b) \<le> k")
      case True
      then have "subWalk b (n # ns) path st = subWalk b ns path st" by (simp add: Some)
      then show ?thesis using 2(2) [OF Some True] True by (auto simp: subOf_Cons Some)
    next
      case False
      define mid where "mid = subWalk b (sf_subs (factsAt b k)) (path @ [n]) (k # fst st, snd st @ ownProductions b k (path @ [n]))"
      define fin where "fin = subWalk b ns path mid"
      have w: "subWalk b (n # ns) path st = fin" using False by (simp add: Some fin_def mid_def)
      note m = 2(3) [OF Some False, folded mid_def] and f = 2(4) [OF Some False, folded mid_def, folded fin_def]
      have kin: "k \<in> set (fst fin)" using m f by auto
      have "subOf b (n # ns) \<subseteq> set (fst fin)" using f kin by (simp add: subOf_Cons Some)
      moreover have "subOf b (sf_subs (factsAt b x)) \<subseteq> set (fst fin) \<and> (\<exists>p. set (ownProductions b x p) \<subseteq> set (snd fin))"
        if x: "x \<in> set (fst fin) - set (fst st)" for x
      proof -
        consider "x = k" | "x \<in> set (fst mid) - set (k # fst st)" | "x \<in> set (fst fin) - set (fst mid)" using x m by auto
        then show ?thesis
        proof cases
          case 1
          have "set (ownProductions b k (path @ [n])) \<subseteq> set (snd fin)" using m f by auto
          then show ?thesis using 1 m f by blast
        next
          case 2
          then have "subOf b (sf_subs (factsAt b x)) \<subseteq> set (fst mid) \<and> (\<exists>p. set (ownProductions b x p) \<subseteq> set (snd mid))"
            using m by simp
          then show ?thesis using f by blast
        next
          case 3
          then show ?thesis using f by blast
        qed
      qed
      moreover have "set (fst st) \<subseteq> set (fst fin)" "set (snd st) \<subseteq> set (snd fin)" using m f by auto
      ultimately show ?thesis unfolding w by blast
    qed
  qed
qed

lemma runsIn_covered:
  assumes "runsIn b i k"
  defines "fin \<equiv> subWalk b (sf_subs (factsAt b i)) [] ([i], ownProductions b i [])"
  shows "k \<in> set (fst fin) \<and> (\<exists>p. set (ownProductions b k p) \<subseteq> set (snd fin))"
  using assms(1)
proof (induction rule: runsIn.induct)
  case itself
  show ?case using subWalk_covers [of "([i], ownProductions b i [])" b "sf_subs (factsAt b i)" "[]"] unfolding fin_def [symmetric] by auto
next
  case (sub k n m)
  note c = subWalk_covers [of "([i], ownProductions b i [])" b "sf_subs (factsAt b i)" "[]", folded fin_def]
  have "m \<in> subOf b (sf_subs (factsAt b k))" using sub by (auto simp: subOf_def)
  then have "m \<in> set (fst fin)" using c sub.IH by (cases "k = i") auto
  then show ?case using c by (cases "m = i") auto
qed

text \<open>The path a production was reached by changes nothing else of it.\<close>

lemma writeProductions_path: "writeProductions w args via = map (\<lambda>q. q\<lparr>pr_via := via\<rparr>) (writeProductions w args [])"
  by (simp add: writeProductions_def Let_def)

lemma publishProduction_path: "publishProduction p via = (publishProduction p [])\<lparr>pr_via := via\<rparr>"
  by (simp add: publishProduction_def Let_def)

lemma ownProductions_path:
  assumes "p \<in> set (ownProductions b k pre)"
  shows "\<exists>via. p\<lparr>pr_via := via\<rparr> \<in> set (ownProductions b k pre')"
proof -
  have written: ?thesis if w: "c \<in> set (sf_calls (factsAt b k))" "w \<in> set (UnionWrites [fst c] (gb_reg b))"
    and pw: "p \<in> set (writeProductions w (snd c) (pre @ wr_Path w))" for c w
  proof -
    have "p\<lparr>pr_via := pre' @ wr_Path w\<rparr> \<in> set (writeProductions w (snd c) (pre' @ wr_Path w))"
      using pw by (auto simp: writeProductions_path [of w "snd c" "pre @ wr_Path w"] writeProductions_path [of w "snd c" "pre' @ wr_Path w"])
    then show ?thesis using w by (force simp: ownProductions_def split_beta)
  qed
  have published: ?thesis if q: "q \<in> set (sf_publishes (factsAt b k))" "p = publishProduction q pre" for q
  proof -
    have "p\<lparr>pr_via := pre'\<rparr> = publishProduction q pre'"
      using q(2) by (simp add: publishProduction_path [of q pre] publishProduction_path [of q pre'])
    then show ?thesis using q(1) by (force simp: ownProductions_def split_beta)
  qed
  have "(\<exists>c \<in> set (sf_calls (factsAt b k)). \<exists>w \<in> set (UnionWrites [fst c] (gb_reg b)).
           p \<in> set (writeProductions w (snd c) (pre @ wr_Path w))) \<or> (\<exists>q \<in> set (sf_publishes (factsAt b k)). p = publishProduction q pre)"
    using assms by (force simp: ownProductions_def)
  then show ?thesis using written published by blast
qed

lemma invalidate_path: "invalidateBeforeWriteFields nodes (p\<lparr>pr_via := via\<rparr>) = (invalidateBeforeWriteFields nodes p)\<lparr>pr_via := via\<rparr>"
proof -
  have "hookApplies (p\<lparr>pr_via := via\<rparr>) = hookApplies p" by (simp add: fun_eq_iff hookApplies_def split: option.split)
  then have "hookWrites nodes (p\<lparr>pr_via := via\<rparr>) = hookWrites nodes p" by (simp add: hookWrites_def)
  then show ?thesis by (simp add: invalidateBeforeWriteFields_def)
qed

lemma productions_cover:
  assumes "ga_BeforeWrite (gb_nodes b ! i) = None" "runsIn b i k" "p \<in> set (ownProductions b k pre)"
  shows "\<exists>via. (invalidateBeforeWriteFields (gb_nodes b) p)\<lparr>pr_via := via\<rparr> \<in> set (productions b i)"
proof -
  obtain pre' where "set (ownProductions b k pre') \<subseteq> set (snd (subWalk b (sf_subs (factsAt b i)) [] ([i], ownProductions b i [])))"
    using runsIn_covered [OF assms(2)] by blast
  moreover obtain via where "p\<lparr>pr_via := via\<rparr> \<in> set (ownProductions b k pre')" using ownProductions_path [OF assms(3)] by blast
  ultimately have "invalidateBeforeWriteFields (gb_nodes b) (p\<lparr>pr_via := via\<rparr>) \<in> set (productions b i)"
    using assms(1) by (auto simp: productions_def Let_def)
  then show ?thesis unfolding invalidate_path by blast
qed

section \<open>Every fire is an edge\<close>

lemma scanProductions_keeps: "best \<noteq> None \<Longrightarrow> scanProductions till best ps \<noteq> None"
  by (induction ps arbitrary: best) (auto simp del: not_None_eq simp: Let_def split: prod.splits)

lemma scanProductions_finds:
  "p \<in> set ps \<Longrightarrow> matchesProduction (ga_Event till) p \<Longrightarrow> fst (edgeVerdict till p) \<noteq> triFalse \<Longrightarrow>
   scanProductions till best ps \<noteq> None"
proof (induction ps arbitrary: best)
  case (Cons q ps)
  show ?case
  proof (cases "p = q")
    case True
    then show ?thesis using Cons.prems by (auto simp del: not_None_eq intro!: scanProductions_keeps simp: Let_def split: prod.splits)
  next
    case False
    then show ?thesis using Cons by (auto simp del: not_None_eq simp: Let_def split: prod.splits)
  qed
qed simp

text \<open>
  An event of an automation's work: a write or a publish of its own steps, or of the steps of a sub-automation its run enters,
  published under the topic that write or publish names (or, where the topic is known only at run time, under any that the
  pattern of no graph trigger matches), with the row as it stands once the before-write hooks have run.
\<close>

definition carriesEvent :: "golib \<Rightarrow> graphAutomation \<Rightarrow> production \<Rightarrow> triggerEvent \<Rightarrow> bool" where
  "carriesEvent lib a p e \<longleftrightarrow>
     (te_Topic e = pr_topic p \<or> (pr_topic p = '''' \<and> pr_kind p = kindPublish \<and> \<not> HasPrefix (ga_Event a) ''graph.'')) \<and>
     reachesAs lib (pr_row p) (declaredArgs (ga_Args a)) e"

definition producesEvent :: "golib \<Rightarrow> graphBuilder \<Rightarrow> nat \<Rightarrow> nat \<Rightarrow> triggerEvent \<Rightarrow> bool" where
  "producesEvent lib b i j e \<longleftrightarrow>
     ga_BeforeWrite (gb_nodes b ! i) = None \<and>
     (\<exists>k p. runsIn b i k \<and> p \<in> set (ownProductions b k []) \<and>
        carriesEvent lib (gb_nodes b ! j) (invalidateBeforeWriteFields (gb_nodes b) p) e)"

lemma produced_by_a_production:
  assumes "producesEvent lib b i j e"
  obtains p where "p \<in> set (productions b i)" "carriesEvent lib (gb_nodes b ! j) p e"
proof -
  obtain k p where a: "ga_BeforeWrite (gb_nodes b ! i) = None" "runsIn b i k" "p \<in> set (ownProductions b k [])"
    and e: "carriesEvent lib (gb_nodes b ! j) (invalidateBeforeWriteFields (gb_nodes b) p) e"
    using assms unfolding producesEvent_def by blast
  obtain via where "(invalidateBeforeWriteFields (gb_nodes b) p)\<lparr>pr_via := via\<rparr> \<in> set (productions b i)"
    using productions_cover [OF a] by blast
  then show thesis by (rule that) (use e in \<open>simp add: carriesEvent_def\<close>)
qed

text \<open>The subscriber of automation \<open>j\<close> runs on the event: its pattern matches and its filter, parsed at load, lets it.\<close>

definition firedBy :: "golib \<Rightarrow> textlib \<Rightarrow> string \<Rightarrow> graphBuilder \<Rightarrow> nat \<Rightarrow> triggerEvent \<Rightarrow> bool" where
  "firedBy lib tx now b j e \<longleftrightarrow>
     (let a = gb_nodes b ! j
      in ga_Event a \<noteq> '''' \<and> te_Topic e \<noteq> '''' \<and> Match (ga_Event a) (te_Topic e) \<and>
         (case ga_Filter a of Inl _ \<Rightarrow> False | Inr filt \<Rightarrow> triggerFires lib tx now (ga_Args a) filt e))"

definition filtersOk :: "graphBuilder \<Rightarrow> bool" where
  "filtersOk b \<longleftrightarrow>
     (\<forall>i < length (gb_nodes b). \<forall>j < length (gb_nodes b). \<forall>p \<in> set (productions b i).
        case ga_Filter (gb_nodes b ! j) of Inl _ \<Rightarrow> True
        | Inr filt \<Rightarrow> filterOkFor (pr_row p) (declaredArgs (ga_Args (gb_nodes b ! j))) filt)"

lemma fire_is_edge:
  assumes ij: "i < length (gb_nodes b)" "j < length (gb_nodes b)" and ok: "filtersOk b"
    and e: "producesEvent lib b i j e" "firedBy lib tx now b j e"
  shows "j \<in> set (graphSuccs fmt b ! i)"
proof -
  let ?a = "gb_nodes b ! j"
  obtain p where p: "p \<in> set (productions b i)" and pe: "carriesEvent lib ?a p e" using e(1) by (rule produced_by_a_production)
  obtain filt where f: "ga_Filter ?a = Inr filt" "triggerFires lib tx now (ga_Args ?a) filt e"
    and m: "ga_Event ?a \<noteq> ''''" "te_Topic e \<noteq> ''''" "Match (ga_Event ?a) (te_Topic e)"
    using e(2) by (auto simp: firedBy_def Let_def split: sum.splits)
  have match: "matchesProduction (ga_Event ?a) p" using m pe by (auto simp: matchesProduction_def carriesEvent_def)
  have "filterOkFor (pr_row p) (declaredArgs (ga_Args ?a)) filt" using ok ij p f(1) by (fastforce simp: filtersOk_def)
  then have "fst (decideFilter filt (pr_row p) (declaredArgs (ga_Args ?a))) \<noteq> triFalse"
    using fires_not_refuted [OF _ _ f(2)] pe unfolding carriesEvent_def by blast
  then have "fst (edgeVerdict ?a p) \<noteq> triFalse" using f(1) by (cases filt) (simp_all add: edgeVerdict_def)
  then have "edgeBetween fmt (gb_nodes b ! i) ?a (productions b i) \<noteq> None"
    using scanProductions_finds [OF p match, of None] by (auto simp: edgeBetween_def split: option.splits)
  then have "j \<in> fst ` set (successors fmt b i)" using ij(2) m(1) by (force simp: successors_def Let_def split: option.splits)
  then show ?thesis using ij(1) by (simp add: graphSuccs_def)
qed

lemma graphSuccs_ok: "graph_ok (length (gb_nodes b)) (graphSuccs fmt b)"
proof -
  have "fst q < length (gb_nodes b)" if "q \<in> set (successors fmt b i)" for q i
    using that by (auto simp: successors_def Let_def split: if_splits option.splits)
  then show ?thesis by (auto simp: graph_ok_def graphSuccs_def)
qed

section \<open>Chains of fires\<close>

text \<open>An event of \<open>i\<close>'s work runs \<open>j\<close>, for some libraries, clock and contents of what the load does not know.\<close>

definition causes :: "graphBuilder \<Rightarrow> nat \<Rightarrow> nat \<Rightarrow> bool" where
  "causes b i j \<longleftrightarrow> (\<exists>lib tx now e. producesEvent lib b i j e \<and> firedBy lib tx now b j e)"

definition nodeOf :: "graphAutomation \<Rightarrow> graphNode" where
  "nodeOf a = \<lparr>gn_Name = ga_Name a, gn_Origin = ga_Origin a, gn_Loop = ga_Loop a\<rparr>"

lemma BuildLoopGraph_finish:
  obtains edgs pos where "BuildLoopGraph fmt reg automations depthCap =
    finishGraph (map nodeOf (gb_nodes (newBuilder reg automations))) (graphSuccs fmt (newBuilder reg automations)) edgs pos depthCap"
  unfolding BuildLoopGraph_def Let_def nodeOf_def by blast

lemma fires_walk:
  assumes "filtersOk b" "successively (causes b) xs" "list_all (\<lambda>i. i < length (gb_nodes b)) xs"
  shows "walk (graphSuccs fmt b) (\<lambda>m. m < length (gb_nodes b)) xs"
proof -
  have "length (graphSuccs fmt b) = length (gb_nodes b)" by (simp add: graphSuccs_def)
  then have "causes b i j \<Longrightarrow> i < length (gb_nodes b) \<Longrightarrow> j < length (gb_nodes b) \<Longrightarrow> (i, j) \<in> edges (graphSuccs fmt b)" for i j
    using fire_is_edge [OF _ _ assms(1)] by (auto simp: causes_def edges_def)
  then have "successively (\<lambda>x y. (x, y) \<in> edges (graphSuccs fmt b)) xs"
    using assms(2,3) by (intro successively_mono [OF assms(2)]) (auto simp: list_all_iff)
  then show ?thesis using assms(3) by (simp add: walk_def)
qed


definition touchWrite :: "xval Write" where
  "touchWrite = \<lparr>wr_Concept = ''v1:task'', wr_Mutation = ''touch'', wr_Path = [''touch''],
     wr_Spec = \<lparr>ws_Kind = ''insert'', ws_NewRow = True,
       ws_Fields = [(''status'', \<lparr>fv_Literal = VString ''open'', fv_HasLiteral = True, fv_Arg = ''''\<rparr>)]\<rparr>\<rparr>"

definition touchReg :: "xval Registry" where
  "touchReg = [(''touch'', \<lparr>tg_ConstructKind = ConstructMutation, tg_Calls = [], tg_Concept = ''v1:task'',
     tg_Effects = \<lparr>fo_Concepts = [], fo_Files = False, fo_Machine = False, fo_External = False, fo_Spend = False\<rparr>,
     tg_Write = Some (wr_Spec touchWrite)\<rparr>)]"

text \<open>\<^verbatim>\<open>row => row.status == "open"\<close>, on the automation that writes such a row itself.\<close>

definition openFilter :: expr where
  "openFilter = BinaryE ''=='' (member ''row'' ''status'') (LiteralE (VString ''open''))"

definition toucher :: graphAutomation where
  "toucher = \<lparr>ga_Name = ''a'', ga_Origin = ''o1'', ga_Enabled = True, ga_Loop = Some 2,
     ga_Event = ''graph.node.created.v1:task'', ga_FilterText = ''row => row.status == open'',
     ga_Filter = Inr (Some ([''row''], openFilter)), ga_Args = [], ga_Steps = [FunctionStep ''touch'' []], ga_BeforeWrite = None\<rparr>"

definition touchBuilder :: graphBuilder where
  "touchBuilder = newBuilder touchReg [toucher]"

lemma touch_writes: "UnionWrites [''touch''] touchReg = [touchWrite]"
  by (simp add: UnionWrites_def allWrites_def touchReg_def touchWrite_def visitWrite_def walks.simps Let_def)

lemma touch_nodes: "gb_nodes touchBuilder = [toucher]" "gb_reg touchBuilder = touchReg"
  by (simp_all add: touchBuilder_def newBuilder_def Let_def toucher_def)

lemma touch_hooks: "ga_BeforeWrite toucher = None" "invalidateBeforeWriteFields [toucher] p = p"
  by (simp_all add: invalidateBeforeWriteFields_def hookWrites_def hookApplies_def toucher_def)

lemma touch_own: "ownProductions touchBuilder 0 [] = writeProductions touchWrite [] [''touch'']"
proof -
  have f: "factsAt touchBuilder 0 = noFacts\<lparr>sf_calls := [(''touch'', [])]\<rparr>"
    by (simp add: factsAt_def collectStepFacts_def touch_nodes toucher_def joinFacts_def noFacts_def)
  show ?thesis by (simp add: ownProductions_def f noFacts_def touch_nodes touch_writes, simp add: touchWrite_def)
qed

definition openStored :: xmap where
  "openStored = [(''status'', VString ''open'')]"

lemma touch_fires: "causes touchBuilder 0 0"
proof -
  let ?row = "writeRow touchWrite [] False"
  have row: "kr_Concept ?row = ''v1:task''" "kr_Fields ?row = openStored" "kr_Absent ?row = []" "kr_Unknown ?row = []"
    "kr_FirstVersion ?row = triTrue"
    by (simp_all add: writeRow_def touchWrite_def fates_def fateOf_def kindKnown_def newRowOf_def openStored_def Let_def)
  have "completes ?row openStored" by (simp add: completes_def row, simp add: openStored_def)
  moreover have "conceptOk ?row" by (simp add: conceptOk_def row TrimSpace_def is_space_def)
  moreover have "agrees (kr_FirstVersion ?row, NoWhy) (\<not> False)" by (simp add: agrees_def row)
  ultimately have w: "written plainLib ?row (sampleEvent openStored)"
    using written_created [of ?row openStored False plainLib "''n1''" "''u1''" "''instance''" 5000 6000]
    by (simp add: sampleEvent_def row(1))
  have t: "te_Topic (sampleEvent openStored) = ''graph.node.created.v1:task''"
    by (simp add: sampleEvent_def createdEvent_def BuildTopicWithConcept_def topic_defs Let_def TrimSpace_def is_space_def)
  define p where "p = hd (writeProductions touchWrite [] [''touch''])"
  have p: "p \<in> set (ownProductions touchBuilder 0 [])" "pr_row p = ?row"
    by (simp_all add: p_def touch_own writeProductions_def Let_def)
  have "wr_Concept touchWrite = ''v1:task''" by (simp add: touchWrite_def)
  then have "pr_topic p = ''graph.node.created.v1:task''"
    by (simp add: p_def writeProductions_def Let_def BuildTopicWithConcept_def topic_defs TrimSpace_def is_space_def)
  then have "carriesEvent plainLib toucher p (sampleEvent openStored)" using w p(2) t by (simp add: carriesEvent_def reachesAs_def)
  then have "producesEvent plainLib touchBuilder 0 0 (sampleEvent openStored)"
    using p(1) runsIn.itself [of touchBuilder 0] by (auto simp: producesEvent_def touch_nodes touch_hooks)
  moreover have "triggerFires plainLib plainText ''t'' [] (Some ([''row''], openFilter)) (sampleEvent openStored)"
  proof -
    have "evaluateTriggerFilter plainLib ''t'' (Some ([''row''], openFilter)) (sampleEvent openStored) None = Inr True"
      by (simp add: evaluateTriggerFilter_def filterOptions_def filterScope_def bindScope_def sampleEvent_row openStored_def
          openFilter_def member_def filter_run_defs)
    moreover have "\<not> PayloadThinned (sampleEvent openStored)"
      by (simp add: PayloadThinned_def PayloadOmittedFieldsKey_def sampleEvent_def createdEvent_def Let_def map_of_mapsCopy
          map_add_def openStored_def)
    ultimately show ?thesis by (simp add: triggerFires_def bindEventArgs_def)
  qed
  moreover have "Match ''graph.node.created.v1:task'' ''graph.node.created.v1:task''" by code_simp
  ultimately have "producesEvent plainLib touchBuilder 0 0 (sampleEvent openStored) \<and>
      firedBy plainLib plainText ''t'' touchBuilder 0 (sampleEvent openStored)"
    by (simp add: firedBy_def touch_nodes t, simp add: toucher_def)
  then show ?thesis unfolding causes_def by blast
qed

lemma touch_filters: "filtersOk touchBuilder"
proof -
  have f: "ga_Filter toucher = Inr (Some ([''row''], openFilter))" by (simp add: toucher_def)
  have "filterOk d openFilter" for d by (simp add: openFilter_def member_def TrimSpace_def is_space_def)
  then show ?thesis by (simp add: filtersOk_def touch_nodes f filterOkFor_def)
qed


end
