(* ===== verification/ExprRuns.thy ===== *)
theory ExprRuns
  imports ExprTypes
begin

text \<open>
  What the evaluator guarantees of every run, read off the induction of ExprSound through the
  interpretations below: no panic, no run past its budget, well-formed answers, and that the
  loader's estimate of an expression's cost covers the run.
\<close>

section \<open>Every run\<close>

lemma tick_runStep: "runStep (budgetOf o1) s (err_of (fst (tick o1 s))) (snd (tick o1 s))"
  by (auto simp: runStep_def tick_def split: option.split)

lemma allNodes_True: "allNodes (nodeOk (\<lambda>_. True) \<infinity> True) e"
proof -
  have n: "nodeOk (\<lambda>_. True) \<infinity> True e" for e by (simp add: nodeOk_def split: expr.split)
  have "(\<And>e. p e) \<Longrightarrow> allNodes p e" for p
    by (induction p e rule: allNodes.induct) (auto simp: list_all_iff split: option.split)
  then show ?thesis using n by blast
qed

interpretation anyRun: eval_law "runStep (budgetOf o1)" "\<lambda>_. True" \<infinity> \<infinity> True o1 \<infinity> for o1
  by unfold_locales (simp_all add: tick_runStep allNodes_True)

lemma scope_any: "scope_ok (\<lambda>_. True) sc"
  by (induction sc) auto

lemma every_run:
  "runStep (budgetOf o1) s (err_of (fst (eval o1 d sc e s))) (snd (eval o1 d sc e s))"
  "runStep (budgetOf o1) s (err_of (fst (evalCondition o1 d sc e s))) (snd (evalCondition o1 d sc e s))"
  using anyRun.eval_sat [OF scope_any allNodes_True, of o1 e d sc]
    anyRun.evalCondition_sat [OF scope_any allNodes_True, of o1 e d sc]
  unfolding sat_def by blast+

section \<open>Well-formed runs\<close>

text \<open>What a run starts from: a root scope, hooks and predicates that hold well-formed values only.\<close>

definition wfOptions :: "enat \<Rightarrow> bool \<Rightarrow> evalOptions \<Rightarrow> bool" where
  "wfOptions N p o1 \<longleftrightarrow>
     (\<forall>n v. eo_root o1 n = Some v \<longrightarrow> wfTop N v) \<and>
     (\<forall>h s k n m v. eo_Calls o1 = Some h \<longrightarrow> h s k n m = Inr v \<longrightarrow> wfTop N v) \<and>
     (\<forall>h n q b. eo_Predicates o1 = Some h \<longrightarrow> h n = Some (q, b) \<longrightarrow> allNodes (nodeOk (wfTop N) N p) b)"

lemma wf_eval_law:
  assumes "wfOptions N (N = \<infinity>) o1" "1 \<le> N" "eo_Predicates o1 = None \<or> pc = \<infinity>"
  shows "eval_law (runStep (budgetOf o1)) (wfTop N) N N (N = \<infinity>) o1 pc"
proof (intro eval_law.intro budgeted.step_law_axioms wf_value_law assms(2) eval_law_axioms.intro tick_runStep)
  show "wfTop N v" if "eo_root o1 n = Some v" for n v
    using assms(1) that unfolding wfOptions_def by metis
  show "wfTop N v" if "eo_Calls o1 = Some h" "h s k n m = Inr v" for h s k n m v
    using assms(1) that unfolding wfOptions_def by metis
  show "allNodes (nodeOk (wfTop N) N (N = \<infinity>)) b \<and> pc = \<infinity>"
    if h: "eo_Predicates o1 = Some h" "h n = Some (q, b)" for h n q b
  proof -
    have "pc = \<infinity>" using assms(3) h(1) by simp
    moreover have "allNodes (nodeOk (wfTop N) N (N = \<infinity>)) b"
      using assms(1) h unfolding wfOptions_def by metis
    ultimately show ?thesis by simp
  qed
qed

lemma wf_run:
  assumes "wfOptions N (N = \<infinity>) o1" "1 \<le> N" "eo_Predicates o1 = None \<or> pc = \<infinity>"
    "scope_ok (wfTop N) sc" "allNodes (nodeOk (wfTop N) N (N = \<infinity>)) e"
  shows "sat (runStep (budgetOf o1)) (costOf N pc e) (wfTop N) (eval o1 d sc e)"
  by (rule eval_law.eval_sat [OF wf_eval_law [OF assms(1-3)] assms(4,5)])

section \<open>The estimate\<close>

lemma exprCostAdd_less:
  assumes "exprCostAdd a b < maxInt32"
  shows "exprCostAdd a b = a + b" "a < maxInt32" "b < maxInt32"
  using assms by (auto simp: exprCostAdd_def split: if_splits)

lemma exprCostMul_less:
  assumes "exprCostMul a b < maxInt32"
  shows "exprCostMul a b = a * b" "0 < a \<Longrightarrow> b < maxInt32"
proof -
  show m: "exprCostMul a b = a * b" using assms by (auto simp: exprCostMul_def split: if_splits)
  then show "b < maxInt32" if "0 < a" using assms that by (metis le_less_trans mult_le_mono1 nat_mult_1 Suc_leI One_nat_def)
qed

lemma foldl_cost:
  assumes "foldl (\<lambda>c x. exprCostAdd c (f x)) c0 xs < maxInt32"
  shows "foldl (\<lambda>c x. exprCostAdd c (f x)) c0 xs = c0 + sum_list (map f xs) \<and> c0 < maxInt32 \<and>
         (\<forall>x \<in> set xs. f x < maxInt32)"
  using assms
proof (induction xs arbitrary: c0)
  case (Cons x xs)
  from Cons.prems have l: "foldl (\<lambda>c x. exprCostAdd c (f x)) (exprCostAdd c0 (f x)) xs < maxInt32" by simp
  note ih = Cons.IH [OF l]
  then show ?case using exprCostAdd_less [of c0 "f x"] by simp
qed simp

lemma sum_list_enat: "(\<And>x. x \<in> set xs \<Longrightarrow> g x = enat (f x)) \<Longrightarrow> sum_list (map g xs) = enat (sum_list (map f xs))"
  by (induction xs) (simp_all add: enat_0)

definition argCost :: "bool \<Rightarrow> expr \<Rightarrow> nat" where
  "argCost method a =
     (case Unparen a of
        LambdaE ps b \<Rightarrow> if method then exprCostMul DefaultCollectionSizeEstimate (exprCost b) else exprCost a
      | _ \<Rightarrow> exprCost a)"

lemma exprCost_call:
  "exprCost (CallE kind name rcv args named) =
     foldl (\<lambda>c p. exprCostAdd c (exprCost (snd p)))
       (foldl (\<lambda>c a. exprCostAdd c (argCost (rcv \<noteq> None) a))
          (case rcv of None \<Rightarrow> 1 | Some r \<Rightarrow> exprCostAdd 1 (exprCost r)) args) named"
proof -
  have f: "(\<lambda>c a. case Unparen a of
                     LambdaE ps b \<Rightarrow>
                       if rcv \<noteq> None then exprCostAdd c (exprCostMul DefaultCollectionSizeEstimate (exprCost b))
                       else exprCostAdd c (exprCost a)
                   | _ \<Rightarrow> exprCostAdd c (exprCost a)) =
        (\<lambda>c a. exprCostAdd c (argCost (rcv \<noteq> None) a))"
    by (intro ext) (simp add: argCost_def split: expr.split)
  show ?thesis unfolding exprCost.simps Let_def f ..
qed

lemma estimate_call:
  assumes small: "exprCost (CallE kind name rcv args named) < maxInt32"
    and ihr: "\<And>r. rcv = Some r \<Longrightarrow> exprCost r < maxInt32 \<Longrightarrow> costOf 1000 0 r = enat (exprCost r)"
    and iha: "\<And>a. a \<in> set args \<Longrightarrow> exprCost a < maxInt32 \<Longrightarrow> costOf 1000 0 a = enat (exprCost a)"
    and ihl: "\<And>a ps b. a \<in> set args \<Longrightarrow> Unparen a = LambdaE ps b \<Longrightarrow> exprCost b < maxInt32 \<Longrightarrow>
                costOf 1000 0 b = enat (exprCost b)"
    and ihn: "\<And>p. p \<in> set named \<Longrightarrow> exprCost (snd p) < maxInt32 \<Longrightarrow> costOf 1000 0 (snd p) = enat (exprCost (snd p))"
  shows "costOf 1000 0 (CallE kind name rcv args named) = enat (exprCost (CallE kind name rcv args named))"
proof -
  let ?c0 = "case rcv of None \<Rightarrow> 1 | Some r \<Rightarrow> exprCostAdd 1 (exprCost r)"
  let ?c1 = "foldl (\<lambda>c a. exprCostAdd c (argCost (rcv \<noteq> None) a)) ?c0 args"
  note s = foldl_cost [OF small [unfolded exprCost_call]]
  note s1 = foldl_cost [of "argCost (rcv \<noteq> None)", OF conjunct1 [OF conjunct2 [OF s]]]
  have r: "(case rcv of None \<Rightarrow> (if kind = '''' \<and> catalogFunction name = None then 0 else 0) | Some r \<Rightarrow> costOf 1000 0 r) + 1 = enat ?c0"
  proof (cases rcv)
    case (Some r)
    then have "exprCostAdd 1 (exprCost r) < maxInt32" using s1 by simp
    from exprCostAdd_less [OF this] show ?thesis using ihr [OF Some] by (simp add: Some one_enat_def)
  qed (simp add: one_enat_def)
  have a: "(case Unparen a of LambdaE ps b \<Rightarrow> if rcv \<noteq> None then 1000 * costOf 1000 0 b else costOf 1000 0 a
              | _ \<Rightarrow> costOf 1000 0 a) = enat (argCost (rcv \<noteq> None) a)" if "a \<in> set args" for a
  proof -
    have l: "argCost (rcv \<noteq> None) a < maxInt32" using s1 that by blast
    show ?thesis
    proof (cases "(\<exists>ps b. Unparen a = LambdaE ps b) \<and> rcv \<noteq> None")
      case True
      then obtain ps b where b: "Unparen a = LambdaE ps b" "rcv \<noteq> None" by blast
      then have "exprCostMul DefaultCollectionSizeEstimate (exprCost b) < maxInt32" using l by (simp add: argCost_def)
      from exprCostMul_less [OF this] show ?thesis
        using ihl [OF that b(1)] b by (simp add: argCost_def DefaultCollectionSizeEstimate_def numeral_eq_enat)
    next
      case False
      then have "argCost (rcv \<noteq> None) a = exprCost a" by (auto simp: argCost_def split: expr.split)
      then show ?thesis using iha [OF that] l False by (auto split: expr.split)
    qed
  qed
  have n: "costOf 1000 0 (snd p) = enat (exprCost (snd p))" if "p \<in> set named" for p using ihn that s by blast
  show ?thesis
    unfolding exprCost_call costOf.simps using s s1 r
    by (simp add: sum_list_enat [OF a] sum_list_enat [OF n] add.assoc [symmetric] add.commute [of 1])
qed

lemma costOf_estimate: "exprCost e < maxInt32 \<Longrightarrow> costOf 1000 0 e = enat (exprCost e)"
proof (induction e rule: measure_induct_rule [where f = size])
  case (less e)
  note ih = less.IH
  show ?case
  proof (cases e)
    case (ListE es)
    note s = foldl_cost [OF less.prems [unfolded ListE exprCost.simps]]
    then have "costOf 1000 0 x = enat (exprCost x)" if "x \<in> set es" for x
      using ih [of x] size_arg [OF that] that by (simp add: ListE)
    then show ?thesis using s by (simp add: ListE sum_list_enat [of es] one_enat_def)
  next
    case (MapE es)
    note s = foldl_cost [OF less.prems [unfolded MapE exprCost.simps]]
    then have "costOf 1000 0 (snd p) = enat (exprCost (snd p))" if "p \<in> set es" for p
      using ih [of "snd p"] size_entry [OF that] that by (simp add: MapE)
    then show ?thesis using s by (simp add: MapE sum_list_enat [of es] one_enat_def)
  next
    case (CallE kind name rcv args named)
    have s: "size a < size e" if "a \<in> set args" for a using size_arg [OF that] by (simp add: CallE)
    show ?thesis unfolding CallE
    proof (rule estimate_call [OF less.prems [unfolded CallE]])
      show "costOf 1000 0 r = enat (exprCost r)" if "rcv = Some r" "exprCost r < maxInt32" for r
        using ih that by (simp add: CallE)
      show "costOf 1000 0 a = enat (exprCost a)" if "a \<in> set args" "exprCost a < maxInt32" for a
        using ih s that by blast
      show "costOf 1000 0 b = enat (exprCost b)"
        if "a \<in> set args" "Unparen a = LambdaE ps b" "exprCost b < maxInt32" for a ps b
        using ih less_trans [OF Unparen_size [OF that(2)] s [OF that(1)]] that(3) by blast
      show "costOf 1000 0 (snd p) = enat (exprCost (snd p))" if "p \<in> set named" "exprCost (snd p) < maxInt32" for p
        using ih [of "snd p"] size_entry [OF that(1)] that(2) by (simp add: CallE)
    qed
  next
    case (BinaryE opr l r)
    note s = exprCostAdd_less [OF less.prems [unfolded BinaryE exprCost.simps]]
    note s2 = exprCostAdd_less [OF s(3)]
    show ?thesis using ih [of l] ih [of r] s s2 by (simp add: BinaryE one_enat_def)
  next
    case (TernaryE c t f)
    note s = exprCostAdd_less [OF less.prems [unfolded TernaryE exprCost.simps]]
    note s2 = exprCostAdd_less [OF s(3)]
    note s3 = exprCostAdd_less [OF s2(3)]
    show ?thesis using ih [of c] ih [of t] ih [of f] s s2 s3 by (simp add: TernaryE one_enat_def)
  next
    case (MemberE x f)
    note s = exprCostAdd_less [OF less.prems [unfolded MemberE exprCost.simps]]
    show ?thesis using ih [of x] s by (simp add: MemberE one_enat_def)
  next
    case (UnaryE opr x)
    note s = exprCostAdd_less [OF less.prems [unfolded UnaryE exprCost.simps]]
    show ?thesis using ih [of x] s by (simp add: UnaryE one_enat_def)
  next
    case (ParenE x)
    note s = exprCostAdd_less [OF less.prems [unfolded ParenE exprCost.simps]]
    show ?thesis using ih [of x] s by (simp add: ParenE one_enat_def)
  next
    case (LambdaE ps x)
    note s = exprCostAdd_less [OF less.prems [unfolded LambdaE exprCost.simps]]
    show ?thesis using ih [of x] s by (simp add: LambdaE one_enat_def)
  qed (simp_all add: one_enat_def)
qed

definition MaxStaticCost :: nat where
  "MaxStaticCost = 1000000"

section \<open>Properties\<close>

text \<open>
  C18. An evaluation performs at most its budget of node evaluations when it answers, and stops at
  the next one otherwise, whatever the expression, the predicates it applies and the hooks answer.
\<close>

theorem run_within_budget:
  "snd (eval o1 0 RootScope e 0) \<le> (if isl (fst (eval o1 0 RootScope e 0)) then Suc (budgetOf o1) else budgetOf o1)"
proof (cases "fst (eval o1 0 RootScope e 0)")
  case (Inl x)
  then show ?thesis using every_run(1) [of o1 0 0 RootScope e] by (simp add: runStep_def)
next
  case (Inr x)
  then show ?thesis using every_run(1) [of o1 0 0 RootScope e] by (simp add: runStep_def)
qed


text \<open>
  C7. A value an evaluation answers is well formed, given well-formed literals, scope values and
  hook answers: the absence sentinel occurs in no container, every integer fits 64 bits, every number
  is finite, and no object has a key twice.
\<close>

theorem answers_well_formed:
  assumes "wfOptions \<infinity> True o1" "allNodes (nodeOk (wfTop \<infinity>) \<infinity> True) e" "EvalExpr o1 e = Inr v"
  shows "wfTop \<infinity> v"
  using wf_run [of \<infinity> o1 \<infinity> RootScope e 0] assms unfolding sat_def EvalExpr_def by simp

definition lib0 :: golib where
  "lib0 = \<lparr>gl_FormatFloat = (\<lambda>_ _. ''0''), gl_Sprint = (\<lambda>_. ''''), gl_JSON = (\<lambda>_. None), gl_Sha256Hex = id,
           gl_TimeParse = (\<lambda>_ _. None), gl_RFC3339Nano = (\<lambda>_. '''')\<rparr>"

definition opts0 :: evalOptions where
  "opts0 = \<lparr>eo_lib = lib0, eo_Now = '''', eo_Budget = 0, eo_Predicates = None, eo_CanonicalID = None, eo_Vars = None,
            eo_Calls = None, eo_ctxErr = (\<lambda>_. None),
            eo_root = (\<lambda>n. if n = ''xs'' then Some (VList [VInt 1, VInt 2])
                           else if n = ''gone'' then Some VAbsent else if n = ''none'' then Some (VList []) else None)\<rparr>"

definition lambda_x :: "expr \<Rightarrow> expr" where
  "lambda_x b = LambdaE [''x''] b"

lemma select_entries:
  "exprMethodEntry ''string'' ''select'' = None"
  "exprMethodEntry ''list'' ''select'' = Some (methodEntry ''list'' ''select'' [''lambda''])"
  by code_simp+

lemmas run_defs = andThen_def tick_def ret_def lift_def budgetOf_def DefaultStepBudget_def ident_def opts0_def
  exprStoredRead_def callMethod_def exprCheckShape_def methodEntry_def argFits_def Key_def exprLambdaParams_def
  methodOn_def listMethod_def withLambda_def lambda_x_def binary_def binaryValues_def exprPlus_def
  exprArithmetic_def intArithmetic_def wrap64_def MaxInt64_def MinInt64_def exprUnsentinel_def

theorem answers_well_formed_witness:
  "wfTop \<infinity> (VList [VInt 2, VInt 3]) \<and>
   EvalExpr opts0 (CallE '''' ''select'' (Some (IdentE ''xs'')) [lambda_x (BinaryE ''+'' (IdentE ''x'') (LiteralE (VInt 1)))] [])
     = Inr (VList [VInt 2, VInt 3])"
proof -
  let ?e = "CallE '''' ''select'' (Some (IdentE ''xs'')) [lambda_x (BinaryE ''+'' (IdentE ''x'') (LiteralE (VInt 1)))] []"
  have e: "EvalExpr opts0 ?e = Inr (VList [VInt 2, VInt 3])"
    by (simp add: EvalExpr_def select_entries run_defs)
  have "wfOptions \<infinity> True opts0" by (auto simp: wfOptions_def opts0_def wfTop_simps in64_def MinInt64_def MaxInt64_def split: if_splits)
  moreover have "allNodes (nodeOk (wfTop \<infinity>) \<infinity> True) ?e"
    by (simp add: lambda_x_def nodeOk_def wfTop_simps in64_def MinInt64_def MaxInt64_def)
  ultimately show ?thesis using answers_well_formed [of opts0 ?e] e by blast
qed



text \<open>
  C19. Integer arithmetic is exact or refused: on 64-bit operands each of the five operators answers
  the mathematical result when it fits, \<^verbatim>\<open>arithmetic_overflow\<close> when it does not, and
  \<^verbatim>\<open>division_by_zero\<close> for a zero divisor; nothing wraps.
\<close>

theorem integer_arithmetic_exact:
  assumes "in64 x" "in64 y" "opr \<in> {''+'', ''-'', ''*'', ''/'', ''%''}"
  shows "numericBinary opr (VInt x) (VInt y) = map_sum id VInt (intSpec opr x y)"
  by (simp add: numericBinary_def exprArithmetic_def intArithmetic_spec [OF assms])

theorem integer_arithmetic_exact_witness:
  "numericBinary ''*'' (VInt MinInt64) (VInt (- 1)) = map_sum id VInt (intSpec ''*'' MinInt64 (- 1)) \<and>
   intSpec ''*'' MinInt64 (- 1) = Inl (ExprError ''arithmetic_overflow'')"
  using integer_arithmetic_exact [of MinInt64 "- 1" "''*''"]
  by (simp add: intSpec_def exactInt_def in64_def MinInt64_def MaxInt64_def)

section \<open>Absent lists\<close>

definition emptyLike :: "string list" where
  "emptyLike = [''count'', ''any'', ''all'', ''where'', ''select'', ''single'', ''empty'', ''sum'', ''min'', ''max'', ''avg'',
     ''orderBy'', ''orderByDesc'', ''groupBy'', ''distinct'', ''reduce'', ''nodes'']"

lemma empty_loops:
  "listAggregate n f [] = ret (if n = ''sum'' then VFloat (Fin 0) else VNil)"
  "orderByKeys lib desc [] = []" "groupByKeys lib [] = []"
  by (simp_all add: listAggregate_def orderByKeys_def SliceStable_def groupByKeys_def)

lemma andThen_ret [simp]: "andThen (ret x) f = f x" "andThen m ret = m"
  by (auto simp: andThen_def ret_def fun_eq_iff split: prod.split sum.split)

lemma absent_like_empty:
  assumes "methodShape name lams" "length argc = length lams" "name \<in> set emptyLike"
  shows "absentReceiverMethod name argc = listMethod lib name st argc lams []"
proof (cases "name \<in> set lambdaMethods")
  case True
  then obtain l where l: "lams = [Some l]" "length (fst l) = 1" using assms(1) by (auto simp: methodShape_def)
  from True show ?thesis unfolding lambdaMethods_def list.set
    by (elim insertE emptyE) (simp_all add: absentReceiverMethod_def listMethod_def withLambda_def l empty_loops)
next
  case False
  then have "name \<in> {''count'', ''single'', ''empty'', ''distinct'', ''reduce'', ''nodes''}"
    using assms(3) by (auto simp: emptyLike_def lambdaMethods_def)
  then show ?thesis
  proof (elim insertE emptyE)
    assume "name = ''distinct''"
    moreover from this have "lams = [] \<or> (\<exists>l. lams = [Some l] \<and> length (fst l) = 1)"
      using assms(1) by (simp add: methodShape_def)
    ultimately show ?thesis using assms(2)
      by (auto simp: absentReceiverMethod_def listMethod_def withLambda_def)
  next
    assume n: "name = ''reduce''"
    then obtain l where l: "lams = [None, Some l]" "length (fst l) = 2" using assms(1) by (auto simp: methodShape_def)
    then obtain m m' where "argc = [m, m']" using assms(2) by (auto simp: length_Suc_conv)
    then show ?thesis using n l
      by (simp add: absentReceiverMethod_def listMethod_def withArg_def withLambda_def)
  qed (simp_all add: absentReceiverMethod_def listMethod_def wrap64_def)
qed

lemma emptyLike_methods: "list_all (\<lambda>n. exprMethodEntry ''list'' n \<noteq> None) emptyLike"
  by code_simp

lemma methodOn_absent:
  assumes "exprMethodEntry ''list'' name = Some lf" "list_all2 lamOf args lams" "length argc = length lams" "name \<in> set emptyLike"
  shows "methodOn o1 name st args named argc lams (Some lf) strFn VAbsent
       = methodOn o1 name st args named argc lams (Some lf) strFn (VList [])"
  using absent_like_empty [OF check_methodShape [OF assms(1) _ assms(2)] assms(3,4)]
  by (simp add: methodOn_def)



end
