(* ===== verification/Spec2Isabelle.thy ===== *)
theory Spec2Isabelle
  imports Budget Serving Feedback CallGraph Head Symptom Workspace Approval Bus Breaker Claims ModeGate LoopBuild ExprRuns
begin

text \<open>
  A verification library for memQL, a Go platform in which a \<^emph>\<open>goal\<close> is carried out by a run of
  recorded steps, failures are triaged into an act, a person approves what may not happen alone,
  and a run that went well is lifted into a procedure that climbs a certification ladder until it
  may answer in place of a model. The decision rules of that cycle are the package
  \<^verbatim>\<open>src/component/work\<close>, together with its callers in \<^verbatim>\<open>src/integrations/procedure\<close> and
  \<^verbatim>\<open>src/integrations/work\<close> where they own the write. Beside it run the \<^emph>\<open>automations\<close>: definitions
  fired by events of the bus (\<^verbatim>\<open>src/component/events\<close>), whose own writes are events again. What keeps
  that feedback finite, exclusive and bounded is \<^verbatim>\<open>src/component/automations\<close>: a fire is placed in
  its causal chain, deduplicated, claimed across replicas, counted against the storm budget, held
  by the breaker and admitted by its concurrency mode. Both lean on one expression language: conditions,
  trigger filters, policies and tool guards are parsed to one syntax tree and evaluated in process by
  \<^verbatim>\<open>src/component/memql\<close>, under an operation budget. The library models all three.

  \<^bold>\<open>Theories and sources of the work cycle\<close> (paths under \<^verbatim>\<open>src/component/work\<close> unless said otherwise)

  \<^item> \<open>Prelude\<close>: Go's 64-bit integers, durations and instants, the parts of \<^verbatim>\<open>strings\<close> the sources use,
    and the interfaces that several components implement: \<open>first_match_table\<close> (rules scanned
    in order), \<open>event_machine\<close> (a state folded over events that keeps an invariant), \<open>simulation\<close>
    (a detailed machine that follows an abstract one step by step) and
    \<open>stored_form\<close> (an encoder and the reader of what it wrote).
  \<^item> \<open>Values\<close>: the dynamic values of a stored row, with the type assertions that read them.
  \<^item> \<open>Budget\<close> (\<^verbatim>\<open>budget.go\<close>): the spend of a run as a fold of \<open>AddCall\<close>, the ceilings and the breach
    \<open>FirstBreach\<close> reports, the deadline, the ceilings a workload imposes. The lemmas split the
    spend by who served it and show that a call cap stops a loop that never pays a dollar.
  \<^item> \<open>Ladder\<close> (\<^verbatim>\<open>ladder.go\<close>, and \<^verbatim>\<open>advanceFrom\<close> of \<^verbatim>\<open>integrations/procedure/replay.go\<close>): the state machine
    of a learned procedure, one definition per handler, and the write that may fail. The
    lemmas are the legal edges, the invariant of the stored state, and what a history must
    contain before a procedure serves.
  \<^item> \<open>Serving\<close> (\<^verbatim>\<open>replay.go\<close>, \<^verbatim>\<open>verdict.go\<close>): which source answers a request, and the gate a lifted
    procedure passes.
  \<^item> \<open>Feedback\<close> (\<^verbatim>\<open>feedback.go\<close>, \<^verbatim>\<open>policy.go\<close>, \<^verbatim>\<open>reuse.go\<close>, \<^verbatim>\<open>reliability.go\<close>): a person's verdict, its
    axes, and what the verdict feeds.
  \<^item> \<open>CallGraph\<close> (\<^verbatim>\<open>kind.go\<close>, \<^verbatim>\<open>footprint.go\<close>, \<^verbatim>\<open>postcondition.go\<close>): the depth-first walks over the
    constructs a step can reach, proved equal to an inductive reachability relation.
  \<^item> \<open>Head\<close> (\<^verbatim>\<open>head.go\<close>): which version of each step is current, what a re-run executes, what moving
    the head restores, where a branch starts.
  \<^item> \<open>Symptom\<close> (\<^verbatim>\<open>symptom.go\<close>, \<^verbatim>\<open>terminal.go\<close>, the codes of \<^verbatim>\<open>inference.go\<close>, \<^verbatim>\<open>idempotency.go\<close>,
    \<^verbatim>\<open>outcome_recovery.go\<close>, \<^verbatim>\<open>unfinished_step.go\<close>): the ordered symptom table and the act of each
    failure.
  \<^item> \<open>Workspace\<close> (\<^verbatim>\<open>target.go\<close>, \<^verbatim>\<open>snapshot.go\<close>, \<^verbatim>\<open>recorded.go\<close>): workspace paths, the files a branch
    rebuilds, where a replay may write.
  \<^item> \<open>Approval\<close> (\<^verbatim>\<open>approval.go\<close>, \<^verbatim>\<open>approval_guidance.go\<close>, \<^verbatim>\<open>approval_routing.go\<close>,
    \<^verbatim>\<open>approval_procedure.go\<close>, the park of \<^verbatim>\<open>inference.go\<close>): the rows a person decides, the digest of
    what is approved, and the check before a decision is acted on.

  The first property of this theory spans them: from the gate, through the ladder's history, to
  the source that serves.

  \<^bold>\<open>Theories and sources of events and automations\<close>

  \<^item> \<open>Topics\<close> (\<^verbatim>\<open>component/events/pattern.go\<close>): topics, patterns with their two wildcards, the iterative
    matcher and the normaliser, proved equal to a description by segments.
  \<^item> \<open>Bus\<close> (\<^verbatim>\<open>component/events/bus.go\<close>): subscribe, cancel, close and publish over shared subscription
    objects, as a refinement of a set of live subscriptions; a delivery under way while a subscription is
    cancelled.
  \<^item> \<open>LoopGuard\<close> (\<^verbatim>\<open>component/events/cause.go\<close>, \<^verbatim>\<open>cause_proto.go\<close>, \<^verbatim>\<open>component/node\<close>'s copies of it,
    \<^verbatim>\<open>component/automations/loop_runtime.go\<close> and the journal's record of a cause): where a fire stands in
    its causal chain, on any route between nodes and through the journal, and when it is refused.
  \<^item> \<open>Breaker\<close> (\<^verbatim>\<open>authored_breaker.go\<close>), \<open>StormBudget\<close> (\<^verbatim>\<open>budget.go\<close>), \<open>Claims\<close> (\<^verbatim>\<open>dedup.go\<close>,
    \<^verbatim>\<open>cluster_guard.go\<close>) and \<open>ModeGate\<close> (\<^verbatim>\<open>mode_gate.go\<close>), all of \<^verbatim>\<open>component/automations\<close>: the gates a fire
    passes, each a machine over its critical sections with an invariant of the reachable states.
  \<^item> \<open>Trigger\<close> (\<^verbatim>\<open>run_scope.go\<close>, \<^verbatim>\<open>args_binding.go\<close>, the subscriber and \<^verbatim>\<open>evaluateTriggerFilter\<close> of \<^verbatim>\<open>scheduler.go\<close>, the
    events built in \<^verbatim>\<open>component/memql/executor_mutation.go\<close>): the event of a write, the row and the arguments a trigger filter reads of it, and
    whether the automation fires.
  \<^item> \<open>FilterDecide\<close> (\<^verbatim>\<open>loop_graph_filter.go\<close>): what the load decides of a filter over a partly known row, in three
    values. \<open>FilterSound\<close> relates it to the evaluator: its locale \<open>filter_view\<close> states what an event promises of the names a filter
    reads, and is interpreted on the events of a write and on those of an event step. \<open>FilterRuns\<close> holds the agreement,
    and the rows on which the load is wrong.
  \<^item> \<open>LoopBuild\<close> (\<^verbatim>\<open>loop_graph.go\<close>, \<^verbatim>\<open>loop_graph_before_write.go\<close>): what the steps of an automation write and publish, its
    sub-automations' included, the edges drawn from it, and \<^verbatim>\<open>BuildLoopGraph\<close> as a whole. The lemmas show that
    the walk over sub-automations covers every step a run can reach (\<open>runsIn\<close>), whatever calls they make in cycles, and that every
    fire is an edge.
  \<^item> \<open>Tarjan\<close> and \<open>LoopCover\<close> (\<^verbatim>\<open>loop_graph_scc.go\<close>), \<open>CyclePath\<close> (\<^verbatim>\<open>loop_graph_report.go\<close>) and
    \<open>LoopCheck\<close> (the end of \<^verbatim>\<open>BuildLoopGraph\<close> in \<^verbatim>\<open>loop_graph.go\<close>): the static check over the graph of
    automations. The iterative component search is a loop over an explicit call stack; its invariant is
    about the stack order, what the open nodes reach and what a low link bounds, and its measure is the work left.
    The breadth-first search carries distances. The lemmas are that the components, strata, cover, printed cycle and verdict are exact.

  The second property of this theory joins the evaluator, the static check and the run-time guard: chains of fires among
  automations the check accepts are bounded by the automations' own \<^verbatim>\<open>@loop\<close>s.

  \<^bold>\<open>Theories and sources of the expression language\<close> (paths under \<^verbatim>\<open>src/component/memql\<close> unless said otherwise)

  \<^item> \<open>Floats\<close> (\<^verbatim>\<open>src/core/num\<close>): the values of \<^verbatim>\<open>float64\<close>, rounding to the nearest with ties to even, and
    the checked conversions between integers and floats.
  \<^item> \<open>ExprValue\<close> (\<^verbatim>\<open>expr_eval.go\<close>, \<^verbatim>\<open>expr_stored.go\<close>, \<^verbatim>\<open>intrinsic_fields.go\<close>): what an expression evaluates to, the error
    codes, member access, equality, ordering, \<^verbatim>\<open>in\<close>, text and keys of values, checked integer arithmetic.
  \<^item> \<open>ExprFuncs\<close> (\<^verbatim>\<open>runtime_evaluator.go\<close>, \<^verbatim>\<open>src/core/id/partition.go\<close>, \<^verbatim>\<open>src/component/language/functions/catalog.go\<close>): node
    ids, dates, the stable sort, the catalog of functions with their arities.
  \<^item> \<open>ExprEval\<close> (\<^verbatim>\<open>expr_eval.go\<close>, \<^verbatim>\<open>collection_method.go\<close>, \<^verbatim>\<open>expr_cost.go\<close>, the nodes of
    \<^verbatim>\<open>src/component/language/ast/v1.go\<close>): the evaluator itself as a monad over the steps taken, and the static
    estimate of what an expression costs. A Go run-time panic is an error of its own (\<open>Panic\<close>), so that its absence
    is a statement.
  \<^item> \<open>ExprLogic\<close>, \<open>ExprSound\<close>: one program logic for the evaluator. Its locales state what a property of
    results must satisfy at each primitive step, and one induction over the evaluator gives it for every expression.
  \<^item> \<open>ExprTypes\<close>, \<open>ExprRuns\<close>: the interpretations of those locales (well-formed values, operations
    charged, operations estimated) and the properties: no panic, answers that are well formed, no run
    past its budget, an admitted expression finishes, integers computed exactly or refused.

  \<^bold>\<open>Abstractions.\<close> A struct is a record whose fields carry a short prefix; an enumeration is a
  datatype with a constructor for any other spelling, or its string constants. A sentence
  built for a reader (\<^verbatim>\<open>fmt.Sprintf\<close>) is a constructor that carries the values printed in it, or
  the string itself where code reads it back. A \<^verbatim>\<open>float64\<close> is an exact rational (with NaN and the
  infinities where the code tests for them); the expression evaluator rounds every result as \<open>Floats\<close> says, and the
  dollars of a run are added without rounding. \<^verbatim>\<open>int\<close> wraps at 64 bits where
  a value from outside is added. An instant is a number of nanoseconds and the zero time is 0.
  \<^verbatim>\<open>strings.ToLower\<close> and \<^verbatim>\<open>strings.TrimSpace\<close> are those of ASCII. SHA-256, JSON encoding and the base64
  decoder are parameters of the definitions that call them; a property that needs one of them to
  be injective says so as a hypothesis. Where Go ranges over a map, the model visits the keys in ascending order, and the
  properties do not depend on it. Nothing runs on fuel: every definition is total, and a loop whose end is not
  evident (\<open>tarjan_loop\<close>, \<open>shortestCycle\<close>, \<open>walkBack\<close>) is a \<open>while_option\<close> that is proved to return. The walks of
  \<open>CallGraph\<close> terminate because each entered name leaves the finite set of names not yet
  entered. The evaluator's recursion ends because a call of a named predicate goes one level down of at most
  \<^verbatim>\<open>exprMaxPredicateDepth\<close>, and every other call goes to a smaller expression. The caller's hooks (resolution of paths, named predicates,
  the catalog functions that ask the engine), the clock, the JSON encoder and the text of a float are fields of the evaluator's options.
  \<^verbatim>\<open>sort.SliceStable\<close> is an insertion sort that asks the comparison the code passes. Code that runs under a mutex is one step of a machine, and a goroutine's later part is a
  later step, so a history is an interleaving; objects that several functions hold a pointer to live in
  a store and are named by their index. A clock reading, the environment and the outcome of a storage call are arguments
  of the step that asks for them, so that a property holds for every answer; the two SQL
  statements of the cluster claim are written out as their effect on the table.

  \<^bold>\<open>Not modelled\<close>: storage, network and process I/O, the parser, loader and SQL lowering of the language, the lazy views of an event
  (\<^verbatim>\<open>ExprObject\<close>, \<^verbatim>\<open>ExprMembers\<close>) and the Go shapes \<^verbatim>\<open>exprNormalize\<close> folds into one, the clients, and
  the parts of \<^verbatim>\<open>component/work\<close> that compose prose for a prompt. Next in order: the comparison of
  outcomes (\<^verbatim>\<open>compare.go\<close>), compilation of sections and overrides, how the executor of mutations stores what a template
  sets (a hypothesis of the loop check's properties: \<open>completes\<close>), the check of a \<^verbatim>\<open>@loop\<close>'s \<^verbatim>\<open>until\<close>
  (\<^verbatim>\<open>loop_until.go\<close>), and pipeline selection (\<^verbatim>\<open>component/pipelines\<close>).
\<close>

section \<open>From the gate to the answer\<close>

lemma EntryRung_low: "fst (EntryRung e) \<in> {RungCandidate, RungShadow}"
  by (auto simp: EntryRung_def split: prod.splits)

lemma DecideServe_construct:
  assumes "ServeVerdict.sv_Source (DecideServe rc) = ServeConstruct"
  shows "(rc_Mode rc = '''' \<or> rc_Mode rc = ''live'') \<and> rc_ConstructRung rc \<in> {RungCanary, RungTrusted} \<and>
    ServeVerdict.sv_Standby (DecideServe rc) = (rc_ConstructRung rc = RungCanary)"
  using assms by (auto simp: DecideServe_def Let_def split: if_splits)

text \<open>
  C1. A procedure answers in place of a model only with a person's consent. Take a procedure at the
  rung the candidate gate gives it, any history of ladder events at any policies and
  with any of its writes lost, and a request decided at the rung that history leaves. If the
  construct serves the request, the request is live, the history holds a written approval by a
  person, and when no live standby is kept beside it the history completed the run of clean
  replays that earns trust.
\<close>

theorem construct_serves_only_approved:
  assumes "ls_Rung s0 = fst (EntryRung gate)"
    and "rc_ConstructRung rc = ls_Rung (foldl (ladder_app sha) s0 es)"
    and "ServeVerdict.sv_Source (DecideServe rc) = ServeConstruct"
  shows "(rc_Mode rc = '''' \<or> rc_Mode rc = ''live'') \<and> (\<exists>x \<in> set es. human_approval x) \<and>
    (\<not> ServeVerdict.sv_Standby (DecideServe rc) \<longrightarrow> earns_trust es)"
proof -
  have low: "ls_Rung s0 \<in> {RungCandidate, RungShadow}"
    unfolding assms(1) by (rule EntryRung_low)
  note served = DecideServe_construct [OF assms(3)]
  have "\<exists>x \<in> set es. human_approval x"
    using served assms(2) by (intro serving_needs_approval [OF low, of sha]) simp
  moreover have "\<not> ServeVerdict.sv_Standby (DecideServe rc) \<longrightarrow> earns_trust es"
    using served assms(2) low by (auto intro: trusted_needs_streak [of s0 sha es])
  ultimately show ?thesis using served by blast
qed

definition liked_twice :: CandidateEvidence where
  "liked_twice = \<lparr>ce_Uses = 2, ce_UnexplainedHoles = 0, ce_Instances = [[[''like'']]]\<rparr>"

definition trusted_request :: ReplayContext where
  "trusted_request = \<lparr>rc_Mode = ''live'', rc_ReplayPolicy = '''', rc_JournalHit = False,
     rc_SameGoal = False, rc_BeforeForkPoint = False, rc_ConstructRung = RungTrusted\<rparr>"

theorem construct_serves_only_approved_witness:
  "ServeVerdict.sv_Source (DecideServe trusted_request) = ServeConstruct \<and>
   (\<exists>x \<in> set sample_history. human_approval x) \<and> earns_trust sample_history"
proof -
  have gate: "ls_Rung fresh_state = fst (EntryRung liked_twice)"
    by (simp add: fresh_state_def liked_twice_def EntryRung_def CandidateGate_def
        heldByDislike_def ParseVerdict_def verdict_defs ToLower_def TrimSpace_def is_space_def
        lower_char_def Let_def)
  have rung: "rc_ConstructRung trusted_request = ls_Rung (foldl (ladder_app rev) fresh_state sample_history)"
    by (simp add: trusted_request_def sample_history_trusted)
  have "ServeVerdict.sv_Source (DecideServe trusted_request) = ServeConstruct"
    "\<not> ServeVerdict.sv_Standby (DecideServe trusted_request)"
    by (simp_all add: trusted_request_def DecideServe_def)
  then show ?thesis
    using construct_serves_only_approved [OF gate rung] by simp
qed

section \<open>The static check and the run-time guard\<close>

lemma length_filter_sum:
  "set xs \<subseteq> {..<n} \<Longrightarrow> length (filter l xs) = (\<Sum>i | i < n \<and> l i. count_list xs i)" for n :: nat
proof (induction xs)
  case (Cons x xs)
  have "(\<Sum>i | i < n \<and> l i. count_list (x # xs) i) =
      (\<Sum>i | i < n \<and> l i. count_list xs i) + (\<Sum>i | i < n \<and> l i. if x = i then 1 else 0)"
    by (subst sum.distrib [symmetric]) (rule sum.cong, auto)
  then show ?case using Cons by (auto simp: sum.delta')
qed simp

lemma count_named: "count_list xs i \<le> length (filter (\<lambda>x. f x = f i) xs)"
  by (induction xs) auto

lemma covered_chain_bounded:
  assumes ok: "graph_ok (length nodes) succs" and fin: "finishGraph nodes succs edgs edge depthCap = Some g"
    and acc: "\<forall>p \<in> set (lg_Problems g). lp_Code p \<noteq> codeLoopCycle"
    and c: "carried bound loops c" "0 \<le> bound" "bound \<le> MaxInt32"
    and loops: "\<forall>i < length nodes. \<forall>d. gn_Loop (nodes ! i) = Some d \<longrightarrow> d > 0 \<and> loops (gn_Name (nodes ! i)) = Some d"
    and w: "walk succs (\<lambda>m. m < length nodes) xs" "map lk_Automation (ca_Chain c) = names nodes xs"
  shows "length (ca_Chain c) \<le> length nodes + (length nodes + 1) *
    (\<Sum>i | i < length nodes \<and> isLoop nodes i. nat (the (gn_Loop (nodes ! i))))"
proof -
  let ?n = "length nodes" and ?l = "isLoop nodes"
  have "\<not> cycle_at succs (\<lambda>m. \<not> ?l m) v ys" for v ys
  proof -
    obtain ps where "set (lg_Problems g) = set ps \<union> set (depthProblems nodes depthCap)"
      "ps = [] \<longleftrightarrow> \<not> (\<exists>v xs. cycle_at succs (\<lambda>m. \<not> ?l m) v xs)"
      "\<forall>p \<in> set ps. \<exists>v path. cycle_at succs (\<lambda>m. \<not> ?l m) v path \<and> p = cycleProblem edgs (lg_idx g) v path"
      by (rule finishGraph_run [OF ok, of edgs edge depthCap]) (use fin in auto)
    then show ?thesis using acc by (cases ps) (auto simp: cycleProblem_def)
  qed
  then have len: "length xs \<le> ?n + (?n + 1) * length (filter ?l xs)" by (rule covered_walk_length [OF ok _ w(1)])
  have sub: "set xs \<subseteq> {..<?n}" using w(1) by (auto simp: walk_def list_all_iff)
  have "count_list xs i \<le> nat (the (gn_Loop (nodes ! i)))" if i: "i < ?n" "?l i" for i
  proof -
    obtain d where d: "gn_Loop (nodes ! i) = Some d" using i(2) by (auto simp: isLoop_def)
    have "count_list xs i \<le> length (filter (\<lambda>x. gn_Name (nodes ! x) = gn_Name (nodes ! i)) xs)" by (rule count_named)
    also have "\<dots> = length (filter (\<lambda>a. a = gn_Name (nodes ! i)) (names nodes xs))"
      by (simp add: names_def filter_map o_def)
    also have "\<dots> = length (filter (\<lambda>l. lk_Automation l = gn_Name (nodes ! i)) (ca_Chain c))"
      unfolding w(2) [symmetric] by (simp add: filter_map o_def)
    finally show ?thesis
      using carried_ok [OF c] loops i(1) d unfolding cause_ok_def runs_of_def by fastforce
  qed
  then have "length (filter ?l xs) \<le> (\<Sum>i | i < ?n \<and> ?l i. nat (the (gn_Loop (nodes ! i))))"
    unfolding length_filter_sum [OF sub] by (intro sum_mono) simp
  then have "(?n + 1) * length (filter ?l xs) \<le> (?n + 1) * (\<Sum>i | i < ?n \<and> ?l i. nat (the (gn_Loop (nodes ! i))))"
    by (rule mult_le_mono2)
  moreover have "length (ca_Chain c) = length xs" using arg_cong [OF w(2), of length] by (simp add: names_def)
  ultimately show ?thesis using len by linarith
qed


text \<open>The chain of the automation \<open>toucher\<close>, which runs itself: a write of its own fires it once more.\<close>

definition secondEvent :: Event where
  "secondEvent = root_event\<lparr>evt_Cause := Next zeroCause ''a'' ''r1'' ''k''\<rparr>"

definition twoLinks :: Cause where
  "twoLinks = Next (Next zeroCause ''a'' ''r1'' ''k'') ''a'' ''r2'' ''k''"

lemma twoLinks_carried: "carried 16 (\<lambda>_. Some 2) twoLinks"
proof -
  let ?c = "Next zeroCause ''a'' ''r1'' ''k''" and ?a = "\<lparr>au_Name = ''a'', au_Loop = Some 2\<rparr>"
  have one: "placeFire (\<lambda>_. '''') (\<lambda>_. ''k'') None ?a ''r1'' (Some root_event) = (None, Some ?c)"
    by (simp add: sample_fire_defs wrap64_def priorRuns_def)
  have ev: "event_cause (Some root_event) = zeroCause" "context_cause None = zeroCause" "context_cause (Some ?c) = ?c"
    by (simp_all add: sample_fire_defs)
  have c: "carried 16 (\<lambda>_. Some 2) ?c"
    using carried_fire [of 16 "\<lambda>_. Some 2" "Some root_event" None "\<lambda>_. ''''" ?a "\<lambda>_. ''k''" "''r1''" None "Some ?c"]
      one ev carried_root by (simp add: default_cap)
  have two: "placeFire (\<lambda>_. '''') (\<lambda>_. ''k'') None ?a ''r2'' (Some secondEvent) = (None, Some twoLinks)"
    by (simp add: sample_fire_defs wrap64_def priorRuns_def secondEvent_def twoLinks_def)
  have "event_cause (Some secondEvent) = ?c" "context_cause (Some twoLinks) = twoLinks"
    by (simp_all add: sample_fire_defs secondEvent_def twoLinks_def)
  then show ?thesis
    using carried_fire [of 16 "\<lambda>_. Some 2" "Some secondEvent" None "\<lambda>_. ''''" ?a "\<lambda>_. ''k''" "''r2''" None "Some twoLinks"]
      two c carried_root by (simp add: default_cap ev)
qed


end
